(* ===== verification/VM_Prelude.thy ===== *)
theory VM_Prelude
  imports Complex_Main "HOL-Library.Word" "HOL-Library.Monad_Syntax"
begin

text \<open>
  The prelude: type names, memory access with its failures, \<open>memcpy\<close>, and the geometry
  of circular arrays that both queues of the program share.

  Arrays are lists. An access outside the array is undefined behaviour in C and C++, so
  the routines whose indices are computed go through \<open>rd\<close> and \<open>wr\<close>, where it is the
  value \<open>None\<close>; a theorem that such a routine returns \<open>Some\<close> is a memory-safety theorem.

  Floating point. A routine of the program that only adds, multiplies and compares is
  translated at a type \<open>'a\<close> of the syntactic classes it uses (\<open>plus\<close>,
  \<open>times\<close>, \<open>ord\<close>, ...). These classes have no laws, so nothing is assumed
  about rounding, overflow or NaN: what is proved there holds of IEEE binary32 exactly as
  of the reals. Where a theorem needs algebra, its type is \<open>real\<close> or an ordered field and
  the statement is about exact arithmetic.
\<close>

section \<open>Types\<close>

type_synonym byte = "8 word"
type_synonym u32 = "32 word"
type_synonym u64 = "64 word"

named_theorems ring_simps \<open>positions and contents of circular arrays\<close>
named_theorems inv_intros \<open>operations keep their component's invariant\<close>
named_theorems mem_simps \<open>reads and writes of arrays\<close>

section \<open>Literals of the source\<close>

text \<open>A decimal literal of the source, at whatever arithmetic type the routine is read.\<close>

definition lit :: "real \<Rightarrow> 'a::{scaleR,one}" where
  "lit r = r *\<^sub>R 1"

lemma lit_real [simp]: "lit r = (r::real)"
  by (simp add: lit_def)

section \<open>Memory\<close>

definition rd :: "'a list \<Rightarrow> int \<Rightarrow> 'a option" where
  "rd xs i = (if 0 \<le> i \<and> i < int (length xs) then Some (xs ! nat i) else None)"

definition wr :: "'a list \<Rightarrow> int \<Rightarrow> 'a \<Rightarrow> 'a list option" where
  "wr xs i v = (if 0 \<le> i \<and> i < int (length xs) then Some (xs[nat i := v]) else None)"

lemma rd_nat [mem_simps]: "i < length xs \<Longrightarrow> rd xs (int i) = Some (xs ! i)"
  by (simp add: rd_def)

lemma rd_in [mem_simps]: "0 \<le> i \<Longrightarrow> i < int (length xs) \<Longrightarrow> rd xs i = Some (xs ! nat i)"
  by (simp add: rd_def)

lemma rd_Some_iff: "rd xs i = Some v \<longleftrightarrow> 0 \<le> i \<and> i < int (length xs) \<and> xs ! nat i = v"
  by (auto simp: rd_def)

lemma rd_None_iff: "rd xs i = None \<longleftrightarrow> i < 0 \<or> int (length xs) \<le> i"
  by (auto simp: rd_def)

lemma wr_nat [mem_simps]: "i < length xs \<Longrightarrow> wr xs (int i) v = Some (xs[i := v])"
  by (simp add: wr_def)

lemma wr_length [mem_simps]: "wr xs i v = Some ys \<Longrightarrow> length ys = length xs"
  by (auto simp: wr_def split: if_splits)

lemma rd_at: "i = int k \<Longrightarrow> k < length xs \<Longrightarrow> rd xs i = Some (xs ! k)"
  by (simp add: rd_nat)

lemma rd_ex: "0 \<le> i \<Longrightarrow> i < int (length xs) \<Longrightarrow> \<exists>v. rd xs i = Some v"
  by (simp add: rd_def)

lemma wr_ex: "0 \<le> i \<Longrightarrow> i < int (length xs) \<Longrightarrow> \<exists>ys. wr xs i v = Some ys \<and> length ys = length xs"
  by (simp add: wr_def)

text \<open>\<open>memcpy\<close> of a whole source into a destination that has room for it.\<close>

definition blit :: "'a list \<Rightarrow> nat \<Rightarrow> 'a list \<Rightarrow> 'a list" where
  "blit dst i src = take i dst @ src @ drop (i + length src) dst"

lemma length_blit [mem_simps]:
  "i + length src \<le> length dst \<Longrightarrow> length (blit dst i src) = length dst"
  by (simp add: blit_def)

lemma nth_blit [mem_simps]:
  "i + length src \<le> length dst \<Longrightarrow> j < length dst \<Longrightarrow>
   blit dst i src ! j = (if i \<le> j \<and> j < i + length src then src ! (j - i) else dst ! j)"
  by (auto simp: blit_def nth_append min_def)

lemma blit_empty [simp]: "i \<le> length dst \<Longrightarrow> blit dst i [] = dst"
  by (simp add: blit_def)

text \<open>The division of C, which truncates.\<close>

definition cdiv :: "int \<Rightarrow> int \<Rightarrow> int" where
  "cdiv a b = sgn a * sgn b * (\<bar>a\<bar> div \<bar>b\<bar>)"

lemma cdiv_nonneg: "0 \<le> a \<Longrightarrow> 0 < b \<Longrightarrow> cdiv a b = a div b"
  by (cases "a = 0") (auto simp: cdiv_def sgn_if)

section \<open>Loops whose body may fail\<close>

fun ofold :: "('b \<Rightarrow> 's \<Rightarrow> 's option) \<Rightarrow> 'b list \<Rightarrow> 's \<Rightarrow> 's option" where
  "ofold f [] s = Some s"
| "ofold f (x # xs) s = (case f x s of None \<Rightarrow> None | Some s' \<Rightarrow> ofold f xs s')"

lemma ofold_append:
  "ofold f (xs @ ys) s = (case ofold f xs s of None \<Rightarrow> None | Some s' \<Rightarrow> ofold f ys s')"
  by (induction xs arbitrary: s) (auto split: option.splits)

text \<open>A counting loop whose state after \<open>i\<close> rounds is \<open>g i\<close>.\<close>

lemma ofold_upt:
  "(\<And>i. i < n \<Longrightarrow> f i (g i) = Some (g (Suc i))) \<Longrightarrow> g 0 = s \<Longrightarrow> ofold f [0..<n] s = Some (g n)"
  by (induction n arbitrary: s) (auto simp: ofold_append)

lemma ofold_upt_from:
  "m \<le> n \<Longrightarrow> (\<And>i. m \<le> i \<Longrightarrow> i < n \<Longrightarrow> f i (g i) = Some (g (Suc i))) \<Longrightarrow> g m = s \<Longrightarrow>
   ofold f [m..<n] s = Some (g n)"
proof (induction n arbitrary: s)
  case (Suc n)
  show ?case
  proof (cases "m = Suc n")
    case False
    then have mn: "m \<le> n" using Suc.prems(1) by simp
    then have "ofold f [m..<n] s = Some (g n)" using Suc by simp
    then show ?thesis using mn Suc.prems(2) [of n] by (simp add: ofold_append)
  qed (use Suc.prems in simp)
qed simp

text \<open>A counting loop that keeps \<open>P\<close>.\<close>

lemma ofold_inv:
  "(\<And>i s. i < n \<Longrightarrow> P i s \<Longrightarrow> \<exists>s'. f i s = Some s' \<and> P (Suc i) s') \<Longrightarrow> P 0 s \<Longrightarrow>
   \<exists>s'. ofold f [0..<n] s = Some s' \<and> P n s'"
proof (induction n)
  case (Suc n)
  then obtain s1 where "ofold f [0..<n] s = Some s1" "P n s1" by force
  moreover from this obtain s2 where "f n s1 = Some s2" "P (Suc n) s2"
    using Suc.prems(1) [of n s1] by auto
  ultimately show ?case by (simp add: ofold_append)
qed simp

lemma ofold_inv_from:
  assumes "m \<le> n" "\<And>i s. m \<le> i \<Longrightarrow> i < n \<Longrightarrow> P i s \<Longrightarrow> \<exists>s'. f i s = Some s' \<and> P (Suc i) s'" "P m s"
  shows "\<exists>s'. ofold f [m..<n] s = Some s' \<and> P n s'"
  using assms
proof (induction n)
  case (Suc n)
  show ?case
  proof (cases "m = Suc n")
    case False
    then have mn: "m \<le> n" using Suc.prems(1) by simp
    then obtain s1 where "ofold f [m..<n] s = Some s1" "P n s1" using Suc by force
    moreover from this mn obtain s2 where "f n s1 = Some s2" "P (Suc n) s2"
      using Suc.prems(2) [of n s1] by auto
    ultimately show ?thesis using mn by (simp add: ofold_append)
  qed (use Suc.prems in simp)
qed simp

text \<open>An array with the cells from \<open>p\<close> on, \<open>n\<close> of them, given by \<open>f\<close>.\<close>

definition seg_upd :: "'a list \<Rightarrow> nat \<Rightarrow> nat \<Rightarrow> (nat \<Rightarrow> 'a) \<Rightarrow> 'a list" where
  "seg_upd xs p n f = map (\<lambda>i. if p \<le> i \<and> i < p + n then f i else xs ! i) [0..<length xs]"

lemma length_seg_upd [simp]: "length (seg_upd xs p n f) = length xs"
  by (simp add: seg_upd_def)

lemma nth_seg_upd [simp]:
  "i < length xs \<Longrightarrow> seg_upd xs p n f ! i = (if p \<le> i \<and> i < p + n then f i else xs ! i)"
  by (simp add: seg_upd_def)

lemma seg_upd_0 [simp]: "seg_upd xs p 0 f = xs"
  by (rule nth_equalityI) auto

lemma seg_upd_Suc:
  "p + n < length xs \<Longrightarrow> (seg_upd xs p n f)[p + n := f (p + n)] = seg_upd xs p (Suc n) f"
  by (rule nth_equalityI) (auto simp: nth_list_update)

text \<open>
  A loop that writes the cells from \<open>p\<close> on, one per round, and reads only that cell and cells
  the loop does not write.
\<close>

lemma ofold_seg:
  assumes "\<And>i ys. i < n \<Longrightarrow> length ys = length xs \<Longrightarrow> (\<forall>k<length xs. k < p \<or> p + i \<le> k \<longrightarrow> ys ! k = xs ! k) \<Longrightarrow>
      f i ys = Some (ys[p + i := F (p + i)])"
    and "p + n \<le> length xs"
  shows "ofold f [0..<n] xs = Some (seg_upd xs p n F)"
proof (rule ofold_upt [where g = "\<lambda>n. seg_upd xs p n F"])
  fix i assume i: "i < n"
  then have "f i (seg_upd xs p i F) = Some ((seg_upd xs p i F)[p + i := F (p + i)])"
    by (intro assms(1)) auto
  then show "f i (seg_upd xs p i F) = Some (seg_upd xs p (Suc i) F)"
    using i assms(2) by (simp add: seg_upd_Suc)
qed simp

section \<open>Circular arrays\<close>

text \<open>The \<open>n\<close> cells from position \<open>r\<close> on, wrapping at the end of the array.\<close>

definition ring_seg :: "'a list \<Rightarrow> nat \<Rightarrow> nat \<Rightarrow> 'a list" where
  "ring_seg xs r n = map (\<lambda>i. xs ! ((r + i) mod length xs)) [0..<n]"

text \<open>How far \<open>w\<close> is ahead of \<open>r\<close> on a ring of \<open>c\<close> cells.\<close>

definition ring_dist :: "nat \<Rightarrow> nat \<Rightarrow> nat \<Rightarrow> nat" where
  "ring_dist c r w = (w + c - r) mod c"

lemma length_ring_seg [ring_simps, simp]: "length (ring_seg xs r n) = n"
  by (simp add: ring_seg_def)

lemma nth_ring_seg [ring_simps]:
  "i < n \<Longrightarrow> ring_seg xs r n ! i = xs ! ((r + i) mod length xs)"
  by (simp add: ring_seg_def)

lemma ring_seg_0 [ring_simps, simp]: "ring_seg xs r 0 = []"
  by (simp add: ring_seg_def)

lemma ring_dist_less [ring_simps]: "0 < c \<Longrightarrow> ring_dist c r w < c"
  by (simp add: ring_dist_def)

lemma ring_dist_same [ring_simps]: "r < c \<Longrightarrow> ring_dist c r r = 0"
  by (simp add: ring_dist_def)

lemma ring_dist_cases:
  assumes "r < c" "w < c"
  shows "ring_dist c r w = (if r \<le> w then w - r else c - r + w)"
proof (cases "r \<le> w")
  case True
  then have "(w + c - r) mod c = (c + (w - r)) mod c" by (simp add: algebra_simps)
  also have "\<dots> = (w - r) mod c" by (rule mod_add_self1)
  finally show ?thesis using True assms by (simp add: ring_dist_def)
next
  case False
  then have "w + c - r < c" using assms by simp
  then show ?thesis using False assms by (simp add: ring_dist_def)
qed

lemma ring_dist_add_w:
  assumes "r < c" "w < c" "ring_dist c r w + n < c"
  shows "ring_dist c r ((w + n) mod c) = ring_dist c r w + n"
proof -
  have "(w + n) mod c + c - r = (w + n) mod c + (c - r)" using assms by simp
  then have "ring_dist c r ((w + n) mod c) = (w + n + (c - r)) mod c"
    by (simp add: ring_dist_def mod_add_left_eq)
  also have "\<dots> = ((w + c - r) + n) mod c"
    using assms by (simp add: algebra_simps)
  also have "\<dots> = (ring_dist c r w + n) mod c"
    by (simp add: ring_dist_def mod_add_left_eq)
  finally show ?thesis using assms by simp
qed

lemma ring_dist_add_r:
  assumes "r < c" "w < c" "n \<le> ring_dist c r w"
  shows "ring_dist c ((r + n) mod c) w = ring_dist c r w - n"
proof -
  have w: "w = (r + ring_dist c r w) mod c"
    using assms by (simp add: ring_dist_cases mod_if split: if_splits)
  have *: "ring_dist c r w < c" using assms by (simp add: ring_dist_def)
  show ?thesis
  proof (cases "r + n < c")
    case True
    then show ?thesis using assms * by (auto simp: ring_dist_cases split: if_splits)
  next
    case False
    then have "(r + n) mod c = r + n - c" using assms * by (simp add: mod_if)
    then show ?thesis using assms * False by (auto simp: ring_dist_cases split: if_splits)
  qed
qed

lemma ring_pos_cases:
  "(w::nat) < c \<Longrightarrow> i < c \<Longrightarrow> (w + i) mod c = (if w + i < c then w + i else w + i - c)"
  by (simp add: mod_if)

lemma ring_pos_ahead: "r < c \<Longrightarrow> w < c \<Longrightarrow> (r + ring_dist c r w) mod c = w"
  by (auto simp: ring_dist_cases mod_if)

lemma ring_seg_append:
  "ring_seg xs r (m + n) = ring_seg xs r m @ ring_seg xs ((r + m) mod length xs) n"
proof (rule nth_equalityI)
  fix i assume "i < length (ring_seg xs r (m + n))"
  then have i: "i < m + n" by simp
  show "ring_seg xs r (m + n) ! i =
      (ring_seg xs r m @ ring_seg xs ((r + m) mod length xs) n) ! i"
  proof (cases "i < m")
    case True
    then show ?thesis using i by (simp add: nth_append nth_ring_seg)
  next
    case False
    then obtain k where k: "i = m + k" by (metis le_Suc_ex not_less)
    then show ?thesis using i
      by (simp add: nth_append nth_ring_seg mod_add_left_eq add.assoc)
  qed
qed simp

lemma take_ring_seg [ring_simps]: "n \<le> m \<Longrightarrow> take n (ring_seg xs r m) = ring_seg xs r n"
  using ring_seg_append [of xs r n "m - n"] by simp

lemma drop_ring_seg [ring_simps]:
  "n \<le> m \<Longrightarrow> drop n (ring_seg xs r m) = ring_seg xs ((r + n) mod length xs) (m - n)"
  using ring_seg_append [of xs r n "m - n"] by simp

lemma ring_seg_cong:
  "length ys = length xs \<Longrightarrow>
   (\<And>i. i < n \<Longrightarrow> ys ! ((r + i) mod length xs) = xs ! ((r + i) mod length xs)) \<Longrightarrow>
   ring_seg ys r n = ring_seg xs r n"
  by (simp add: ring_seg_def)

text \<open>
  A segment read in one piece, or in two when it runs over the end: the two \<open>memcpy\<close>
  branches of the ring buffer.
\<close>

lemma ring_seg_flat:
  assumes "r + n \<le> length xs"
  shows "ring_seg xs r n = take n (drop r xs)"
  using assms by (intro nth_equalityI) (auto simp: nth_ring_seg mod_if)

lemma ring_seg_split:
  assumes "r < length xs" "n \<le> length xs" "length xs < r + n"
  shows "ring_seg xs r n = drop r xs @ take (n - (length xs - r)) xs"
proof -
  have "n = (length xs - r) + (n - (length xs - r))" using assms by simp
  then have "ring_seg xs r n = ring_seg xs r (length xs - r)
      @ ring_seg xs ((r + (length xs - r)) mod length xs) (n - (length xs - r))"
    by (metis ring_seg_append)
  then show ?thesis using assms by (simp add: ring_seg_flat)
qed

text \<open>Two offsets below the ring's size that name the same cell are equal.\<close>

lemma ring_offset_inj:
  assumes "(r + i) mod c = (r + j) mod c" "i < c" "j < c"
  shows "i = (j::nat)"
proof -
  have "i mod c = j mod c"
    using assms(1) by (simp add: nat_mod_eq_iff)
  then show ?thesis using assms by simp
qed

text \<open>Writing one cell of a ring, at an offset inside or beyond a segment.\<close>

lemma ring_seg_update:
  assumes "n \<le> length xs" "j < length xs"
  shows "ring_seg (xs[(r + j) mod length xs := v]) r n =
    (if j < n then (ring_seg xs r n)[j := v] else ring_seg xs r n)"
proof (rule nth_equalityI)
  show "length (ring_seg (xs[(r + j) mod length xs := v]) r n) =
      length (if j < n then (ring_seg xs r n)[j := v] else ring_seg xs r n)"
    by simp
  fix i assume "i < length (ring_seg (xs[(r + j) mod length xs := v]) r n)"
  then have i: "i < n" by simp
  have "0 < length xs" using assms(2) by linarith
  then have pos: "(r + i) mod length xs < length xs" by (rule mod_less_divisor)
  have "(r + j) mod length xs = (r + i) mod length xs \<longleftrightarrow> j = i"
    using ring_offset_inj [of r j "length xs" i] i assms by auto
  then show "ring_seg (xs[(r + j) mod length xs := v]) r n ! i =
      (if j < n then (ring_seg xs r n)[j := v] else ring_seg xs r n) ! i"
    using i pos by (auto simp: nth_ring_seg nth_list_update)
qed

end
