(* ===== verification/Bounded_Fifo.thy ===== *)
theory Bounded_Fifo
  imports VM_Prelude
begin

text \<open>
  The contract that the audio path relies on wherever two threads hand data over: a
  bounded first-in first-out queue. \<open>ring_buffer.h\<close> provides it for the bytes between
  the socket thread and the render thread, \<open>dsp/tagged_block_queue.h\<close> for the blocks
  between the render thread and the DPDFNet worker; both are interpreted in their own
  theories. The specification is a plain list.
\<close>

section \<open>Sequences of operations and what they observe\<close>

datatype ('m, 'n, 'd) fifo_op = Put 'm | Get 'n | Discard 'd

datatype 'a fifo_obs = Accepted bool | Got "'a list option" | Done

text \<open>One operation of an implementation: what the caller sees, and the next state.\<close>

fun fifo_step ::
  "('q \<Rightarrow> 'm \<Rightarrow> bool \<times> 'q) \<Rightarrow> ('q \<Rightarrow> 'n \<Rightarrow> 'a list option \<times> 'q) \<Rightarrow> ('q \<Rightarrow> 'd \<Rightarrow> 'q) \<Rightarrow>
   'q \<Rightarrow> ('m, 'n, 'd) fifo_op \<Rightarrow> 'a fifo_obs \<times> 'q" where
  "fifo_step put get disc q (Put m) = map_prod Accepted id (put q m)"
| "fifo_step put get disc q (Get n) = map_prod Got id (get q n)"
| "fifo_step put get disc q (Discard d) = (Done, disc q d)"

fun fifo_run ::
  "('q \<Rightarrow> 'm \<Rightarrow> bool \<times> 'q) \<Rightarrow> ('q \<Rightarrow> 'n \<Rightarrow> 'a list option \<times> 'q) \<Rightarrow> ('q \<Rightarrow> 'd \<Rightarrow> 'q) \<Rightarrow>
   'q \<Rightarrow> ('m, 'n, 'd) fifo_op list \<Rightarrow> 'a fifo_obs list \<times> 'q" where
  "fifo_run put get disc q [] = ([], q)"
| "fifo_run put get disc q (op # ops) =
     (let (ob, q') = fifo_step put get disc q op;
          (obs, q'') = fifo_run put get disc q' ops
      in (ob # obs, q''))"

section \<open>The specification: a list of bounded length\<close>

definition list_put :: "nat \<Rightarrow> ('m \<Rightarrow> bool) \<Rightarrow> ('m \<Rightarrow> 'a list) \<Rightarrow> 'a list \<Rightarrow> 'm \<Rightarrow> bool \<times> 'a list" where
  "list_put bnd ok payload xs m =
     (if ok m \<and> length xs + length (payload m) \<le> bnd then (True, xs @ payload m) else (False, xs))"

definition list_get :: "('n \<Rightarrow> nat) \<Rightarrow> 'a list \<Rightarrow> 'n \<Rightarrow> 'a list option \<times> 'a list" where
  "list_get want xs n =
     (if want n \<le> length xs then (Some (take (want n) xs), drop (want n) xs) else (None, xs))"

text \<open>What was accepted and what came out, read off a run's observations.\<close>

fun put_in :: "('m \<Rightarrow> 'a list) \<Rightarrow> ('m, 'n, 'd) fifo_op list \<Rightarrow> 'a fifo_obs list \<Rightarrow> 'a list" where
  "put_in payload (Put m # ops) (Accepted True # obs) = payload m @ put_in payload ops obs"
| "put_in payload (_ # ops) (_ # obs) = put_in payload ops obs"
| "put_in payload _ _ = []"

fun got_out :: "'a fifo_obs list \<Rightarrow> 'a list" where
  "got_out [] = []"
| "got_out (Got (Some xs) # obs) = xs @ got_out obs"
| "got_out (_ # obs) = got_out obs"

fun is_discard :: "('m, 'n, 'd) fifo_op \<Rightarrow> bool" where
  "is_discard (Discard _) = True"
| "is_discard _ = False"

section \<open>The interface\<close>

locale bounded_fifo =
  fixes inv :: "'q \<Rightarrow> bool"
    and contents :: "'q \<Rightarrow> 'a list"
    and bound :: "'q \<Rightarrow> nat"
    and put :: "'q \<Rightarrow> 'm \<Rightarrow> bool \<times> 'q"
    and ok :: "'m \<Rightarrow> bool"
    and payload :: "'m \<Rightarrow> 'a list"
    and get :: "'q \<Rightarrow> 'n \<Rightarrow> 'a list option \<times> 'q"
    and want :: "'n \<Rightarrow> nat"
    and disc :: "'q \<Rightarrow> 'd \<Rightarrow> 'q"
    and adisc :: "'d \<Rightarrow> 'a list \<Rightarrow> 'a list"
  assumes contents_le: "inv q \<Longrightarrow> length (contents q) \<le> bound q"
    and put_inv: "inv q \<Longrightarrow> inv (snd (put q m)) \<and> bound (snd (put q m)) = bound q"
    and put_spec: "inv q \<Longrightarrow>
      map_prod id contents (put q m) = list_put (bound q) ok payload (contents q) m"
    and get_inv: "inv q \<Longrightarrow> inv (snd (get q n)) \<and> bound (snd (get q n)) = bound q"
    and get_spec: "inv q \<Longrightarrow>
      map_prod id contents (get q n) = list_get want (contents q) n"
    and disc_inv: "inv q \<Longrightarrow> inv (disc q d) \<and> bound (disc q d) = bound q"
    and disc_spec: "inv q \<Longrightarrow> contents (disc q d) = adisc d (contents q)"
begin

lemma step_refines:
  assumes "inv q"
  shows "map_prod id contents (fifo_step put get disc q op) =
         fifo_step (list_put (bound q) ok payload) (list_get want) (\<lambda>xs d. adisc d xs)
           (contents q) op"
proof (cases op)
  case (Put m)
  then show ?thesis by (cases "put q m") (simp flip: put_spec [OF assms])
next
  case (Get n)
  then show ?thesis by (cases "get q n") (simp flip: get_spec [OF assms])
next
  case (Discard d)
  then show ?thesis by (simp add: disc_spec assms)
qed

lemma step_inv:
  assumes "inv q"
  shows "inv (snd (fifo_step put get disc q op)) \<and>
         bound (snd (fifo_step put get disc q op)) = bound q"
  using put_inv [OF assms] get_inv [OF assms] disc_inv [OF assms] by (cases op) auto

text \<open>The simulation: every run of the implementation is a run of the list.\<close>

lemma run_refines:
  assumes "inv q"
  shows "map_prod id contents (fifo_run put get disc q ops) =
         fifo_run (list_put (bound q) ok payload) (list_get want) (\<lambda>xs d. adisc d xs)
           (contents q) ops"
  using assms
proof (induction ops arbitrary: q)
  case Nil
  then show ?case by simp
next
  case (Cons op ops)
  obtain ob q' where step: "fifo_step put get disc q op = (ob, q')"
    by (cases "fifo_step put get disc q op")
  have abs: "fifo_step (list_put (bound q) ok payload) (list_get want) (\<lambda>xs d. adisc d xs)
      (contents q) op = (ob, contents q')"
    using step_refines [OF Cons.prems, of op] step by simp
  have "inv q'" "bound q' = bound q"
    using step_inv [OF Cons.prems, of op] step by simp_all
  then have "fifo_run (list_put (bound q) ok payload) (list_get want) (\<lambda>xs d. adisc d xs)
      (contents q') ops = map_prod id contents (fifo_run put get disc q' ops)"
    using Cons.IH [of q'] by (metis (no_types))
  then show ?case
    using step abs by (cases "fifo_run put get disc q' ops") simp
qed

lemma run_inv: "inv q \<Longrightarrow> inv (snd (fifo_run put get disc q ops))"
proof (induction ops arbitrary: q)
  case (Cons op ops)
  then show ?case
    using step_inv [of q op]
    by (auto simp: Let_def split: prod.splits) (metis snd_conv)
qed simp

text \<open>First in, first out, nothing lost and nothing made up.\<close>

lemma run_fifo:
  assumes "inv q" "\<forall>op\<in>set ops. \<not> is_discard op"
    and "fifo_run put get disc q ops = (obs, q')"
  shows "contents q @ put_in payload ops obs = got_out obs @ contents q'"
  using assms
proof (induction ops arbitrary: q obs)
  case Nil
  then show ?case by simp
next
  case (Cons op ops)
  obtain ob q1 where step: "fifo_step put get disc q op = (ob, q1)"
    by (cases "fifo_step put get disc q op")
  obtain obs1 where run: "fifo_run put get disc q1 ops = (obs1, q')" and obs: "obs = ob # obs1"
    using Cons.prems(3) step by (auto simp: Let_def split: prod.splits)
  have "inv q1" using step_inv [OF Cons.prems(1), of op] step by simp
  then have IH: "contents q1 @ put_in payload ops obs1 = got_out obs1 @ contents q'"
    using Cons.IH Cons.prems(2) run by simp
  show ?case
  proof (cases op)
    case (Put m)
    then show ?thesis
      using IH put_spec [OF Cons.prems(1), of m] step obs
      by (cases "put q m") (auto simp: list_put_def split: if_splits)
  next
    case (Get n)
    then obtain r where r: "get q n = (r, q1)" "ob = Got r"
      using step by (cases "get q n") auto
    show ?thesis
    proof (cases "want n \<le> length (contents q)")
      case True
      then have "r = Some (take (want n) (contents q))" "contents q1 = drop (want n) (contents q)"
        using get_spec [OF Cons.prems(1), of n] r by (auto simp: list_get_def)
      then have "contents q @ put_in payload ops obs1 =
          take (want n) (contents q) @ contents q1 @ put_in payload ops obs1"
        by (metis append_assoc append_take_drop_id)
      then show ?thesis using IH Get obs r \<open>r = _\<close> by simp
    next
      case False
      then have "r = None" "contents q1 = contents q"
        using get_spec [OF Cons.prems(1), of n] r by (auto simp: list_get_def)
      then show ?thesis using IH Get obs r by simp
    qed
  next
    case (Discard d)
    then show ?thesis using Cons.prems(2) by simp
  qed
qed

end

end
