(* ===== verification/Ring_Buffer.thy ===== *)
theory Ring_Buffer
  imports Bounded_Fifo
begin

text \<open>
  \<open>src/ring_buffer.h\<close>: \<open>SPSCRingBuffer\<close>, the byte queue between the socket thread and
  the WASAPI render thread. The record has the class's members; the atomics are plain
  positions here, since each operation runs alone. Their interleaving is the theory
  \<open>Ring_Concurrency\<close>. Positions and sizes are \<open>size_t\<close>; \<open>push\<close> and \<open>pop\<close> compare the
  size with the free or used space before they add it to a position below the capacity,
  so no sum exceeds twice the capacity and \<open>nat\<close> is exact for every capacity below
  \<open>2 ^ 63\<close> (the program's is 122880).
\<close>

section \<open>State and operations\<close>

record spsc_ring =
  m_buffer :: "byte list"
  m_capacity :: nat
  m_readPos :: nat
  m_writePos :: nat

definition rb_new :: "nat \<Rightarrow> spsc_ring" where
  "rb_new capacity =
     \<lparr>m_buffer = replicate capacity 0, m_capacity = capacity, m_readPos = 0, m_writePos = 0\<rparr>"

definition availableRead :: "spsc_ring \<Rightarrow> nat \<Rightarrow> nat \<Rightarrow> nat" where
  "availableRead q readPos writePos =
     (if readPos \<le> writePos then writePos - readPos else m_capacity q - readPos + writePos)"

definition availableWrite :: "spsc_ring \<Rightarrow> nat \<Rightarrow> nat \<Rightarrow> nat" where
  "availableWrite q writePos readPos = m_capacity q - availableRead q readPos writePos - 1"

definition rb_store :: "spsc_ring \<Rightarrow> nat \<Rightarrow> byte list \<Rightarrow> byte list" where
  "rb_store q writePos data =
     (if writePos + length data \<le> m_capacity q then blit (m_buffer q) writePos data
      else let first = m_capacity q - writePos
           in blit (blit (m_buffer q) writePos (take first data)) 0 (drop first data))"

definition rb_push :: "spsc_ring \<Rightarrow> byte list \<Rightarrow> bool \<times> spsc_ring" where
  "rb_push q data =
     (let writePos = m_writePos q; readPos = m_readPos q; n = length data
      in if availableWrite q writePos readPos < n then (False, q)
         else (True, q\<lparr>m_buffer := rb_store q writePos data,
                       m_writePos := (writePos + n) mod m_capacity q\<rparr>))"

definition rb_load :: "spsc_ring \<Rightarrow> nat \<Rightarrow> nat \<Rightarrow> byte list" where
  "rb_load q readPos n =
     (if readPos + n \<le> m_capacity q then take n (drop readPos (m_buffer q))
      else let first = m_capacity q - readPos
           in take first (drop readPos (m_buffer q)) @ take (n - first) (m_buffer q))"

definition rb_pop :: "spsc_ring \<Rightarrow> nat \<Rightarrow> byte list option \<times> spsc_ring" where
  "rb_pop q n =
     (let readPos = m_readPos q; writePos = m_writePos q
      in if availableRead q readPos writePos < n then (None, q)
         else (Some (rb_load q readPos n),
               q\<lparr>m_readPos := (readPos + n) mod m_capacity q\<rparr>))"

definition rb_reset :: "spsc_ring \<Rightarrow> spsc_ring" where
  "rb_reset q = q\<lparr>m_readPos := 0, m_writePos := 0\<rparr>"

definition rb_size :: "spsc_ring \<Rightarrow> nat" where
  "rb_size q = availableRead q (m_readPos q) (m_writePos q)"

definition rb_sizeBlocks :: "spsc_ring \<Rightarrow> nat \<Rightarrow> nat" where
  "rb_sizeBlocks q blockSize = rb_size q div blockSize"

definition rb_discard :: "spsc_ring \<Rightarrow> nat \<Rightarrow> spsc_ring" where
  "rb_discard q bytes =
     (let readPos = m_readPos q; writePos = m_writePos q;
          avail = availableRead q readPos writePos
      in if avail \<le> bytes then q\<lparr>m_readPos := writePos\<rparr>
         else q\<lparr>m_readPos := (readPos + bytes) mod m_capacity q\<rparr>)"

section \<open>Invariant and contents\<close>

definition rb_inv :: "spsc_ring \<Rightarrow> bool" where
  "rb_inv q \<longleftrightarrow> length (m_buffer q) = m_capacity q \<and>
     m_readPos q < m_capacity q \<and> m_writePos q < m_capacity q"

definition rb_contents :: "spsc_ring \<Rightarrow> byte list" where
  "rb_contents q = ring_seg (m_buffer q) (m_readPos q) (rb_size q)"

definition rb_bound :: "spsc_ring \<Rightarrow> nat" where
  "rb_bound q = m_capacity q - 1"

lemma availableRead_ring_dist:
  "r < m_capacity q \<Longrightarrow> w < m_capacity q \<Longrightarrow>
   availableRead q r w = ring_dist (m_capacity q) r w"
  by (simp add: availableRead_def ring_dist_cases)

lemma rb_size_ring_dist:
  "rb_inv q \<Longrightarrow> rb_size q = ring_dist (m_capacity q) (m_readPos q) (m_writePos q)"
  by (simp add: rb_size_def rb_inv_def availableRead_ring_dist)

lemma rb_size_less: "rb_inv q \<Longrightarrow> rb_size q < m_capacity q"
  by (simp add: rb_size_ring_dist) (simp add: ring_dist_less rb_inv_def)

lemma length_rb_contents [simp]: "length (rb_contents q) = rb_size q"
  by (simp add: rb_contents_def)

lemma rb_size_m_buffer [simp]: "rb_size (q\<lparr>m_buffer := b\<rparr>) = rb_size q"
  by (simp add: rb_size_def availableRead_def)

lemma rb_new_inv [inv_intros]: "0 < n \<Longrightarrow> rb_inv (rb_new n)"
  by (simp add: rb_inv_def rb_new_def)

lemma rb_new_contents [simp]: "rb_contents (rb_new n) = []"
  by (simp add: rb_contents_def rb_size_def rb_new_def availableRead_def)

lemma rb_reset_inv [inv_intros]: "rb_inv q \<Longrightarrow> rb_inv (rb_reset q)"
  by (auto simp: rb_inv_def rb_reset_def)

lemma rb_reset_contents [simp]: "rb_contents (rb_reset q) = []"
  by (simp add: rb_contents_def rb_size_def rb_reset_def availableRead_def)

text \<open>The two \<open>memcpy\<close> branches of \<open>push\<close> write the ring cells from the write position on.\<close>

lemma rb_store_length:
  assumes "rb_inv q" "length data < m_capacity q"
  shows "length (rb_store q (m_writePos q) data) = m_capacity q"
  using assms by (auto simp: rb_store_def rb_inv_def mem_simps Let_def)

lemma rb_store_nth:
  assumes inv: "length (m_buffer q) = m_capacity q" "w < m_capacity q"
    and len: "length data < m_capacity q" and i: "i < m_capacity q"
  shows "rb_store q w data ! ((w + i) mod m_capacity q) =
    (if i < length data then data ! i else m_buffer q ! ((w + i) mod m_capacity q))"
proof (cases "w + length data \<le> m_capacity q")
  case True
  then show ?thesis
    using inv i by (auto simp: rb_store_def nth_blit ring_pos_cases)
next
  case False
  let ?f = "m_capacity q - w"
  have "length (blit (m_buffer q) w (take ?f data)) = m_capacity q"
    using inv len False by (simp add: length_blit)
  then show ?thesis
    using inv len i False by (auto simp: rb_store_def nth_blit ring_pos_cases Let_def)
qed

lemma rb_load_ring_seg:
  assumes "length (m_buffer q) = m_capacity q" "r < m_capacity q" "n \<le> m_capacity q"
  shows "rb_load q r n = ring_seg (m_buffer q) r n"
  using assms by (auto simp: rb_load_def ring_seg_flat ring_seg_split Let_def)

section \<open>The operations against the list\<close>

lemma rb_push_full:
  "rb_inv q \<Longrightarrow> rb_bound q < rb_size q + length data \<Longrightarrow> rb_push q data = (False, q)"
  using rb_size_less [of q]
  by (auto simp: rb_push_def Let_def availableWrite_def rb_bound_def rb_size_def)

lemma rb_push_room:
  assumes inv: "rb_inv q" and room: "rb_size q + length data \<le> rb_bound q"
  shows "fst (rb_push q data)"
    and "rb_inv (snd (rb_push q data))"
    and "rb_contents (snd (rb_push q data)) = rb_contents q @ data"
proof -
  let ?c = "m_capacity q" and ?r = "m_readPos q" and ?w = "m_writePos q"
  let ?q' = "q\<lparr>m_buffer := rb_store q ?w data, m_writePos := (?w + length data) mod ?c\<rparr>"
  have b: "length (m_buffer q) = ?c" "?r < ?c" "?w < ?c" using inv by (auto simp: rb_inv_def)
  have lt: "rb_size q + length data < ?c" using room b by (simp add: rb_bound_def)
  have push: "rb_push q data = (True, ?q')"
    using lt by (auto simp: rb_push_def Let_def availableWrite_def rb_size_def)
  have len: "length (rb_store q ?w data) = ?c" using rb_store_length inv lt by simp
  show "fst (rb_push q data)" by (simp add: push)
  show inv': "rb_inv (snd (rb_push q data))" using b len by (simp add: push rb_inv_def)
  have size': "rb_size ?q' = rb_size q + length data"
    using lt b by (simp add: rb_size_def availableRead_ring_dist ring_dist_add_w)
  have w: "(?r + rb_size q) mod ?c = ?w"
    using b by (simp add: rb_size_def availableRead_ring_dist ring_pos_ahead)
  have old: "ring_seg (rb_store q ?w data) ?r (rb_size q) = ring_seg (m_buffer q) ?r (rb_size q)"
  proof (rule ring_seg_cong)
    fix i assume i: "i < rb_size q"
    let ?k = "?c - rb_size q + i"
    have "(?w + ?k) mod ?c = ((?r + rb_size q) mod ?c + ?k) mod ?c" by (simp add: w)
    also have "\<dots> = (?r + (rb_size q + ?k)) mod ?c"
      by (simp add: mod_add_left_eq add.assoc)
    also have "rb_size q + ?k = ?c + i" using lt by simp
    also have "(?r + (?c + i)) mod ?c = (?r + i) mod ?c"
      by (metis add.left_commute mod_add_self1)
    finally have "(?w + ?k) mod ?c = (?r + i) mod ?c" .
    moreover have "?k < ?c" "\<not> ?k < length data" using i lt by auto
    ultimately show "rb_store q ?w data ! ((?r + i) mod length (m_buffer q)) =
        m_buffer q ! ((?r + i) mod length (m_buffer q))"
      using rb_store_nth [of q ?w data ?k] b lt by simp
  qed (use len b in simp)
  have new: "ring_seg (rb_store q ?w data) ?w (length data) = data"
    using rb_store_nth [of q ?w data] b lt len
    by (intro nth_equalityI) (auto simp: nth_ring_seg)
  show "rb_contents (snd (rb_push q data)) = rb_contents q @ data"
    using old new size' w len by (simp add: push rb_contents_def ring_seg_append)
qed

lemma rb_pop_empty: "rb_size q < n \<Longrightarrow> rb_pop q n = (None, q)"
  by (simp add: rb_pop_def rb_size_def)

lemma rb_pop_some:
  assumes inv: "rb_inv q" and n: "n \<le> rb_size q"
  shows "fst (rb_pop q n) = Some (take n (rb_contents q))"
    and "rb_inv (snd (rb_pop q n))"
    and "rb_contents (snd (rb_pop q n)) = drop n (rb_contents q)"
proof -
  let ?c = "m_capacity q" and ?r = "m_readPos q" and ?w = "m_writePos q"
  let ?q' = "q\<lparr>m_readPos := (?r + n) mod ?c\<rparr>"
  have b: "length (m_buffer q) = ?c" "?r < ?c" "?w < ?c" using inv by (auto simp: rb_inv_def)
  have lt: "n < ?c" using n rb_size_less [OF inv] by simp
  have pop: "rb_pop q n = (Some (rb_load q ?r n), ?q')"
    using n by (simp add: rb_pop_def rb_size_def Let_def)
  show "fst (rb_pop q n) = Some (take n (rb_contents q))"
    using b lt n by (simp add: pop rb_load_ring_seg rb_contents_def ring_simps)
  show "rb_inv (snd (rb_pop q n))" using b by (simp add: pop rb_inv_def)
  have "rb_size ?q' = rb_size q - n"
    using b n by (simp add: rb_size_def availableRead_ring_dist ring_dist_add_r)
  then show "rb_contents (snd (rb_pop q n)) = drop n (rb_contents q)"
    using b n by (simp add: pop rb_contents_def ring_simps)
qed

lemma rb_discard_refines:
  assumes inv: "rb_inv q"
  shows "rb_inv (rb_discard q n)" and "rb_contents (rb_discard q n) = drop n (rb_contents q)"
proof -
  let ?c = "m_capacity q" and ?r = "m_readPos q" and ?w = "m_writePos q"
  have b: "length (m_buffer q) = ?c" "?r < ?c" "?w < ?c" using inv by (auto simp: rb_inv_def)
  show "rb_inv (rb_discard q n)" using b by (auto simp: rb_discard_def rb_inv_def Let_def)
  show "rb_contents (rb_discard q n) = drop n (rb_contents q)"
  proof (cases "rb_size q \<le> n")
    case True
    then have "rb_discard q n = q\<lparr>m_readPos := ?w\<rparr>"
      by (simp add: rb_discard_def rb_size_def)
    then show ?thesis
      using True by (simp add: rb_contents_def rb_size_def availableRead_def)
  next
    case False
    then have "rb_discard q n = snd (rb_pop q n)"
      by (simp add: rb_discard_def rb_pop_def rb_size_def Let_def)
    then show ?thesis using rb_pop_some(3) [OF inv] False by simp
  qed
qed

lemma rb_capacity [simp]:
  "m_capacity (snd (rb_push q data)) = m_capacity q"
  "m_capacity (snd (rb_pop q n)) = m_capacity q"
  "m_capacity (rb_discard q n) = m_capacity q"
  by (auto simp: rb_push_def rb_pop_def rb_discard_def Let_def)

interpretation ring: bounded_fifo rb_inv rb_contents rb_bound rb_push "\<lambda>_. True" id
    rb_pop id rb_discard drop
proof (unfold_locales, goal_cases)
  case (1 q)
  then show ?case using rb_size_less [of q] by (simp add: rb_bound_def)
next
  case (2 q m)
  then show ?case
    using rb_push_full [of q m] rb_push_room [of q m]
    by (cases "rb_size q + length m \<le> rb_bound q") (auto simp: rb_bound_def)
next
  case (3 q m)
  then show ?case
    using rb_push_full [of q m] rb_push_room [of q m]
    by (cases "rb_size q + length m \<le> rb_bound q")
       (auto simp: list_put_def prod_eq_iff)
next
  case (4 q n)
  then show ?case
    using rb_pop_empty [of q n] rb_pop_some [of q n]
    by (cases "n \<le> rb_size q") (auto simp: rb_bound_def)
next
  case (5 q n)
  then show ?case
    using rb_pop_empty [of q n] rb_pop_some [of q n]
    by (cases "n \<le> rb_size q") (auto simp: list_get_def prod_eq_iff)
next
  case (6 q d)
  then show ?case by (simp add: rb_discard_refines rb_bound_def)
next
  case (7 q d)
  then show ?case by (simp add: rb_discard_refines)
qed

section \<open>Properties\<close>

text \<open>
  C1. First in, first out: over any sequence of \<open>push\<close> and \<open>pop\<close> calls (refused ones
  included), what was in the ring followed by the accepted bytes is what came out followed by
  what is still in the ring.
\<close>

theorem ring_fifo:
  assumes "rb_inv q" "\<forall>op\<in>set ops. \<not> is_discard op"
    and "fifo_run rb_push rb_pop rb_discard q ops = (obs, q')"
  shows "rb_contents q @ put_in id ops obs = got_out obs @ rb_contents q'"
  using ring.run_fifo [OF assms] .

definition ring_script :: "(byte list, nat, nat) fifo_op list" where
  "ring_script = [Put [1, 2], Get 2, Put [3, 4, 5], Put [6], Get 2]"

lemma ring_script_run:
  "fifo_run rb_push rb_pop rb_discard (rb_new 4) ring_script =
    ([Accepted True, Got (Some [1, 2]), Accepted True, Accepted False, Got (Some [3, 4])],
     \<lparr>m_buffer = [5, 2, 3, 4], m_capacity = 4, m_readPos = 0, m_writePos = 1\<rparr>)"
  unfolding ring_script_def by code_simp

theorem ring_fifo_witness:
  "\<exists>obs q'. fifo_run rb_push rb_pop rb_discard (rb_new 4) ring_script = (obs, q') \<and>
     rb_contents (rb_new 4) @ put_in id ring_script obs = got_out obs @ rb_contents q' \<and>
     got_out obs = [1, 2, 3, 4]"
proof (intro exI conjI)
  show "rb_contents (rb_new 4) @ put_in id ring_script
      [Accepted True, Got (Some [1, 2]), Accepted True, Accepted False, Got (Some [3, 4])] =
    got_out [Accepted True, Got (Some [1, 2]), Accepted True, Accepted False, Got (Some [3, 4])] @
      rb_contents \<lparr>m_buffer = [5, 2, 3, 4], m_capacity = 4, m_readPos = 0, m_writePos = 1\<rparr>"
    by (rule ring_fifo [OF _ _ ring_script_run]) (simp_all add: rb_new_inv ring_script_def)
qed (rule ring_script_run, simp)

text \<open>
  C2. The ring implements a list bounded by its capacity less one, for every sequence of
  \<open>push\<close>, \<open>pop\<close> and \<open>discard\<close> calls: the same answers, and a state that stands for the same
  list. In particular \<open>push\<close> is refused exactly when the bytes do not fit, \<open>pop\<close> exactly
  when fewer bytes are queued than asked for, and neither then changes the contents.
\<close>

theorem ring_refines_list:
  assumes "rb_inv q"
  shows "map_prod id rb_contents (fifo_run rb_push rb_pop rb_discard q ops) =
     fifo_run (list_put (rb_bound q) (\<lambda>_. True) id) (list_get id) (\<lambda>xs n. drop n xs)
       (rb_contents q) ops"
  using ring.run_refines [OF assms, of ops] by simp

theorem ring_refines_list_witness:
  "map_prod id rb_contents (fifo_run rb_push rb_pop rb_discard (rb_new 4)
     [Put [1, 2], Discard 1, Put [3, 4, 5], Get 1]) =
   ([Accepted True, Done, Accepted False, Got (Some [2])], [])"
proof -
  have "map_prod id rb_contents (fifo_run rb_push rb_pop rb_discard (rb_new 4)
     [Put [1, 2], Discard 1, Put [3, 4, 5], Get 1]) =
    fifo_run (list_put (rb_bound (rb_new 4)) (\<lambda>_. True) id) (list_get id) (\<lambda>xs n. drop n xs)
       (rb_contents (rb_new 4)) [Put [1, 2], Discard 1, Put [3, 4, 5], Get 1]"
    by (rule ring_refines_list) (simp add: rb_new_inv)
  then show ?thesis by (simp add: rb_bound_def rb_new_def [of 4] list_put_def list_get_def
    rb_contents_def rb_size_def availableRead_def)
qed

end
