(* ===== verification/Ring_Concurrency.thy ===== *)
theory Ring_Concurrency
  imports Ring_Buffer
begin

text \<open>
  \<open>SPSCRingBuffer\<close> of \<open>src/ring_buffer.h\<close> with its two threads running at once. Each
  \<open>push\<close> and \<open>pop\<close> is split at the points where the other thread can be seen: the loads
  of the two positions with the space test, every single byte of the \<open>memcpy\<close>, and the
  releasing store of the own position. One step of \<open>spsc_step\<close> is one of these, by
  either thread, in any order. The acquire and release orders of the code make the
  interleaving of these steps the behaviour of the program as long as no cell is written
  while it is read, which is \<open>no_cell_race\<close> below.

  The last section adds what the bridge thread of \<open>main.cpp\<close> does beside pushing: it
  calls \<open>reset\<close>, which stores the consumer's position too.
\<close>

section \<open>Threads and steps\<close>

datatype producer = PIdle | PCopy (start: nat) (data: "byte list") (copied: nat)

datatype consumer = CIdle | CCopy (start: nat) (wanted: nat) (acc: "byte list")

record rb_sys =
  ring :: spsc_ring
  pthread :: producer
  cthread :: consumer
  sent :: "byte list"
  got :: "byte list"

definition sys_init :: "nat \<Rightarrow> rb_sys" where
  "sys_init n = \<lparr>ring = rb_new n, pthread = PIdle, cthread = CIdle, sent = [], got = []\<rparr>"

definition put_cell :: "spsc_ring \<Rightarrow> nat \<Rightarrow> byte \<Rightarrow> spsc_ring" where
  "put_cell q i v = q\<lparr>m_buffer := (m_buffer q)[i mod m_capacity q := v]\<rparr>"

inductive spsc_step :: "rb_sys \<Rightarrow> rb_sys \<Rightarrow> bool" where
  push_begin: "pthread s = PIdle \<Longrightarrow>
     length d \<le> availableWrite (ring s) (m_writePos (ring s)) (m_readPos (ring s)) \<Longrightarrow>
     spsc_step s (s\<lparr>pthread := PCopy (m_writePos (ring s)) d 0\<rparr>)"
| push_byte: "pthread s = PCopy w d k \<Longrightarrow> k < length d \<Longrightarrow>
     spsc_step s (s\<lparr>ring := put_cell (ring s) (w + k) (d ! k), pthread := PCopy w d (Suc k)\<rparr>)"
| push_end: "pthread s = PCopy w d (length d) \<Longrightarrow>
     spsc_step s (s\<lparr>ring := (ring s)\<lparr>m_writePos := (w + length d) mod m_capacity (ring s)\<rparr>,
                    pthread := PIdle, sent := sent s @ d\<rparr>)"
| pop_begin: "cthread s = CIdle \<Longrightarrow>
     n \<le> availableRead (ring s) (m_readPos (ring s)) (m_writePos (ring s)) \<Longrightarrow>
     spsc_step s (s\<lparr>cthread := CCopy (m_readPos (ring s)) n []\<rparr>)"
| pop_byte: "cthread s = CCopy r n a \<Longrightarrow> length a < n \<Longrightarrow>
     spsc_step s (s\<lparr>cthread := CCopy r n
       (a @ [m_buffer (ring s) ! ((r + length a) mod m_capacity (ring s))])\<rparr>)"
| pop_end: "cthread s = CCopy r n a \<Longrightarrow> length a = n \<Longrightarrow>
     spsc_step s (s\<lparr>ring := (ring s)\<lparr>m_readPos := (r + n) mod m_capacity (ring s)\<rparr>,
                    cthread := CIdle, got := got s @ a\<rparr>)"

inductive spsc_reach :: "nat \<Rightarrow> rb_sys \<Rightarrow> bool" for n where
  reach_init: "spsc_reach n (sys_init n)"
| reach_step: "spsc_reach n s \<Longrightarrow> spsc_step s t \<Longrightarrow> spsc_reach n t"

section \<open>The invariant\<close>

fun producer_ok :: "spsc_ring \<Rightarrow> producer \<Rightarrow> bool" where
  "producer_ok q PIdle = True"
| "producer_ok q (PCopy w d k) =
     (w = m_writePos q \<and> k \<le> length d \<and> rb_size q + length d < m_capacity q \<and>
      (\<forall>j<k. m_buffer q ! ((w + j) mod m_capacity q) = d ! j))"

fun consumer_ok :: "spsc_ring \<Rightarrow> consumer \<Rightarrow> bool" where
  "consumer_ok q CIdle = True"
| "consumer_ok q (CCopy r n a) =
     (r = m_readPos q \<and> n \<le> rb_size q \<and> length a \<le> n \<and> a = take (length a) (rb_contents q))"

definition sys_inv :: "rb_sys \<Rightarrow> bool" where
  "sys_inv s \<longleftrightarrow> rb_inv (ring s) \<and> sent s = got s @ rb_contents (ring s) \<and>
     producer_ok (ring s) (pthread s) \<and> consumer_ok (ring s) (cthread s)"

lemma sys_inv_init: "0 < n \<Longrightarrow> sys_inv (sys_init n)"
  by (simp add: sys_inv_def sys_init_def inv_intros)

text \<open>A byte written ahead of the published write position is invisible to the consumer.\<close>

lemma put_cell_ahead:
  assumes "rb_inv q" "rb_size q + k < m_capacity q"
  shows "rb_contents (put_cell q (m_writePos q + k) v) = rb_contents q"
    and "rb_size (put_cell q (m_writePos q + k) v) = rb_size q"
    and "rb_inv (put_cell q (m_writePos q + k) v)"
proof -
  let ?c = "m_capacity q"
  have b: "length (m_buffer q) = ?c" "m_readPos q < ?c" "m_writePos q < ?c"
    using assms by (auto simp: rb_inv_def)
  have w: "(m_readPos q + rb_size q) mod ?c = m_writePos q"
    using b by (simp add: rb_size_def availableRead_ring_dist ring_pos_ahead)
  have "((m_readPos q + rb_size q) mod ?c + k) mod ?c = (m_readPos q + (rb_size q + k)) mod ?c"
    by (simp add: mod_add_left_eq add.assoc)
  then have eq: "put_cell q (m_writePos q + k) v =
      q\<lparr>m_buffer := (m_buffer q)[(m_readPos q + (rb_size q + k)) mod length (m_buffer q) := v]\<rparr>"
    unfolding put_cell_def w b(1) by simp
  have "ring_seg ((m_buffer q)[(m_readPos q + (rb_size q + k)) mod length (m_buffer q) := v])
      (m_readPos q) (rb_size q) = ring_seg (m_buffer q) (m_readPos q) (rb_size q)"
    using assms b by (subst ring_seg_update) auto
  then show "rb_contents (put_cell q (m_writePos q + k) v) = rb_contents q"
    unfolding eq by (simp add: rb_contents_def)
  show "rb_size (put_cell q (m_writePos q + k) v) = rb_size q"
    by (simp add: put_cell_def)
  show "rb_inv (put_cell q (m_writePos q + k) v)"
    using b by (simp add: put_cell_def rb_inv_def)
qed

lemma put_cell_fields [simp]:
  "m_writePos (put_cell q i v) = m_writePos q"
  "m_readPos (put_cell q i v) = m_readPos q"
  "m_capacity (put_cell q i v) = m_capacity q"
  by (simp_all add: put_cell_def)

lemma push_byte_ok:
  assumes "rb_inv q" "producer_ok q (PCopy w d k)" "k < length d"
  shows "producer_ok (put_cell q (w + k) (d ! k)) (PCopy w d (Suc k))"
proof -
  let ?c = "m_capacity q"
  have b: "length (m_buffer q) = ?c" "0 < ?c" using assms by (auto simp: rb_inv_def)
  have p: "w = m_writePos q" "rb_size q + length d < ?c"
    "\<forall>j<k. m_buffer q ! ((w + j) mod ?c) = d ! j" using assms by auto
  have "m_buffer (put_cell q (w + k) (d ! k)) ! ((w + j) mod ?c) = d ! j" if "j < Suc k" for j
  proof (cases "j = k")
    case True
    then show ?thesis using b by (simp add: put_cell_def)
  next
    case False
    then have "(w + k) mod ?c \<noteq> (w + j) mod ?c"
      using ring_offset_inj [of w k ?c j] that p assms(3) by auto
    then show ?thesis using p False that by (simp add: put_cell_def)
  qed
  then show ?thesis
    using put_cell_ahead(2) [of q k "d ! k"] assms p by simp
qed

text \<open>Publishing the write position appends the copied bytes to the contents.\<close>

lemma push_end_contents:
  assumes "rb_inv q" "producer_ok q (PCopy w d (length d))"
  shows "rb_contents (q\<lparr>m_writePos := (w + length d) mod m_capacity q\<rparr>) = rb_contents q @ d"
    and "rb_size (q\<lparr>m_writePos := (w + length d) mod m_capacity q\<rparr>) = rb_size q + length d"
proof -
  let ?c = "m_capacity q" and ?q' = "q\<lparr>m_writePos := (w + length d) mod m_capacity q\<rparr>"
  have b: "length (m_buffer q) = ?c" "m_readPos q < ?c" "m_writePos q < ?c"
    using assms by (auto simp: rb_inv_def)
  have p: "w = m_writePos q" "rb_size q + length d < ?c"
    "\<forall>j<length d. m_buffer q ! ((w + j) mod ?c) = d ! j" using assms by auto
  have w: "(m_readPos q + rb_size q) mod ?c = w"
    using b p by (simp add: rb_size_def availableRead_ring_dist ring_pos_ahead)
  show size': "rb_size ?q' = rb_size q + length d"
    using b p by (simp add: rb_size_def availableRead_ring_dist ring_dist_add_w)
  have "ring_seg (m_buffer q) w (length d) = d"
    using b p by (intro nth_equalityI) (auto simp: nth_ring_seg)
  then show "rb_contents ?q' = rb_contents q @ d"
    using size' w b by (simp add: rb_contents_def ring_seg_append)
qed

lemma pop_end_contents:
  assumes "rb_inv q" "n \<le> rb_size q"
  shows "rb_contents (q\<lparr>m_readPos := (m_readPos q + n) mod m_capacity q\<rparr>) = drop n (rb_contents q)"
    and "rb_size (q\<lparr>m_readPos := (m_readPos q + n) mod m_capacity q\<rparr>) = rb_size q - n"
proof -
  have pop: "snd (rb_pop q n) = q\<lparr>m_readPos := (m_readPos q + n) mod m_capacity q\<rparr>"
    using assms(2) by (simp add: rb_pop_def rb_size_def Let_def)
  then show c: "rb_contents (q\<lparr>m_readPos := (m_readPos q + n) mod m_capacity q\<rparr>) =
      drop n (rb_contents q)"
    using rb_pop_some(3) [OF assms] by simp
  show "rb_size (q\<lparr>m_readPos := (m_readPos q + n) mod m_capacity q\<rparr>) = rb_size q - n"
    using arg_cong [OF c, of length] by simp
qed

lemma pop_byte_acc:
  assumes "rb_inv q" "consumer_ok q (CCopy r n a)" "length a < n"
  shows "consumer_ok q (CCopy r n (a @ [m_buffer q ! ((r + length a) mod m_capacity q)]))"
proof -
  have "length a < length (rb_contents q)" using assms by simp
  moreover have "rb_contents q ! length a = m_buffer q ! ((r + length a) mod m_capacity q)"
    using assms by (simp add: rb_contents_def nth_ring_seg rb_inv_def)
  moreover have "a = take (length a) (rb_contents q)" using assms by simp
  ultimately show ?thesis
    using assms by (simp add: take_Suc_conv_app_nth)
qed

lemma spsc_step_inv [inv_intros]:
  assumes "spsc_step s t" "sys_inv s"
  shows "sys_inv t"
  using assms
proof (induction rule: spsc_step.induct)
  case (push_begin s d)
  then show ?case
    using rb_size_less [of "ring s"]
    by (cases "rb_size (ring s) = m_capacity (ring s) - 1")
       (auto simp: sys_inv_def availableWrite_def rb_size_def rb_inv_def)
next
  case (push_byte s w d k)
  then have "rb_inv (ring s)" "producer_ok (ring s) (PCopy w d k)" by (auto simp: sys_inv_def)
  moreover from this have "w = m_writePos (ring s)" "rb_size (ring s) + k < m_capacity (ring s)"
    using push_byte.hyps by auto
  ultimately show ?case
    using push_byte push_byte_ok [of "ring s" w d k] put_cell_ahead [of "ring s" k "d ! k"]
    by (cases "cthread s") (auto simp: sys_inv_def)
next
  case (push_end s w d)
  then have "rb_inv (ring s)" "producer_ok (ring s) (PCopy w d (length d))"
    by (auto simp: sys_inv_def)
  then show ?case
    using push_end push_end_contents [of "ring s" w d]
    by (cases "cthread s") (auto simp: sys_inv_def rb_inv_def)
next
  case (pop_begin s n)
  then show ?case by (auto simp: sys_inv_def rb_size_def)
next
  case (pop_byte s r n a)
  then show ?case
    using pop_byte_acc [of "ring s" r n a] by (simp add: sys_inv_def del: consumer_ok.simps)
next
  case (pop_end s r n a)
  then have i: "rb_inv (ring s)" "r = m_readPos (ring s)" "n \<le> rb_size (ring s)"
    "a = take n (rb_contents (ring s))" by (auto simp: sys_inv_def)
  then show ?case
    using pop_end pop_end_contents [of "ring s" n]
    by (cases "pthread s") (auto simp: sys_inv_def rb_inv_def)
qed

lemma spsc_reach_inv: "spsc_reach n s \<Longrightarrow> 0 < n \<Longrightarrow> sys_inv s"
  by (induction rule: spsc_reach.induct) (auto intro: sys_inv_init inv_intros)

section \<open>The sequential operations are runs of the threads\<close>

lemma ring_position:
  assumes "w < c" "p < c"
  obtains i where "i < c" "(w + i) mod c = (p::nat)"
  using that [of "ring_dist c w p"] assms by (simp add: ring_dist_less ring_pos_ahead)

lemma put_cell_rb_store:
  assumes inv: "rb_inv q" and d: "length d < m_capacity q" "k < length d"
  shows "put_cell (q\<lparr>m_buffer := rb_store q (m_writePos q) (take k d)\<rparr>) (m_writePos q + k) (d ! k) =
         q\<lparr>m_buffer := rb_store q (m_writePos q) (take (Suc k) d)\<rparr>"
proof -
  let ?c = "m_capacity q" and ?w = "m_writePos q"
  have b: "length (m_buffer q) = ?c" "?w < ?c" using inv by (auto simp: rb_inv_def)
  have len: "length (rb_store q ?w (take j d)) = ?c" for j
    using rb_store_length [OF inv, of "take j d"] d by simp
  have "(rb_store q ?w (take k d))[(?w + k) mod ?c := d ! k] = rb_store q ?w (take (Suc k) d)"
  proof (rule nth_equalityI)
    fix p assume "p < length ((rb_store q ?w (take k d))[(?w + k) mod ?c := d ! k])"
    then have p: "p < ?c" using len by simp
    obtain i where i: "i < ?c" "(?w + i) mod ?c = p" by (rule ring_position [OF b(2) p])
    have "(?w + k) mod ?c = p \<longleftrightarrow> k = i"
      using i d ring_offset_inj [of ?w k ?c i] by auto
    moreover have "rb_store q ?w (take j d) ! p =
        (if i < min (length d) j then d ! i else m_buffer q ! p)" for j
      using rb_store_nth [of q ?w "take j d" i] b d i by auto
    ultimately show "(rb_store q ?w (take k d))[(?w + k) mod ?c := d ! k] ! p =
        rb_store q ?w (take (Suc k) d) ! p"
      using p len d by (auto simp: nth_list_update)
  qed (use len in simp)
  then show ?thesis by (simp add: put_cell_def)
qed

lemma push_bytes_run:
  assumes inv: "rb_inv (ring s)" and d: "length d < m_capacity (ring s)" "k \<le> length d"
  shows "spsc_step\<^sup>*\<^sup>* (s\<lparr>pthread := PCopy (m_writePos (ring s)) d 0\<rparr>)
    (s\<lparr>ring := (ring s)\<lparr>m_buffer := rb_store (ring s) (m_writePos (ring s)) (take k d)\<rparr>,
       pthread := PCopy (m_writePos (ring s)) d k\<rparr>)"
  using d(2)
proof (induction k)
  case 0
  have "(ring s)\<lparr>m_buffer := rb_store (ring s) (m_writePos (ring s)) []\<rparr> = ring s"
    using inv by (simp add: rb_store_def rb_inv_def)
  then show ?case by simp
next
  case (Suc k)
  let ?s = "\<lambda>k. s\<lparr>ring := (ring s)\<lparr>m_buffer := rb_store (ring s) (m_writePos (ring s)) (take k d)\<rparr>,
       pthread := PCopy (m_writePos (ring s)) d k\<rparr>"
  have "spsc_step (?s k) (?s (Suc k))"
    using push_byte [of "?s k" "m_writePos (ring s)" d k] Suc.prems
      put_cell_rb_store [OF inv d(1), of k] by simp
  then show ?case using Suc by (simp add: rtranclp.rtrancl_into_rtrancl)
qed

lemma push_run:
  assumes "rb_inv (ring s)" "pthread s = PIdle" "fst (rb_push (ring s) d)"
  shows "spsc_step\<^sup>*\<^sup>* s (s\<lparr>ring := snd (rb_push (ring s) d), sent := sent s @ d\<rparr>)"
proof -
  let ?q = "ring s" and ?w = "m_writePos (ring s)"
  have room: "length d \<le> availableWrite ?q ?w (m_readPos ?q)"
    using assms(3) by (auto simp: rb_push_def Let_def split: if_splits)
  then have d: "length d < m_capacity ?q"
    using assms(1) by (auto simp: availableWrite_def rb_inv_def)
  let ?t = "s\<lparr>ring := ?q\<lparr>m_buffer := rb_store ?q ?w d\<rparr>, pthread := PCopy ?w d (length d)\<rparr>"
  have "spsc_step\<^sup>*\<^sup>* s ?t"
    using push_begin [OF assms(2) room] push_bytes_run [OF assms(1) d, of "length d"]
    by (simp add: converse_rtranclp_into_rtranclp)
  moreover have "spsc_step ?t (?t\<lparr>ring := (ring ?t)\<lparr>m_writePos := (?w + length d) mod m_capacity (ring ?t)\<rparr>,
      pthread := PIdle, sent := sent ?t @ d\<rparr>)"
    by (rule push_end) simp
  moreover have "?t\<lparr>ring := (ring ?t)\<lparr>m_writePos := (?w + length d) mod m_capacity (ring ?t)\<rparr>,
      pthread := PIdle, sent := sent ?t @ d\<rparr> = s\<lparr>ring := snd (rb_push ?q d), sent := sent s @ d\<rparr>"
    using room assms(2) by (cases s) (auto simp: rb_push_def Let_def)
  ultimately show ?thesis by (metis (no_types) rtranclp.rtrancl_into_rtrancl)
qed

lemma pop_bytes_run:
  assumes "length (m_buffer (ring s)) = m_capacity (ring s)" "k \<le> n"
  shows "spsc_step\<^sup>*\<^sup>* (s\<lparr>cthread := CCopy r n []\<rparr>)
    (s\<lparr>cthread := CCopy r n (ring_seg (m_buffer (ring s)) r k)\<rparr>)"
  using assms(2)
proof (induction k)
  case (Suc k)
  let ?b = "m_buffer (ring s)" and ?s = "\<lambda>k. s\<lparr>cthread := CCopy r n (ring_seg (m_buffer (ring s)) r k)\<rparr>"
  have "ring_seg ?b r k @ [?b ! ((r + k) mod m_capacity (ring s))] = ring_seg ?b r (Suc k)"
    using assms(1) by (simp add: ring_seg_def)
  then have "spsc_step (?s k) (?s (Suc k))"
    using pop_byte [of "?s k" r n "ring_seg ?b r k"] Suc.prems by simp
  then show ?case using Suc by (simp add: rtranclp.rtrancl_into_rtrancl)
qed simp

lemma pop_run:
  assumes "rb_inv (ring s)" "cthread s = CIdle" "rb_pop (ring s) n = (Some xs, q')"
  shows "spsc_step\<^sup>*\<^sup>* s (s\<lparr>ring := q', got := got s @ xs\<rparr>)"
proof -
  let ?q = "ring s" and ?r = "m_readPos (ring s)"
  have room: "n \<le> availableRead ?q ?r (m_writePos ?q)"
    and q': "q' = ?q\<lparr>m_readPos := (?r + n) mod m_capacity ?q\<rparr>" and xs: "xs = rb_load ?q ?r n"
    using assms(3) by (auto simp: rb_pop_def Let_def split: if_splits)
  have b: "length (m_buffer ?q) = m_capacity ?q" "?r < m_capacity ?q"
    using assms(1) by (auto simp: rb_inv_def)
  have "n \<le> m_capacity ?q" using room rb_size_less [OF assms(1)] by (simp add: rb_size_def)
  then have seg: "ring_seg (m_buffer ?q) ?r n = xs" using b by (simp add: xs rb_load_ring_seg)
  let ?t = "s\<lparr>cthread := CCopy ?r n xs\<rparr>"
  have "spsc_step\<^sup>*\<^sup>* s ?t"
    using pop_begin [OF assms(2) room] pop_bytes_run [OF b(1), of n n ?r] seg
    by (simp add: converse_rtranclp_into_rtranclp)
  moreover have "spsc_step ?t (?t\<lparr>ring := (ring ?t)\<lparr>m_readPos := (?r + n) mod m_capacity (ring ?t)\<rparr>,
      cthread := CIdle, got := got ?t @ xs\<rparr>)"
    by (rule pop_end) (simp_all add: seg [symmetric])
  moreover have "?t\<lparr>ring := (ring ?t)\<lparr>m_readPos := (?r + n) mod m_capacity (ring ?t)\<rparr>,
      cthread := CIdle, got := got ?t @ xs\<rparr> = s\<lparr>ring := q', got := got s @ xs\<rparr>"
    using assms(2) by (cases s) (auto simp: q')
  ultimately show ?thesis by (metis (no_types) rtranclp.rtrancl_into_rtrancl)
qed

lemma spsc_reach_run: "spsc_step\<^sup>*\<^sup>* s t \<Longrightarrow> spsc_reach n s \<Longrightarrow> spsc_reach n t"
  by (induction rule: rtranclp_induct) (auto intro: reach_step)

text \<open>
  C5. A successful \<open>push\<close> or \<open>pop\<close> that runs alone is a run of that thread's steps: load
  and test, one step per byte, publish. So the one-step operations of the theory
  \<open>Ring_Buffer\<close> and the interleaved model describe the same code.
\<close>

theorem sequential_ops_are_runs:
  assumes "rb_inv (ring s)" "pthread s = PIdle" "cthread s = CIdle"
    and "fst (rb_push (ring s) d)" "rb_pop (ring s) n = (Some xs, q')"
  shows "spsc_step\<^sup>*\<^sup>* s (s\<lparr>ring := snd (rb_push (ring s) d), sent := sent s @ d\<rparr>) \<and>
         spsc_step\<^sup>*\<^sup>* s (s\<lparr>ring := q', got := got s @ xs\<rparr>)"
  using assms push_run pop_run by simp

lemma push_two:
  "rb_push (rb_new 4) [7, 8] =
    (True, \<lparr>m_buffer = [7, 8, 0, 0], m_capacity = 4, m_readPos = 0, m_writePos = 2\<rparr>)"
  by code_simp

lemma sys_init_run:
  "spsc_step\<^sup>*\<^sup>* (sys_init 4)
    \<lparr>ring = \<lparr>m_buffer = [7, 8, 0, 0], m_capacity = 4, m_readPos = 0, m_writePos = 2\<rparr>,
     pthread = PIdle, cthread = CIdle, sent = [7, 8], got = []\<rparr>"
proof -
  let ?s = "sys_init 4"
  have "spsc_step\<^sup>*\<^sup>* ?s (?s\<lparr>ring := snd (rb_push (ring ?s) [7, 8]), sent := sent ?s @ [7, 8]\<rparr>)"
    by (rule push_run) (simp_all add: sys_init_def push_two rb_new_inv)
  then show ?thesis by (simp add: sys_init_def push_two)
qed

lemma sys_init_pushed:
  "spsc_reach 4 \<lparr>ring = \<lparr>m_buffer = [7, 8, 0, 0], m_capacity = 4, m_readPos = 0, m_writePos = 2\<rparr>,
     pthread = PIdle, cthread = CIdle, sent = [7, 8], got = []\<rparr>"
  by (rule spsc_reach_run [OF sys_init_run reach_init])

theorem sequential_ops_are_runs_witness:
  "\<exists>s t. spsc_step\<^sup>*\<^sup>* s t \<and> got t = [7] \<and> sent s = [7, 8] \<and> got s = []"
proof -
  let ?q = "\<lparr>m_buffer = [7, 8, 0, 0], m_capacity = 4, m_readPos = 0, m_writePos = 2\<rparr>"
  let ?s = "\<lparr>ring = ?q, pthread = PIdle, cthread = CIdle, sent = [7, 8], got = []\<rparr>"
  have "rb_pop ?q 1 = (Some [7], ?q\<lparr>m_readPos := 1\<rparr>)"
    by (simp add: rb_pop_def availableRead_def rb_load_def)
  then have "spsc_step\<^sup>*\<^sup>* ?s (?s\<lparr>ring := ?q\<lparr>m_readPos := 1\<rparr>, got := [7]\<rparr>)"
    using sequential_ops_are_runs [of ?s "[9]" 1 "[7]" "?q\<lparr>m_readPos := 1\<rparr>"]
    by (simp add: rb_inv_def rb_push_def availableWrite_def availableRead_def)
  then show ?thesis by (intro exI conjI) auto
qed

section \<open>What the threads guarantee\<close>

text \<open>
  C3. At every moment of every interleaving of one producer and one consumer, the bytes
  handed to the consumer so far, followed by the bytes that are in the ring, are exactly the
  bytes whose \<open>push\<close> has completed: nothing is lost, repeated, reordered or torn.
\<close>

theorem spsc_linearizable:
  assumes "0 < n" "spsc_reach n s"
  shows "sent s = got s @ rb_contents (ring s)"
  using spsc_reach_inv [OF assms(2,1)] by (simp add: sys_inv_def)

theorem spsc_linearizable_witness:
  "\<exists>s. spsc_reach 4 s \<and> sent s = [7, 8] \<and> sent s = got s @ rb_contents (ring s)"
  using spsc_linearizable [OF _ sys_init_pushed] sys_init_pushed by auto

text \<open>
  C4. The two threads never touch the same cell at the same time: the cell the producer is
  about to write is none of the cells the consumer still has to read. This is what the
  acquire and release orders of the code need to make plain \<open>memcpy\<close> accesses race-free.
\<close>

theorem no_cell_race:
  assumes "0 < n" "spsc_reach n s"
    and "pthread s = PCopy w d k" "k < length d"
    and "cthread s = CCopy r m a" "length a \<le> j" "j < m"
  shows "(w + k) mod m_capacity (ring s) \<noteq> (r + j) mod m_capacity (ring s)"
proof
  let ?q = "ring s"
  assume eq: "(w + k) mod m_capacity ?q = (r + j) mod m_capacity ?q"
  have inv: "rb_inv ?q" "producer_ok ?q (PCopy w d k)" "consumer_ok ?q (CCopy r m a)"
    using spsc_reach_inv [OF assms(2,1)] assms(3,5) by (auto simp: sys_inv_def)
  then have p: "w = m_writePos ?q" "r = m_readPos ?q" "rb_size ?q + length d < m_capacity ?q"
    "m \<le> rb_size ?q" by auto
  have "(r + rb_size ?q) mod m_capacity ?q = w"
    using inv(1) p by (simp add: rb_inv_def rb_size_def availableRead_ring_dist ring_pos_ahead)
  then have "(r + (rb_size ?q + k)) mod m_capacity ?q = (r + j) mod m_capacity ?q"
    using eq by (metis add.assoc mod_add_left_eq)
  then have "rb_size ?q + k = j"
    using ring_offset_inj [of r "rb_size ?q + k" "m_capacity ?q" j] p assms(4,7) by simp
  then show False using p assms(7) by simp
qed

lemma both_copying:
  "spsc_reach 4 \<lparr>ring = \<lparr>m_buffer = [7, 8, 0, 0], m_capacity = 4, m_readPos = 0, m_writePos = 2\<rparr>,
     pthread = PCopy 2 [9] 0, cthread = CCopy 0 2 [], sent = [7, 8], got = []\<rparr>"
proof -
  let ?q = "\<lparr>m_buffer = [7, 8, 0, 0], m_capacity = 4, m_readPos = 0, m_writePos = 2\<rparr>"
  let ?s = "\<lparr>ring = ?q, pthread = PIdle, cthread = CIdle, sent = [7, 8], got = []\<rparr>"
  let ?t = "\<lparr>ring = ?q, pthread = PCopy 2 [9] 0, cthread = CIdle, sent = [7, 8], got = []\<rparr>"
  have "spsc_step ?s ?t"
    using push_begin [of ?s "[9]"] by (simp add: availableWrite_def availableRead_def)
  moreover have "spsc_step ?t (?t\<lparr>cthread := CCopy 0 2 []\<rparr>)"
    using pop_begin [of ?t 2] by (simp add: availableRead_def)
  ultimately show ?thesis
    using reach_step [OF reach_step [OF sys_init_pushed]] by simp
qed

theorem no_cell_race_witness:
  "\<exists>s. spsc_reach 4 s \<and> pthread s = PCopy 2 [9] 0 \<and> cthread s = CCopy 0 2 [] \<and>
     (2 + 0) mod m_capacity (ring s) \<noteq> (0 + 1) mod m_capacity (ring s)"
  using no_cell_race [OF _ both_copying, of 2 "[9]" 0 0 2 "[]" 1] both_copying by auto

section \<open>What the bridge thread adds\<close>

text \<open>
  \<open>main.cpp\<close>: in the idle branch the bridge thread, which is the producer, calls \<open>reset\<close>
  after every 50 discarded blocks, and before a push it pops blocks itself when more than
  three are queued. Both store \<open>m_readPos\<close>, which belongs to the render thread.
\<close>

inductive bridge_step :: "rb_sys \<Rightarrow> rb_sys \<Rightarrow> bool" where
  bridge_spsc: "spsc_step s t \<Longrightarrow> bridge_step s t"
| bridge_reset: "pthread s = PIdle \<Longrightarrow> bridge_step s (s\<lparr>ring := rb_reset (ring s)\<rparr>)"
| bridge_drop: "pthread s = PIdle \<Longrightarrow> rb_pop (ring s) n = (Some xs, q') \<Longrightarrow>
    bridge_step s (s\<lparr>ring := q'\<rparr>)"

lemma bridge_run_of_spsc: "spsc_step\<^sup>*\<^sup>* s t \<Longrightarrow> bridge_step\<^sup>*\<^sup>* s t"
  by (induction rule: rtranclp_induct) (auto intro: bridge_spsc rtranclp.rtrancl_into_rtrancl)

lemma pop_stale:
  assumes "ring s = \<lparr>m_buffer = [7, 8, 0, 0], m_capacity = 4, m_readPos = 1, m_writePos = 0\<rparr>"
    and "cthread s = CIdle"
  shows "\<exists>q. spsc_step\<^sup>*\<^sup>* s (s\<lparr>ring := q, got := got s @ [8, 0, 0]\<rparr>)"
proof -
  have "rb_pop \<lparr>m_buffer = [7, 8, 0, 0], m_capacity = 4, m_readPos = 1, m_writePos = 0\<rparr> 3 =
    (Some [8, 0, 0], \<lparr>m_buffer = [7, 8, 0, 0], m_capacity = 4, m_readPos = 0, m_writePos = 0\<rparr>)"
    by code_simp
  then have "rb_pop (ring s) 3 = (Some [8, 0, 0],
      \<lparr>m_buffer = [7, 8, 0, 0], m_capacity = 4, m_readPos = 0, m_writePos = 0\<rparr>)"
    using assms(1) by (simp only:)
  moreover have "rb_inv (ring s)" unfolding assms(1) by (simp add: rb_inv_def)
  ultimately show ?thesis using pop_run [OF _ assms(2)] by blast
qed

text \<open>
  C6. The single-consumer contract is needed, and \<open>reset\<close> by the producer breaks it: there
  is a run in which \<open>reset\<close> falls between the load and the store of the read position in one
  \<open>pop\<close>, after which the render thread is handed more bytes than were ever pushed (stale
  cells of the array, played as audio).
\<close>

theorem reset_during_pop_replays:
  "\<exists>s. bridge_step\<^sup>*\<^sup>* (sys_init 4) s \<and> sent s = [7, 8] \<and> got s = [7, 8, 0, 0]"
proof -
  let ?q = "\<lparr>m_buffer = [7, 8, 0, 0], m_capacity = 4, m_readPos = 0, m_writePos = 2\<rparr>"
  let ?u = "\<lparr>ring = ?q, pthread = PIdle, cthread = CIdle, sent = [7, 8], got = []\<rparr>"
  let ?v = "?u\<lparr>cthread := CCopy 0 1 []\<rparr>" and ?w = "?u\<lparr>cthread := CCopy 0 1 [7]\<rparr>"
  let ?x = "?w\<lparr>ring := ?q\<lparr>m_writePos := 0\<rparr>\<rparr>"
  let ?y = "?u\<lparr>ring := ?q\<lparr>m_readPos := 1, m_writePos := 0\<rparr>, got := [7]\<rparr>"
  have "bridge_step\<^sup>*\<^sup>* (sys_init 4) ?u"
    by (rule bridge_run_of_spsc [OF sys_init_run])
  also have "bridge_step ?u ?v"
    using bridge_spsc [OF pop_begin [of ?u 1]] by (simp add: availableRead_def)
  also have "bridge_step ?v ?w"
    using bridge_spsc [OF pop_byte [of ?v 0 1 "[]"]] by simp
  also have "bridge_step ?w ?x"
    using bridge_reset [of ?w] by (simp add: rb_reset_def)
  also have "bridge_step ?x ?y"
    using bridge_spsc [OF pop_end [of ?x 0 1 "[7]"]] by simp
  finally have run: "bridge_step\<^sup>*\<^sup>* (sys_init 4) ?y" .
  obtain q where "spsc_step\<^sup>*\<^sup>* ?y (?y\<lparr>ring := q, got := got ?y @ [8, 0, 0]\<rparr>)"
    using pop_stale [of ?y] by auto
  then have "bridge_step\<^sup>*\<^sup>* (sys_init 4) (?y\<lparr>ring := q, got := got ?y @ [8, 0, 0]\<rparr>)"
    using run by (blast intro: bridge_run_of_spsc rtranclp_trans)
  then show ?thesis by (intro exI conjI) (assumption, simp_all)
qed

end
