(* ===== verification/Tagged_Block_Queue.thy ===== *)
theory Tagged_Block_Queue
  imports Bounded_Fifo
begin

text \<open>
  \<open>src/dsp/tagged_block_queue.h\<close>: \<open>TaggedBlockQueue<Capacity>\<close>, the ring of audio blocks
  between the render thread and the DPDFNet worker. \<open>m_blocks\<close> is the array, so
  \<open>Capacity\<close> is its length. The sample type is a parameter: the queue only copies samples.
\<close>

section \<open>State and operations\<close>

definition DPDFNET_BLOCK_SAMPLES :: nat where
  "DPDFNET_BLOCK_SAMPLES = 480"

record 'a block =
  epoch :: u64
  samples :: "'a list"

record 'a block_queue =
  m_blocks :: "'a block list"
  m_read :: nat
  m_write :: nat

definition tq_new :: "nat \<Rightarrow> 'a::zero block_queue" where
  "tq_new Capacity =
     \<lparr>m_blocks = replicate Capacity \<lparr>epoch = 0, samples = replicate DPDFNET_BLOCK_SAMPLES 0\<rparr>,
      m_read = 0, m_write = 0\<rparr>"

definition tq_push :: "'a block_queue \<Rightarrow> u64 \<times> 'a list \<Rightarrow> bool \<times> 'a block_queue" where
  "tq_push q = (\<lambda>(ep, smp).
     if length smp < DPDFNET_BLOCK_SAMPLES then (False, q)
     else let w = m_write q; next = (w + 1) mod length (m_blocks q)
          in if next = m_read q then (False, q)
             else (True, q\<lparr>m_blocks := (m_blocks q)[w := \<lparr>epoch = ep,
                              samples = take DPDFNET_BLOCK_SAMPLES smp\<rparr>],
                           m_write := next\<rparr>))"

definition tq_pop :: "'a block_queue \<Rightarrow> 'a block option \<times> 'a block_queue" where
  "tq_pop q =
     (if m_read q = m_write q then (None, q)
      else (Some (m_blocks q ! m_read q),
            q\<lparr>m_read := (m_read q + 1) mod length (m_blocks q)\<rparr>))"

definition tq_discardAll :: "'a block_queue \<Rightarrow> 'a block_queue" where
  "tq_discardAll q = q\<lparr>m_read := m_write q\<rparr>"

section \<open>Invariant and contents\<close>

definition tq_inv :: "'a block_queue \<Rightarrow> bool" where
  "tq_inv q \<longleftrightarrow> m_read q < length (m_blocks q) \<and> m_write q < length (m_blocks q)"

definition tq_len :: "'a block_queue \<Rightarrow> nat" where
  "tq_len q = ring_dist (length (m_blocks q)) (m_read q) (m_write q)"

definition tq_contents :: "'a block_queue \<Rightarrow> 'a block list" where
  "tq_contents q = ring_seg (m_blocks q) (m_read q) (tq_len q)"

definition tq_bound :: "'a block_queue \<Rightarrow> nat" where
  "tq_bound q = length (m_blocks q) - 1"

definition tq_ok :: "u64 \<times> 'a list \<Rightarrow> bool" where
  "tq_ok m \<longleftrightarrow> DPDFNET_BLOCK_SAMPLES \<le> length (snd m)"

definition tq_payload :: "u64 \<times> 'a list \<Rightarrow> 'a block list" where
  "tq_payload m = [\<lparr>epoch = fst m, samples = take DPDFNET_BLOCK_SAMPLES (snd m)\<rparr>]"

definition tq_get :: "'a block_queue \<Rightarrow> unit \<Rightarrow> 'a block list option \<times> 'a block_queue" where
  "tq_get q _ = map_prod (map_option (\<lambda>b. [b])) id (tq_pop q)"

lemma tq_new_inv [inv_intros]: "0 < n \<Longrightarrow> tq_inv (tq_new n)"
  by (simp add: tq_inv_def tq_new_def)

lemma tq_new_contents [simp]: "0 < n \<Longrightarrow> tq_contents (tq_new n) = []"
  by (simp add: tq_contents_def tq_len_def tq_new_def ring_dist_same)

lemma length_tq_contents [simp]: "length (tq_contents q) = tq_len q"
  by (simp add: tq_contents_def)

lemma tq_len_less: "tq_inv q \<Longrightarrow> tq_len q < length (m_blocks q)"
  by (auto simp: tq_inv_def tq_len_def intro!: ring_dist_less)

lemma ring_dist_0_iff: "r < c \<Longrightarrow> w < c \<Longrightarrow> ring_dist c r w = 0 \<longleftrightarrow> r = w"
  by (auto simp: ring_dist_cases)

lemma tq_len_bound: "tq_inv q \<Longrightarrow> tq_len q \<le> tq_bound q"
  using tq_len_less [of q] by (simp add: tq_bound_def)

text \<open>The full test of \<open>push\<close>: the next write position would be the read position.\<close>

lemma ring_full_iff:
  assumes "r < c" "w < c"
  shows "(w + 1) mod c = r \<longleftrightarrow> ring_dist c r w + 1 = c"
proof (cases "w + 1 = c")
  case True
  then show ?thesis using assms by (auto simp: ring_dist_cases)
next
  case False
  then have "(w + 1) mod c = w + 1" using assms by simp
  moreover have "w + 1 = r \<longleftrightarrow> ring_dist c r w + 1 = c"
    using assms False by (cases "r \<le> w") (simp_all add: ring_dist_cases, linarith+)
  ultimately show ?thesis by simp
qed

lemma tq_push_refused:
  assumes "tq_inv q" "\<not> tq_ok m \<or> tq_len q = tq_bound q"
  shows "tq_push q m = (False, q)"
proof (cases "tq_ok m")
  case True
  then have "(m_write q + 1) mod length (m_blocks q) = m_read q"
    using assms ring_full_iff [of "m_read q" "length (m_blocks q)" "m_write q"]
    by (auto simp: tq_inv_def tq_bound_def tq_len_def)
  then show ?thesis by (cases m) (simp add: tq_push_def)
next
  case False
  then show ?thesis by (cases m) (simp add: tq_push_def tq_ok_def)
qed

lemma tq_push_accepted:
  assumes inv: "tq_inv q" and ok: "tq_ok m" and room: "tq_len q < tq_bound q"
  shows "fst (tq_push q m)"
    and "tq_inv (snd (tq_push q m))"
    and "tq_contents (snd (tq_push q m)) = tq_contents q @ tq_payload m"
    and "length (m_blocks (snd (tq_push q m))) = length (m_blocks q)"
proof -
  let ?c = "length (m_blocks q)" and ?r = "m_read q" and ?w = "m_write q"
  obtain b where pay: "tq_payload m = [b]" by (simp add: tq_payload_def)
  let ?q' = "q\<lparr>m_blocks := (m_blocks q)[?w := b], m_write := (?w + 1) mod ?c\<rparr>"
  have b: "?r < ?c" "?w < ?c" using inv by (auto simp: tq_inv_def)
  have c: "0 < ?c" using b by linarith
  have lt: "tq_len q + 1 < ?c" using room by (simp add: tq_bound_def)
  then have "(?w + 1) mod ?c \<noteq> ?r" using ring_full_iff b by (auto simp: tq_len_def)
  then have push: "tq_push q m = (True, ?q')"
    using ok pay by (cases m) (auto simp: tq_push_def tq_ok_def tq_payload_def Let_def)
  show "fst (tq_push q m)" "tq_inv (snd (tq_push q m))"
    "length (m_blocks (snd (tq_push q m))) = ?c"
    using b c by (simp_all add: push tq_inv_def)
  have size': "tq_len ?q' = tq_len q + 1"
    using ring_dist_add_w [OF b, of 1] lt by (simp add: tq_len_def)
  have w: "(?r + tq_len q) mod ?c = ?w" using b by (simp add: tq_len_def ring_pos_ahead)
  have "ring_seg ((m_blocks q)[(?r + tq_len q) mod ?c := b]) ?r (tq_len q) = tq_contents q"
    using lt by (subst ring_seg_update) (auto simp: tq_contents_def)
  then have old: "ring_seg ((m_blocks q)[?w := b]) ?r (tq_len q) = tq_contents q"
    by (simp only: w)
  have "tq_contents ?q' = ring_seg ((m_blocks q)[?w := b]) ?r (tq_len q + 1)"
    unfolding tq_contents_def size' by simp
  also have "\<dots> = tq_contents q @ ring_seg ((m_blocks q)[?w := b]) ?w 1"
    unfolding ring_seg_append old length_list_update w ..
  also have "ring_seg ((m_blocks q)[?w := b]) ?w 1 = [b]"
    using b by (simp add: ring_seg_def)
  finally show "tq_contents (snd (tq_push q m)) = tq_contents q @ tq_payload m"
    by (simp add: push pay)
qed

lemma tq_get_empty: "tq_inv q \<Longrightarrow> tq_len q = 0 \<Longrightarrow> tq_get q () = (None, q)"
  by (simp add: tq_get_def tq_pop_def tq_len_def tq_inv_def ring_dist_0_iff)

lemma tq_get_some:
  assumes inv: "tq_inv q" and n: "0 < tq_len q"
  shows "fst (tq_get q ()) = Some (take 1 (tq_contents q))"
    and "tq_inv (snd (tq_get q ()))"
    and "tq_contents (snd (tq_get q ())) = drop 1 (tq_contents q)"
    and "length (m_blocks (snd (tq_get q ()))) = length (m_blocks q)"
proof -
  let ?c = "length (m_blocks q)" and ?r = "m_read q" and ?w = "m_write q"
  let ?q' = "q\<lparr>m_read := (?r + 1) mod ?c\<rparr>"
  have b: "?r < ?c" "?w < ?c" using inv by (auto simp: tq_inv_def)
  have c: "0 < ?c" using b by linarith
  have "?r \<noteq> ?w" using n b by (auto simp: tq_len_def ring_dist_same)
  then have get: "tq_get q () = (Some [m_blocks q ! ?r], ?q')"
    by (simp add: tq_get_def tq_pop_def)
  have "ring_seg (m_blocks q) ?r 1 = [m_blocks q ! ?r]" using b by (simp add: ring_seg_def)
  then show "fst (tq_get q ()) = Some (take 1 (tq_contents q))"
    using n by (simp add: get tq_contents_def take_ring_seg)
  show "tq_inv (snd (tq_get q ()))" "length (m_blocks (snd (tq_get q ()))) = ?c"
    using b c by (simp_all add: get tq_inv_def)
  have "tq_len ?q' = tq_len q - 1"
    using ring_dist_add_r [OF b, of 1] n by (simp add: tq_len_def)
  then show "tq_contents (snd (tq_get q ())) = drop 1 (tq_contents q)"
    using n drop_ring_seg [of 1 "tq_len q" "m_blocks q" ?r] by (simp add: get tq_contents_def)
qed

section \<open>The queue is a bounded queue\<close>

interpretation blocks: bounded_fifo tq_inv tq_contents tq_bound tq_push tq_ok tq_payload
    tq_get "\<lambda>_. 1" "\<lambda>q (_::unit). tq_discardAll q" "\<lambda>_ _. []"
proof (unfold_locales, goal_cases)
  case (1 q)
  then show ?case using tq_len_less [of q] by (simp add: tq_bound_def)
next
  case (2 q m)
  then show ?case
    using tq_push_refused [of q m] tq_push_accepted [of q m] tq_len_bound [of q]
    by (cases "tq_ok m \<and> tq_len q < tq_bound q") (auto simp: tq_bound_def [of "snd _"] tq_bound_def [of q])
next
  case (3 q m)
  then show ?case
    using tq_push_refused [of q m] tq_push_accepted [of q m] tq_len_bound [of q]
    by (cases "tq_ok m \<and> tq_len q < tq_bound q")
       (auto simp: list_put_def prod_eq_iff tq_payload_def)
next
  case (4 q n)
  then show ?case
    using tq_get_empty [of q] tq_get_some [of q]
    by (cases "tq_len q") (auto simp: tq_bound_def)
next
  case (5 q n)
  then show ?case
    using tq_get_empty [of q] tq_get_some [of q]
    by (cases "tq_len q") (auto simp: list_get_def prod_eq_iff)
next
  case (6 q d)
  then show ?case by (simp add: tq_discardAll_def tq_inv_def tq_bound_def)
next
  case (7 q d)
  then show ?case
    by (simp add: tq_discardAll_def tq_inv_def tq_contents_def tq_len_def ring_dist_same)
qed

text \<open>
  C20. The queue of blocks is a bounded first-in first-out queue: for every sequence of \<open>push\<close>,
  \<open>pop\<close> and \<open>discardAll\<close> it answers as a list of at most \<open>Capacity - 1\<close> blocks does, a block
  carries the epoch and the first 480 samples it was pushed with, \<open>push\<close> refuses a short slice
  or a full queue, and \<open>discardAll\<close> empties it.
\<close>

theorem queue_refines_list:
  assumes "tq_inv q"
  shows "map_prod id tq_contents (fifo_run tq_push tq_get (\<lambda>q (_::unit). tq_discardAll q) q ops) =
     fifo_run (list_put (tq_bound q) tq_ok tq_payload) (list_get (\<lambda>_. 1)) (\<lambda>_ _. []) (tq_contents q) ops"
  using blocks.run_refines [OF assms, of ops] by simp

theorem queue_refines_list_witness:
  "fst (map_prod id tq_contents (fifo_run tq_push tq_get (\<lambda>q (_::unit). tq_discardAll q) (tq_new 2)
     [Put (7, replicate 480 (1::int)), Put (8, replicate 480 2), Get (), Put (8, [3]), Get ()])) =
   [Accepted True, Accepted False, Got (Some [\<lparr>epoch = 7, samples = replicate 480 1\<rparr>]), Accepted False, Got None]"
proof -
  have "map_prod id tq_contents (fifo_run tq_push tq_get (\<lambda>q (_::unit). tq_discardAll q) (tq_new 2)
     [Put (7, replicate 480 (1::int)), Put (8, replicate 480 2), Get (), Put (8, [3]), Get ()]) =
    fifo_run (list_put (tq_bound (tq_new 2 :: int block_queue)) tq_ok tq_payload) (list_get (\<lambda>_. 1)) (\<lambda>_ (_::unit). [])
      (tq_contents (tq_new 2)) [Put (7, replicate 480 (1::int)), Put (8, replicate 480 2), Get (), Put (8, [3]), Get ()]"
    by (rule queue_refines_list) (simp add: tq_new_inv)
  then show ?thesis
    by (simp add: tq_bound_def tq_new_def [of 2] list_put_def list_get_def tq_ok_def tq_payload_def
        DPDFNET_BLOCK_SAMPLES_def tq_contents_def tq_len_def ring_dist_def)
qed

end
