(* ===== verification/Mic_Session_State.thy ===== *)
theory Mic_Session_State
  imports VM_Prelude "HOL-Library.AList"
begin

text \<open>
  \<open>src/mic_session_state.h\<close>: \<open>MicSessionStateTracker\<close>, which activity each recording
  session is in and how many are active. The \<open>unordered_map\<close> is an association list with
  distinct keys (the invariant), whose order no operation shows; the counter is kept apart,
  as in the class, and that it agrees with the map is proved. Keys are a type parameter.
\<close>

datatype MicSessionActivity = Inactive | Active | Expired

record 'k tracker =
  m_states :: "('k \<times> MicSessionActivity) list"
  m_activeCount :: nat

record UpdateResult =
  inserted :: bool
  stateChanged :: bool
  activeSetChanged :: bool
  activeCount :: nat
  trackedCount :: nat

definition tracker_new :: "'k tracker" where
  "tracker_new = \<lparr>m_states = [], m_activeCount = 0\<rparr>"

definition tr_update :: "'k tracker \<Rightarrow> 'k \<Rightarrow> MicSessionActivity \<Rightarrow> UpdateResult \<times> 'k tracker" where
  "tr_update t key st =
     (let (ins, chg, aset, t') =
        (case map_of (m_states t) key of
           None \<Rightarrow>
             let t1 = t\<lparr>m_states := AList.update key st (m_states t)\<rparr>
             in if st = Active then (True, True, True, t1\<lparr>m_activeCount := m_activeCount t1 + 1\<rparr>)
                else (True, True, False, t1)
         | Some old \<Rightarrow>
             if old \<noteq> st then
               let wasActive = (old = Active); isActive = (st = Active);
                   t1 = t\<lparr>m_states := AList.update key st (m_states t)\<rparr>
               in if wasActive \<noteq> isActive then
                    (False, True, True,
                     if isActive then t1\<lparr>m_activeCount := m_activeCount t1 + 1\<rparr>
                     else if 0 < m_activeCount t1 then t1\<lparr>m_activeCount := m_activeCount t1 - 1\<rparr>
                     else t1)
                  else (False, True, False, t1)
             else (False, False, False, t))
      in (\<lparr>inserted = ins, stateChanged = chg, activeSetChanged = aset,
           activeCount = m_activeCount t', trackedCount = length (m_states t')\<rparr>, t'))"

definition tr_remove :: "'k tracker \<Rightarrow> 'k \<Rightarrow> bool \<times> 'k tracker" where
  "tr_remove t key =
     (case map_of (m_states t) key of
        None \<Rightarrow> (False, t)
      | Some st \<Rightarrow>
          let t1 = (if st = Active \<and> 0 < m_activeCount t
                    then t\<lparr>m_activeCount := m_activeCount t - 1\<rparr> else t)
          in (True, t1\<lparr>m_states := AList.delete key (m_states t1)\<rparr>))"

definition tr_contains :: "'k tracker \<Rightarrow> 'k \<Rightarrow> bool" where
  "tr_contains t key \<longleftrightarrow> map_of (m_states t) key \<noteq> None"

definition tr_activeCount :: "'k tracker \<Rightarrow> nat" where
  "tr_activeCount t = m_activeCount t"

definition tr_trackedCount :: "'k tracker \<Rightarrow> nat" where
  "tr_trackedCount t = length (m_states t)"

definition tr_clear :: "'k tracker \<Rightarrow> 'k tracker" where
  "tr_clear t = t\<lparr>m_states := [], m_activeCount := 0\<rparr>"

section \<open>The abstract view: a map, and the set of active keys\<close>

definition tr_map :: "'k tracker \<Rightarrow> 'k \<rightharpoonup> MicSessionActivity" where
  "tr_map t = map_of (m_states t)"

definition active_set :: "('k \<rightharpoonup> MicSessionActivity) \<Rightarrow> 'k set" where
  "active_set m = {k. m k = Some Active}"

definition tracker_inv :: "'k tracker \<Rightarrow> bool" where
  "tracker_inv t \<longleftrightarrow> distinct (map fst (m_states t)) \<and> m_activeCount t = card (active_set (tr_map t))"

lemma active_set_finite [simp]: "finite (active_set (tr_map t))"
  by (rule finite_subset [OF _ finite_dom_map_of [of "m_states t"]])
     (auto simp: active_set_def tr_map_def)

lemma active_set_upd:
  "active_set (m(k \<mapsto> st)) = (if st = Active then insert k (active_set m) else active_set m - {k})"
  by (auto simp: active_set_def)

lemma active_set_del: "active_set (m(k := None)) = active_set m - {k}"
  by (auto simp: active_set_def)

lemma active_set_mem: "k \<in> active_set m \<longleftrightarrow> m k = Some Active"
  by (simp add: active_set_def)

lemma tracker_new_inv [inv_intros]: "tracker_inv tracker_new"
  by (simp add: tracker_inv_def tracker_new_def tr_map_def active_set_def)

lemma tracker_new_map [simp]: "tr_map tracker_new = Map.empty"
  by (simp add: tracker_new_def tr_map_def)

lemma tr_clear_inv [inv_intros]: "tracker_inv (tr_clear t)"
  by (simp add: tracker_inv_def tr_clear_def tr_map_def active_set_def)

lemma tr_clear_map [simp]: "tr_map (tr_clear t) = Map.empty"
  by (simp add: tr_clear_def tr_map_def)

lemma tracked_card:
  "tracker_inv t \<Longrightarrow> length (m_states t) = card (dom (tr_map t))"
  by (simp add: tracker_inv_def tr_map_def dom_map_of_conv_image_fst)
     (metis distinct_card length_map set_map)

lemma tr_update_map [simp]: "tr_map (snd (tr_update t key st)) = (tr_map t)(key \<mapsto> st)"
  by (auto simp: tr_update_def tr_map_def Let_def update_conv split: option.splits)

lemma tr_update_count:
  assumes "tracker_inv t"
  shows "m_activeCount (snd (tr_update t key st)) = card (active_set ((tr_map t)(key \<mapsto> st)))"
proof -
  have n: "m_activeCount t = card (active_set (tr_map t))"
    using assms by (simp add: tracker_inv_def)
  have pos: "0 < m_activeCount t" if "tr_map t key = Some Active"
    using that by (auto simp: n card_gt_0_iff active_set_mem)
  show ?thesis
    using n pos
    by (auto simp: tr_update_def Let_def active_set_upd tr_map_def [symmetric] active_set_mem
        card_insert_if card_Diff_singleton_if split: option.splits)
qed

lemma tr_update_inv [inv_intros]: "tracker_inv t \<Longrightarrow> tracker_inv (snd (tr_update t key st))"
  unfolding tracker_inv_def [of "snd _"] tr_update_map
  by (auto simp: tr_update_count)
     (auto simp: tracker_inv_def tr_update_def Let_def distinct_update split: option.splits)

lemma tr_remove_map [simp]: "tr_map (snd (tr_remove t key)) = (tr_map t)(key := None)"
  by (auto simp: tr_remove_def tr_map_def Let_def delete_conv split: option.splits)

lemma tr_remove_inv [inv_intros]:
  assumes "tracker_inv t"
  shows "tracker_inv (snd (tr_remove t key))"
proof -
  have n: "m_activeCount t = card (active_set (tr_map t))"
    using assms by (simp add: tracker_inv_def)
  have pos: "0 < m_activeCount t" if "tr_map t key = Some Active"
    using that by (auto simp: n card_gt_0_iff active_set_mem)
  have "m_activeCount (snd (tr_remove t key)) = card (active_set ((tr_map t)(key := None)))"
    using n pos
    by (auto simp: tr_remove_def Let_def active_set_del tr_map_def [symmetric] active_set_mem
        card_Diff_singleton_if split: option.splits)
  moreover have "distinct (map fst (m_states (snd (tr_remove t key))))"
    using assms
    by (auto simp: tracker_inv_def tr_remove_def Let_def distinct_delete split: option.splits)
  ultimately show ?thesis by (simp add: tracker_inv_def)
qed

lemma tr_contains_iff: "tr_contains t key \<longleftrightarrow> key \<in> dom (tr_map t)"
  by (auto simp: tr_contains_def tr_map_def)

lemma tr_activeCount_pos: "tracker_inv t \<Longrightarrow> 0 < m_activeCount t \<longleftrightarrow> active_set (tr_map t) \<noteq> {}"
  by (simp add: tracker_inv_def card_gt_0_iff)

lemma tr_update_stateChanged:
  "stateChanged (fst (tr_update t key st)) \<longleftrightarrow> tr_map t key \<noteq> Some st"
  by (auto simp: tr_update_def tr_map_def Let_def split: option.splits)

lemma tr_update_inserted: "inserted (fst (tr_update t key st)) \<longleftrightarrow> key \<notin> dom (tr_map t)"
  by (auto simp: tr_update_def tr_map_def Let_def split: option.splits)

lemma tr_update_activeSetChanged:
  "activeSetChanged (fst (tr_update t key st)) \<longleftrightarrow> (tr_map t key = Some Active) \<noteq> (st = Active)"
  by (auto simp: tr_update_def tr_map_def Let_def split: option.splits)

lemma tr_update_counts:
  "activeCount (fst (tr_update t key st)) = m_activeCount (snd (tr_update t key st))"
  "trackedCount (fst (tr_update t key st)) = length (m_states (snd (tr_update t key st)))"
  by (simp_all add: tr_update_def Let_def split: prod.splits)

lemmas tr_update_result = tr_update_inserted tr_update_stateChanged tr_update_activeSetChanged
  tr_update_counts

lemma map_upd_changes: "m k \<noteq> Some v \<longleftrightarrow> m(k \<mapsto> v) \<noteq> m"
proof
  assume "m k \<noteq> Some v"
  then have "(m(k \<mapsto> v)) k \<noteq> m k" by simp
  then show "m(k \<mapsto> v) \<noteq> m" by (rule contrapos_nn) simp
qed (auto simp: fun_upd_idem)

lemma active_set_changes:
  "(m k = Some Active) \<noteq> (st = Active) \<longleftrightarrow> active_set (m(k \<mapsto> st)) \<noteq> active_set m"
proof (cases "st = Active")
  case True
  have "insert k (active_set m) = active_set m \<longleftrightarrow> k \<in> active_set m"
    by (metis insertI1 insert_absorb)
  then show ?thesis using True by (simp add: active_set_upd active_set_mem)
next
  case False
  have "active_set m - {k} = active_set m \<longleftrightarrow> k \<notin> active_set m" by blast
  then show ?thesis using False by (simp add: active_set_upd active_set_mem)
qed

section \<open>Properties\<close>

text \<open>
  C7. Every result \<open>update\<close> returns is true of the session map: a new key is reported as
  inserted, \<open>stateChanged\<close> says whether the map changed, \<open>activeSetChanged\<close> says whether the
  set of active sessions changed, and the two counts are the sizes of the active set and of
  the map after the call.
\<close>

theorem update_reports_the_map:
  assumes "tracker_inv t" "tr_update t key st = (r, t')"
  shows "tr_map t' = (tr_map t)(key \<mapsto> st) \<and> tracker_inv t' \<and>
    (inserted r \<longleftrightarrow> key \<notin> dom (tr_map t)) \<and>
    (stateChanged r \<longleftrightarrow> tr_map t' \<noteq> tr_map t) \<and>
    (activeSetChanged r \<longleftrightarrow> active_set (tr_map t') \<noteq> active_set (tr_map t)) \<and>
    activeCount r = card (active_set (tr_map t')) \<and> trackedCount r = card (dom (tr_map t'))"
proof -
  have eq: "r = fst (tr_update t key st)" "t' = snd (tr_update t key st)"
    using assms(2) by simp_all
  have inv: "tracker_inv t'" unfolding eq by (rule tr_update_inv [OF assms(1)])
  note map_upd_changes [of "tr_map t" key st]
  moreover note active_set_changes [of "tr_map t" key st]
  moreover have "m_activeCount t' = card (active_set (tr_map t'))"
    using inv by (simp add: tracker_inv_def)
  moreover have "length (m_states t') = card (dom (tr_map t'))" by (rule tracked_card [OF inv])
  ultimately show ?thesis
    using inv unfolding eq tr_update_result tr_update_map
    by (intro conjI) (assumption | rule refl)+
qed

theorem update_reports_the_map_witness:
  "\<exists>r t'. tr_update \<lparr>m_states = [(1::nat, Active)], m_activeCount = 1\<rparr> 1 Expired = (r, t') \<and>
     activeSetChanged r \<and> activeCount r = card (active_set (tr_map t'))"
proof (intro exI conjI)
  let ?t = "\<lparr>m_states = [(1::nat, Active)], m_activeCount = 1\<rparr>"
  have act: "active_set (tr_map ?t) = {1}" by (auto simp: active_set_def tr_map_def)
  then have inv: "tracker_inv ?t" by (simp add: tracker_inv_def)
  let ?u = "tr_update ?t 1 Expired"
  show "?u = (fst ?u, snd ?u)" by simp
  note * = update_reports_the_map [OF inv this]
  show "activeCount (fst ?u) = card (active_set (tr_map (snd ?u)))" using * by blast
  have "active_set (tr_map (snd ?u)) \<noteq> active_set (tr_map ?t)"
    unfolding tr_update_map active_set_upd act by simp
  then show "activeSetChanged (fst ?u)" using * by blast
qed

end
