(* ===== verification/Mic_Usage_Monitor.thy ===== *)
theory Mic_Usage_Monitor
  imports Mic_Session_State
begin

text \<open>
  \<open>src/mic_usage_monitor.h\<close> and \<open>.cpp\<close>: \<open>MicUsageMonitor\<close>, which decides from the states
  of the recording sessions on the virtual cable whether anybody is listening
  (\<open>g_appState.micRequested\<close>), with a grace period of 400 ms before it says no.

  Every operation is one that runs under \<open>m_sessionsMutex\<close> on the monitor thread, or a
  callback of Windows that touches the atomics of one observer; \<open>mon_step\<close> lets them come in
  any order. What Windows answers (session keys, whether a registration succeeds, the state
  of a session, the tick count) is an argument. An observer is referred to by its address,
  a number here (\<open>o_id\<close>). Ticks are \<open>nat\<close>: \<open>GetTickCount64\<close> counts milliseconds since
  boot, so adding 400 does not wrap. The log lines are left out, as are the reference
  counts of COM.
\<close>

section \<open>State\<close>

datatype AudioSessionState = AudioSessionStateInactive | AudioSessionStateActive
  | AudioSessionStateExpired | AudioSessionStateUnknown int

datatype PendingStateSource = NoSource | Register | Event | Reconcile | Disconnected

definition kDeactivateGraceMs :: nat where
  "kDeactivateGraceMs = 400"

fun toTrackerState :: "AudioSessionState \<Rightarrow> MicSessionActivity" where
  "toTrackerState AudioSessionStateActive = Active"
| "toTrackerState AudioSessionStateExpired = Expired"
| "toTrackerState _ = Inactive"

record ('s, 'k) observer =
  o_id :: nat
  o_control :: 's
  o_key :: 'k
  o_state :: AudioSessionState
  o_pendingSource :: PendingStateSource
  o_sawActive :: bool
  o_owner :: bool
  o_registered :: bool

record ('s, 'k) monitor =
  m_sessions :: "('s, 'k) observer list"
  m_sessionStates :: "'k tracker"
  m_inactiveDeadlineTick :: nat
  m_activeSessionCount :: nat
  m_trackedSessionCount :: nat
  m_reconciliationCorrections :: nat
  m_pendingSessions :: "'s list"
  m_initialized :: bool
  m_stopping :: bool
  m_wakeEvent :: "bool option"
  micRequested :: bool
  demandMode :: bool
  micOnTick :: nat
  nextObserver :: nat

text \<open>The answers of Windows during one pass.\<close>

record ('s, 'k) com_env =
  sessionKey :: "'s \<Rightarrow> 'k"
  registrationOk :: "'s \<Rightarrow> bool"
  getState :: "'s \<Rightarrow> AudioSessionState option"

section \<open>The observer\<close>

definition applyState ::
  "AudioSessionState \<Rightarrow> PendingStateSource \<Rightarrow> ('s, 'k) observer \<Rightarrow> ('s, 'k) observer \<times> bool" where
  "applyState newState source ob =
     (if o_state ob = newState then (ob, False)
      else let ob1 = ob\<lparr>o_state := newState\<rparr>;
               ob2 = (if newState = AudioSessionStateActive then ob1\<lparr>o_sawActive := True\<rparr> else ob1);
               ob3 = ob2\<lparr>o_pendingSource := source\<rparr>
           in (ob3, o_owner ob3))"

definition find_observer :: "nat \<Rightarrow> ('s, 'k) monitor \<Rightarrow> ('s, 'k) observer option" where
  "find_observer i m = find (\<lambda>ob. o_id ob = i) (m_sessions m)"

definition put_observer :: "nat \<Rightarrow> ('s, 'k) observer \<Rightarrow> ('s, 'k) monitor \<Rightarrow> ('s, 'k) monitor" where
  "put_observer i ob m = m\<lparr>m_sessions := map (\<lambda>x. if o_id x = i then ob else x) (m_sessions m)\<rparr>"

definition notifyObserverStateChanged :: "('s, 'k) monitor \<Rightarrow> ('s, 'k) monitor" where
  "notifyObserverStateChanged m = m\<lparr>m_wakeEvent := map_option (\<lambda>_. True) (m_wakeEvent m)\<rparr>"

definition applyStateTo ::
  "nat \<Rightarrow> AudioSessionState \<Rightarrow> PendingStateSource \<Rightarrow> ('s, 'k) monitor \<Rightarrow> ('s, 'k) monitor" where
  "applyStateTo i st source m =
     (case find_observer i m of
        None \<Rightarrow> m
      | Some ob \<Rightarrow>
          let (ob', notify) = applyState st source ob; m1 = put_observer i ob' m
          in if notify then notifyObserverStateChanged m1 else m1)"

definition OnStateChanged :: "nat \<Rightarrow> AudioSessionState \<Rightarrow> ('s, 'k) monitor \<Rightarrow> ('s, 'k) monitor" where
  "OnStateChanged i newState m = applyStateTo i newState Event m"

definition OnSessionDisconnected :: "nat \<Rightarrow> ('s, 'k) monitor \<Rightarrow> ('s, 'k) monitor" where
  "OnSessionDisconnected i m = applyStateTo i AudioSessionStateExpired Disconnected m"

definition refreshState ::
  "('s, 'k) com_env \<Rightarrow> nat \<Rightarrow> PendingStateSource \<Rightarrow> ('s, 'k) monitor \<Rightarrow> ('s, 'k) monitor" where
  "refreshState env i source m =
     (case find_observer i m of
        None \<Rightarrow> m
      | Some ob \<Rightarrow>
          (case getState env (o_control ob) of
             None \<Rightarrow> m
           | Some st \<Rightarrow> applyStateTo i st source m))"

section \<open>The decision\<close>

definition syncSessionMetricsLocked :: "('s, 'k) monitor \<Rightarrow> ('s, 'k) monitor" where
  "syncSessionMetricsLocked m =
     m\<lparr>m_activeSessionCount := tr_activeCount (m_sessionStates m),
       m_trackedSessionCount := tr_trackedCount (m_sessionStates m)\<rparr>"

definition setMicRequestedLocked :: "nat \<Rightarrow> bool \<Rightarrow> ('s, 'k) monitor \<Rightarrow> ('s, 'k) monitor" where
  "setMicRequestedLocked now requested m =
     (let previous = micRequested m; m1 = m\<lparr>micRequested := requested\<rparr>
      in if previous = requested then m1
         else if requested then m1\<lparr>micOnTick := now\<rparr> else m1\<lparr>micOnTick := 0\<rparr>)"

definition evaluateRequestedStateLocked :: "nat \<Rightarrow> ('s, 'k) monitor \<Rightarrow> ('s, 'k) monitor" where
  "evaluateRequestedStateLocked now m =
     (if \<not> demandMode m then
        setMicRequestedLocked now True (m\<lparr>m_inactiveDeadlineTick := 0\<rparr>)
      else if 0 < tr_activeCount (m_sessionStates m) then
        setMicRequestedLocked now True (m\<lparr>m_inactiveDeadlineTick := 0\<rparr>)
      else if \<not> micRequested m then m\<lparr>m_inactiveDeadlineTick := 0\<rparr>
      else if m_inactiveDeadlineTick m = 0 then
        m\<lparr>m_inactiveDeadlineTick := now + kDeactivateGraceMs\<rparr>
      else if m_inactiveDeadlineTick m \<le> now then
        setMicRequestedLocked now False (m\<lparr>m_inactiveDeadlineTick := 0\<rparr>)
      else m)"

text \<open>The two parts of \<open>processObserverState\<close>: the pulse, and the present state.\<close>

definition processPulse :: "nat \<Rightarrow> ('s, 'k) observer \<Rightarrow> ('s, 'k) monitor \<Rightarrow> ('s, 'k) monitor" where
  "processPulse now ob m =
     (let (pulseResult, t) = tr_update (m_sessionStates m) (o_key ob) Active;
          m1 = m\<lparr>m_sessionStates := t\<rparr>
      in if stateChanged pulseResult
         then evaluateRequestedStateLocked now (syncSessionMetricsLocked m1)
         else m1)"

definition processSettled ::
  "nat \<Rightarrow> PendingStateSource \<Rightarrow> ('s, 'k) observer \<Rightarrow> ('s, 'k) monitor \<Rightarrow> ('s, 'k) monitor" where
  "processSettled now source ob m =
     (let (result, t) = tr_update (m_sessionStates m) (o_key ob) (toTrackerState (o_state ob));
          m1 = m\<lparr>m_sessionStates := t\<rparr>
      in if \<not> stateChanged result then m1
         else
           let m2 = (if source = Reconcile
                     then m1\<lparr>m_reconciliationCorrections := m_reconciliationCorrections m1 + 1\<rparr>
                     else m1)
           in evaluateRequestedStateLocked now (syncSessionMetricsLocked m2))"

definition processObserverState :: "nat \<Rightarrow> nat \<Rightarrow> ('s, 'k) monitor \<Rightarrow> ('s, 'k) monitor" where
  "processObserverState now i m =
     (case find_observer i m of
        None \<Rightarrow> m
      | Some ob \<Rightarrow>
          let source = o_pendingSource ob; sawActive = o_sawActive ob;
              m0 = put_observer i (ob\<lparr>o_pendingSource := NoSource, o_sawActive := False\<rparr>) m
          in if source = NoSource \<and> \<not> sawActive then m0
             else if m_stopping m0 then m0
             else processSettled now source ob
                    (if sawActive \<and> o_state ob \<noteq> AudioSessionStateActive
                     then processPulse now ob m0 else m0))"

definition registerEventsOnSession ::
  "nat \<Rightarrow> ('s, 'k) com_env \<Rightarrow> 's \<Rightarrow> ('s, 'k) monitor \<Rightarrow> ('s, 'k) monitor" where
  "registerEventsOnSession now env session m =
     (if m_stopping m then m
      else
        let key = sessionKey env session; i = nextObserver m;
            ob = \<lparr>o_id = i, o_control = session, o_key = key,
                  o_state = AudioSessionStateInactive, o_pendingSource = NoSource,
                  o_sawActive = False, o_owner = True, o_registered = False\<rparr>;
            m = m\<lparr>nextObserver := i + 1\<rparr>
        in if tr_contains (m_sessionStates m) key then m
           else
             let m1 = syncSessionMetricsLocked
                   (m\<lparr>m_sessions := m_sessions m @ [ob],
                      m_sessionStates := snd (tr_update (m_sessionStates m) key Inactive)\<rparr>)
             in if registrationOk env session then
                  refreshState env i Register (put_observer i (ob\<lparr>o_registered := True\<rparr>) m1)
                else
                  evaluateRequestedStateLocked now (syncSessionMetricsLocked
                    (m1\<lparr>m_sessions := filter (\<lambda>x. o_id x \<noteq> i) (m_sessions m1),
                        m_sessionStates := snd (tr_remove (m_sessionStates m1) key)\<rparr>)))"

definition cleanupExpiredSessions :: "nat \<Rightarrow> ('s, 'k) monitor \<Rightarrow> ('s, 'k) monitor" where
  "cleanupExpiredSessions now m =
     (let expired = filter (\<lambda>ob. o_state ob = AudioSessionStateExpired) (m_sessions m)
      in evaluateRequestedStateLocked now (syncSessionMetricsLocked
           (m\<lparr>m_sessions := filter (\<lambda>ob. o_state ob \<noteq> AudioSessionStateExpired) (m_sessions m),
              m_sessionStates :=
                fold (\<lambda>ob t. snd (tr_remove t (o_key ob))) expired (m_sessionStates m)\<rparr>)))"

definition unregisterAllSessions :: "('s, 'k) monitor \<Rightarrow> ('s, 'k) monitor" where
  "unregisterAllSessions m =
     syncSessionMetricsLocked
       (m\<lparr>m_sessions := [], m_sessionStates := tr_clear (m_sessionStates m),
          m_inactiveDeadlineTick := 0\<rparr>)"

definition OnSessionCreated :: "'s option \<Rightarrow> ('s, 'k) monitor \<Rightarrow> ('s, 'k) monitor" where
  "OnSessionCreated newSession m =
     (case newSession of
        None \<Rightarrow> m
      | Some s \<Rightarrow>
          if m_stopping m then m
          else m\<lparr>m_pendingSessions := m_pendingSessions m @ [s],
                 m_wakeEvent := map_option (\<lambda>_. True) (m_wakeEvent m)\<rparr>)"

definition enumerateExistingSessions ::
  "nat \<Rightarrow> ('s, 'k) com_env \<Rightarrow> 's option list option \<Rightarrow> ('s, 'k) monitor \<Rightarrow> ('s, 'k) monitor" where
  "enumerateExistingSessions now env found m =
     (case found of
        None \<Rightarrow> m
      | Some ss \<Rightarrow> fold (\<lambda>s m. case s of None \<Rightarrow> m | Some s \<Rightarrow> registerEventsOnSession now env s m) ss m)"

definition drainPendingSessions ::
  "nat \<Rightarrow> ('s, 'k) com_env \<Rightarrow> ('s, 'k) monitor \<Rightarrow> ('s, 'k) monitor" where
  "drainPendingSessions now env m =
     (let pending = m_pendingSessions m; m1 = m\<lparr>m_pendingSessions := []\<rparr>; stopping = m_stopping m1
      in if stopping then m1 else fold (registerEventsOnSession now env) pending m1)"

definition reconcile :: "nat \<Rightarrow> ('s, 'k) com_env \<Rightarrow> ('s, 'k) monitor \<Rightarrow> ('s, 'k) monitor" where
  "reconcile now env m =
     (if \<not> m_initialized m \<or> m_stopping m then m
      else
        let m1 = drainPendingSessions now env m;
            snapshot = map o_id (m_sessions m1);
            m2 = fold (\<lambda>i m. processObserverState now i (refreshState env i Reconcile m)) snapshot m1
        in evaluateRequestedStateLocked now (cleanupExpiredSessions now m2))"

definition onDemandModeChanged :: "nat \<Rightarrow> ('s, 'k) monitor \<Rightarrow> ('s, 'k) monitor" where
  "onDemandModeChanged now m = notifyObserverStateChanged (evaluateRequestedStateLocked now m)"

definition setDemandModeRuntime :: "nat \<Rightarrow> bool \<Rightarrow> ('s, 'k) monitor \<Rightarrow> ('s, 'k) monitor" where
  "setDemandModeRuntime now enabled m = onDemandModeChanged now (m\<lparr>demandMode := enabled\<rparr>)"

section \<open>Interleaving\<close>

text \<open>
  The atomic pieces of the class, each with the tick count it reads. \<open>reconcile\<close> is a
  sequence of them, and callbacks may fall between any two.
\<close>

datatype ('s, 'k) mon_op =
    StateChanged nat AudioSessionState
  | SessionDisconnected nat
  | SessionCreated "'s option"
  | TakePending
  | RegisterSession "('s, 'k) com_env" 's
  | RefreshOne "('s, 'k) com_env" nat
  | ProcessOne nat
  | CleanupExpired
  | EvaluateNow
  | StoreDemandMode bool
  | DemandModeChanged

fun mon_step :: "nat \<Rightarrow> ('s, 'k) mon_op \<Rightarrow> ('s, 'k) monitor \<Rightarrow> ('s, 'k) monitor" where
  "mon_step now (StateChanged i st) m = OnStateChanged i st m"
| "mon_step now (SessionDisconnected i) m = OnSessionDisconnected i m"
| "mon_step now (SessionCreated s) m = OnSessionCreated s m"
| "mon_step now TakePending m = m\<lparr>m_pendingSessions := []\<rparr>"
| "mon_step now (RegisterSession env s) m = registerEventsOnSession now env s m"
| "mon_step now (RefreshOne env i) m = refreshState env i Reconcile m"
| "mon_step now (ProcessOne i) m = processObserverState now i m"
| "mon_step now CleanupExpired m = cleanupExpiredSessions now m"
| "mon_step now EvaluateNow m = evaluateRequestedStateLocked now m"
| "mon_step now (StoreDemandMode b) m = m\<lparr>demandMode := b\<rparr>"
| "mon_step now DemandModeChanged m = onDemandModeChanged now m"

definition mon_run :: "(nat \<times> ('s, 'k) mon_op) list \<Rightarrow> ('s, 'k) monitor \<Rightarrow> ('s, 'k) monitor" where
  "mon_run ops m = fold (\<lambda>(now, op). mon_step now op) ops m"

lemma mon_run_simps [simp]:
  "mon_run [] m = m"
  "mon_run ((now, op) # ops) m = mon_run ops (mon_step now op m)"
  "mon_run (ops @ ops') m = mon_run ops' (mon_run ops m)"
  by (simp_all add: mon_run_def)

lemma mon_run_fold_register:
  "fold (registerEventsOnSession now env) ss m = mon_run (map (\<lambda>s. (now, RegisterSession env s)) ss) m"
  by (induction ss arbitrary: m) simp_all

lemma mon_run_fold_process:
  "fold (\<lambda>i m. processObserverState now i (refreshState env i Reconcile m)) is m =
   mon_run (concat (map (\<lambda>i. [(now, RefreshOne env i), (now, ProcessOne i)]) is)) m"
  by (induction "is" arbitrary: m) simp_all

lemma reconcile_is_run:
  obtains ops where "reconcile now env m = mon_run ops m" "\<forall>(t, op)\<in>set ops. t = now"
proof (cases "\<not> m_initialized m \<or> m_stopping m")
  case True
  then show ?thesis using that [of "[]"] by (simp add: reconcile_def)
next
  case False
  let ?o = "(now, TakePending) # map (\<lambda>s. (now, RegisterSession env s)) (m_pendingSessions m) @
    concat (map (\<lambda>i. [(now, RefreshOne env i), (now, ProcessOne i)])
      (map o_id (m_sessions (drainPendingSessions now env m)))) @
    [(now, CleanupExpired), (now, EvaluateNow)]"
  have "reconcile now env m = mon_run ?o m"
    using False by (simp add: reconcile_def drainPendingSessions_def Let_def
      mon_run_fold_register mon_run_fold_process)
  then show ?thesis by (rule that) auto
qed

section \<open>The invariant\<close>

definition obs_ok :: "bool \<Rightarrow> 'k tracker \<Rightarrow> ('s, 'k) observer \<Rightarrow> bool" where
  "obs_ok stopping t ob \<longleftrightarrow> o_owner ob \<and>
     (\<not> stopping \<and> o_pendingSource ob = NoSource \<and> \<not> o_sawActive ob \<longrightarrow>
        tr_map t (o_key ob) = Some (toTrackerState (o_state ob)))"

definition sess_ok :: "bool \<Rightarrow> ('s, 'k) observer list \<Rightarrow> 'k tracker \<Rightarrow> nat \<Rightarrow> bool" where
  "sess_ok stopping ss t n \<longleftrightarrow> tracker_inv t \<and> distinct (map o_id ss) \<and>
     (\<forall>ob\<in>set ss. o_id ob < n \<and> obs_ok stopping t ob) \<and>
     distinct (map o_key ss) \<and> dom (tr_map t) = o_key ` set ss"

definition decided :: "('s, 'k) monitor \<Rightarrow> bool" where
  "decided m \<longleftrightarrow> (0 < tr_activeCount (m_sessionStates m) \<longrightarrow>
        micRequested m \<and> m_inactiveDeadlineTick m = 0) \<and>
     (m_inactiveDeadlineTick m \<noteq> 0 \<longrightarrow> micRequested m)"

definition mon_inv :: "('s, 'k) monitor \<Rightarrow> bool" where
  "mon_inv m \<longleftrightarrow> sess_ok (m_stopping m) (m_sessions m) (m_sessionStates m) (nextObserver m) \<and>
     m_activeSessionCount m = tr_activeCount (m_sessionStates m) \<and>
     m_trackedSessionCount m = tr_trackedCount (m_sessionStates m) \<and> decided m"

named_theorems mon_fields \<open>fields an operation of the monitor leaves alone\<close>

lemma evaluate_fields [mon_fields]:
  "m_sessions (evaluateRequestedStateLocked now m) = m_sessions m"
  "m_sessionStates (evaluateRequestedStateLocked now m) = m_sessionStates m"
  "m_activeSessionCount (evaluateRequestedStateLocked now m) = m_activeSessionCount m"
  "m_trackedSessionCount (evaluateRequestedStateLocked now m) = m_trackedSessionCount m"
  "m_pendingSessions (evaluateRequestedStateLocked now m) = m_pendingSessions m"
  "m_initialized (evaluateRequestedStateLocked now m) = m_initialized m"
  "m_stopping (evaluateRequestedStateLocked now m) = m_stopping m"
  "demandMode (evaluateRequestedStateLocked now m) = demandMode m"
  "nextObserver (evaluateRequestedStateLocked now m) = nextObserver m"
  by (simp_all add: evaluateRequestedStateLocked_def setMicRequestedLocked_def Let_def)

lemma sync_fields [mon_fields]:
  "m_sessions (syncSessionMetricsLocked m) = m_sessions m"
  "m_sessionStates (syncSessionMetricsLocked m) = m_sessionStates m"
  "m_pendingSessions (syncSessionMetricsLocked m) = m_pendingSessions m"
  "m_initialized (syncSessionMetricsLocked m) = m_initialized m"
  "m_stopping (syncSessionMetricsLocked m) = m_stopping m"
  "demandMode (syncSessionMetricsLocked m) = demandMode m"
  "micRequested (syncSessionMetricsLocked m) = micRequested m"
  "m_inactiveDeadlineTick (syncSessionMetricsLocked m) = m_inactiveDeadlineTick m"
  "nextObserver (syncSessionMetricsLocked m) = nextObserver m"
  "m_activeSessionCount (syncSessionMetricsLocked m) = tr_activeCount (m_sessionStates m)"
  "m_trackedSessionCount (syncSessionMetricsLocked m) = tr_trackedCount (m_sessionStates m)"
  by (simp_all add: syncSessionMetricsLocked_def)

lemma put_observer_fields [mon_fields]:
  "m_sessions (put_observer i ob m) = map (\<lambda>x. if o_id x = i then ob else x) (m_sessions m)"
  "m_sessionStates (put_observer i ob m) = m_sessionStates m"
  "m_activeSessionCount (put_observer i ob m) = m_activeSessionCount m"
  "m_trackedSessionCount (put_observer i ob m) = m_trackedSessionCount m"
  "m_pendingSessions (put_observer i ob m) = m_pendingSessions m"
  "m_initialized (put_observer i ob m) = m_initialized m"
  "m_stopping (put_observer i ob m) = m_stopping m"
  "demandMode (put_observer i ob m) = demandMode m"
  "micRequested (put_observer i ob m) = micRequested m"
  "m_inactiveDeadlineTick (put_observer i ob m) = m_inactiveDeadlineTick m"
  "nextObserver (put_observer i ob m) = nextObserver m"
  by (simp_all add: put_observer_def)

lemma notify_fields [mon_fields]:
  "m_sessions (notifyObserverStateChanged m) = m_sessions m"
  "m_sessionStates (notifyObserverStateChanged m) = m_sessionStates m"
  "m_activeSessionCount (notifyObserverStateChanged m) = m_activeSessionCount m"
  "m_trackedSessionCount (notifyObserverStateChanged m) = m_trackedSessionCount m"
  "m_pendingSessions (notifyObserverStateChanged m) = m_pendingSessions m"
  "m_initialized (notifyObserverStateChanged m) = m_initialized m"
  "m_stopping (notifyObserverStateChanged m) = m_stopping m"
  "demandMode (notifyObserverStateChanged m) = demandMode m"
  "micRequested (notifyObserverStateChanged m) = micRequested m"
  "m_inactiveDeadlineTick (notifyObserverStateChanged m) = m_inactiveDeadlineTick m"
  "nextObserver (notifyObserverStateChanged m) = nextObserver m"
  by (simp_all add: notifyObserverStateChanged_def)

text \<open>Whatever the state, the decision leaves the request and the deadline consistent.\<close>

lemma evaluate_decided: "decided (evaluateRequestedStateLocked now m)"
  by (auto simp: decided_def evaluateRequestedStateLocked_def setMicRequestedLocked_def Let_def)

lemma evaluate_inv [inv_intros]: "mon_inv m \<Longrightarrow> mon_inv (evaluateRequestedStateLocked now m)"
  by (simp add: mon_inv_def mon_fields evaluate_decided)

lemma decide_inv:
  "sess_ok (m_stopping m) (m_sessions m) (m_sessionStates m) (nextObserver m) \<Longrightarrow>
   mon_inv (evaluateRequestedStateLocked now (syncSessionMetricsLocked m))"
  by (simp add: mon_inv_def mon_fields evaluate_decided)

text \<open>Replacing one observer, and changing the tracker at its key.\<close>

lemma sess_ok_put:
  assumes ok: "sess_ok stp ss t n" and ob: "ob \<in> set ss" "o_id ob = i"
    and new: "o_id ob' = i" "o_key ob' = o_key ob" "obs_ok stp t' ob'"
    and t': "tracker_inv t'" "dom (tr_map t') = dom (tr_map t)"
      "\<forall>k. k \<noteq> o_key ob \<longrightarrow> tr_map t' k = tr_map t k"
  shows "sess_ok stp (map (\<lambda>x. if o_id x = i then ob' else x) ss) t' n"
proof -
  have d: "distinct (map o_id ss)" "distinct (map o_key ss)" "dom (tr_map t) = o_key ` set ss"
    and each: "\<forall>x\<in>set ss. o_id x < n \<and> obs_ok stp t x" using ok by (auto simp: sess_ok_def)
  have same: "x = ob" if "x \<in> set ss" "o_id x = i" for x
    using that ob d(1) by (metis distinct_map inj_onD)
  have key: "x = ob" if "x \<in> set ss" "o_key x = o_key ob" for x
    using that ob d(2) by (metis distinct_map inj_onD)
  define ss' where "ss' = map (\<lambda>x. if o_id x = i then ob' else x) ss"
  have ids: "map o_id ss' = map o_id ss"
    using new by (simp add: ss'_def)
  have keys: "map o_key ss' = map o_key ss"
    using new(2) same by (auto simp: ss'_def)
  have "o_id y < n \<and> obs_ok stp t' y" if y: "y \<in> set ss'" for y
  proof -
    obtain x where x: "x \<in> set ss" "y = (if o_id x = i then ob' else x)"
      using y by (auto simp: ss'_def)
    show ?thesis
    proof (cases "o_id x = i")
      case False
      then have "o_key x \<noteq> o_key ob" using key x ob by auto
      then show ?thesis using each x t'(3) False by (simp add: obs_ok_def)
    next
      case True
      then show ?thesis using new each x by auto
    qed
  qed
  moreover have "o_key ` set ss' = o_key ` set ss"
    using keys by (metis set_map)
  ultimately show ?thesis
    using t'(1,2) d ids keys unfolding sess_ok_def ss'_def [symmetric] by auto
qed

lemma find_observer_Some:
  "find_observer i m = Some ob \<Longrightarrow> ob \<in> set (m_sessions m) \<and> o_id ob = i"
  by (auto simp: find_observer_def find_Some_iff)

lemma find_observer_mem:
  assumes "distinct (map o_id (m_sessions m))" "ob \<in> set (m_sessions m)"
  shows "find_observer (o_id ob) m = Some ob"
proof -
  have "find_observer (o_id ob) m \<noteq> None"
    using assms(2) by (auto simp: find_observer_def find_None_iff)
  then show ?thesis
    using assms find_observer_Some by (metis distinct_map inj_onD not_None_eq)
qed

section \<open>Every operation keeps the invariant\<close>

lemma mon_inv_put:
  assumes "mon_inv m" "find_observer i m = Some ob" "o_id ob' = i" "o_key ob' = o_key ob"
    "obs_ok (m_stopping m) (m_sessionStates m) ob'"
  shows "mon_inv (put_observer i ob' m)"
proof -
  have "sess_ok (m_stopping m) (map (\<lambda>x. if o_id x = i then ob' else x) (m_sessions m))
      (m_sessionStates m) (nextObserver m)"
    by (rule sess_ok_put [of _ _ "m_sessionStates m" _ ob])
       (use assms find_observer_Some [OF assms(2)] in \<open>auto simp: mon_inv_def sess_ok_def\<close>)
  then show ?thesis using assms(1) by (simp add: mon_inv_def mon_fields decided_def)
qed

lemma notify_inv [inv_intros]: "mon_inv m \<Longrightarrow> mon_inv (notifyObserverStateChanged m)"
  by (simp add: mon_inv_def mon_fields decided_def)

lemma mon_inv_obs_ok:
  "mon_inv m \<Longrightarrow> find_observer i m = Some ob \<Longrightarrow> obs_ok (m_stopping m) (m_sessionStates m) ob"
  using find_observer_Some [of i m ob] by (auto simp: mon_inv_def sess_ok_def)

lemma applyState_fields [mon_fields]:
  "o_id (fst (applyState st source ob)) = o_id ob"
  "o_key (fst (applyState st source ob)) = o_key ob"
  "o_control (fst (applyState st source ob)) = o_control ob"
  "o_state (fst (applyState st source ob)) = st"
  "o_owner (fst (applyState st source ob)) = o_owner ob"
  by (auto simp: applyState_def Let_def)

lemma applyState_ok:
  "obs_ok stp t ob \<Longrightarrow> source \<noteq> NoSource \<Longrightarrow> obs_ok stp t (fst (applyState st source ob))"
  by (auto simp: applyState_def obs_ok_def Let_def)

lemma applyStateTo_inv:
  assumes "mon_inv m" "source \<noteq> NoSource"
  shows "mon_inv (applyStateTo i st source m)"
proof (cases "find_observer i m")
  case (Some ob)
  then have "mon_inv (put_observer i (fst (applyState st source ob)) m)"
    using assms mon_inv_obs_ok [OF assms(1) Some] find_observer_Some [OF Some]
    by (intro mon_inv_put [OF assms(1) Some]) (auto simp: mon_fields applyState_ok)
  then show ?thesis
    using Some by (auto simp: applyStateTo_def Let_def inv_intros split: prod.splits)
qed (use assms in \<open>simp add: applyStateTo_def\<close>)

lemma refreshState_inv:
  "mon_inv m \<Longrightarrow> source \<noteq> NoSource \<Longrightarrow> mon_inv (refreshState env i source m)"
  by (auto simp: refreshState_def applyStateTo_inv split: option.splits)

lemma tr_update_unchanged: "\<not> stateChanged (fst (tr_update t k st)) \<Longrightarrow> snd (tr_update t k st) = t"
  by (auto simp: tr_update_def Let_def split: option.splits)

lemma processPulse_cases:
  obtains
    (changed) "processPulse now ob m = evaluateRequestedStateLocked now (syncSessionMetricsLocked
       (m\<lparr>m_sessionStates := snd (tr_update (m_sessionStates m) (o_key ob) Active)\<rparr>))"
      "tr_map (m_sessionStates m) (o_key ob) \<noteq> Some Active"
  | (same) "processPulse now ob m = m" "tr_map (m_sessionStates m) (o_key ob) = Some Active"
proof (cases "stateChanged (fst (tr_update (m_sessionStates m) (o_key ob) Active))")
  case True
  then show ?thesis
    by (intro changed) (auto simp: processPulse_def Let_def case_prod_beta tr_update_stateChanged)
next
  case False
  then show ?thesis
    using tr_update_unchanged [OF False]
    by (intro same) (auto simp: processPulse_def Let_def case_prod_beta tr_update_stateChanged)
qed

lemma processSettled_cases:
  obtains
    (changed) m' where "processSettled now source ob m =
       evaluateRequestedStateLocked now (syncSessionMetricsLocked m')"
      "m' = m\<lparr>m_sessionStates := snd (tr_update (m_sessionStates m) (o_key ob)
         (toTrackerState (o_state ob))), m_reconciliationCorrections := m_reconciliationCorrections m'\<rparr>"
      "tr_map (m_sessionStates m) (o_key ob) \<noteq> Some (toTrackerState (o_state ob))"
  | (same) "processSettled now source ob m = m"
      "tr_map (m_sessionStates m) (o_key ob) = Some (toTrackerState (o_state ob))"
proof (cases "stateChanged (fst (tr_update (m_sessionStates m) (o_key ob)
    (toTrackerState (o_state ob))))")
  case True
  let ?m1 = "m\<lparr>m_sessionStates := snd (tr_update (m_sessionStates m) (o_key ob)
    (toTrackerState (o_state ob)))\<rparr>"
  show ?thesis
    by (rule changed [of "if source = Reconcile
          then ?m1\<lparr>m_reconciliationCorrections := m_reconciliationCorrections m + 1\<rparr> else ?m1"])
       (use True in \<open>auto simp: processSettled_def Let_def case_prod_beta tr_update_stateChanged\<close>)
next
  case False
  then show ?thesis
    using tr_update_unchanged [OF False]
    by (intro same) (auto simp: processSettled_def Let_def case_prod_beta tr_update_stateChanged)
qed

text \<open>What \<open>processObserverState\<close> does to the fields it has no business with.\<close>

lemma processPulse_fields [mon_fields]:
  "m_sessions (processPulse now ob m) = m_sessions m"
  "m_stopping (processPulse now ob m) = m_stopping m"
  "m_initialized (processPulse now ob m) = m_initialized m"
  "m_pendingSessions (processPulse now ob m) = m_pendingSessions m"
  "demandMode (processPulse now ob m) = demandMode m"
  "nextObserver (processPulse now ob m) = nextObserver m"
  by (cases rule: processPulse_cases [of now ob m]; simp add: mon_fields)+

lemma processSettled_fields [mon_fields]:
  "m_sessions (processSettled now source ob m) = m_sessions m"
  "m_stopping (processSettled now source ob m) = m_stopping m"
  "m_initialized (processSettled now source ob m) = m_initialized m"
  "m_pendingSessions (processSettled now source ob m) = m_pendingSessions m"
  "demandMode (processSettled now source ob m) = demandMode m"
  "nextObserver (processSettled now source ob m) = nextObserver m"
  by (simp_all add: processSettled_def Let_def mon_fields split: prod.splits)

lemma processPulse_states:
  assumes "tracker_inv (m_sessionStates m)"
  shows "tr_map (m_sessionStates (processPulse now ob m)) = (tr_map (m_sessionStates m))(o_key ob \<mapsto> Active)"
    and "tracker_inv (m_sessionStates (processPulse now ob m))"
  by (cases rule: processPulse_cases [of now ob m];
      use assms in \<open>auto simp: mon_fields inv_intros fun_upd_idem\<close>)+

lemma processSettled_states:
  assumes "tracker_inv (m_sessionStates m)"
  shows "tr_map (m_sessionStates (processSettled now source ob m)) =
      (tr_map (m_sessionStates m))(o_key ob \<mapsto> toTrackerState (o_state ob))"
    and "tracker_inv (m_sessionStates (processSettled now source ob m))"
  using assms by (auto simp: processSettled_def Let_def case_prod_beta mon_fields inv_intros)

lemma process_inv:
  assumes inv: "mon_inv m"
  shows "mon_inv (processObserverState now i m)"
proof (cases "find_observer i m")
  case None
  then show ?thesis using inv by (simp add: processObserverState_def)
next
  case (Some ob)
  let ?ob = "ob\<lparr>o_pendingSource := NoSource, o_sawActive := False\<rparr>"
  let ?m0 = "put_observer i ?ob m"
  have ok: "obs_ok (m_stopping m) (m_sessionStates m) ob" by (rule mon_inv_obs_ok [OF inv Some])
  have mem: "ob \<in> set (m_sessions m)" "o_id ob = i" using find_observer_Some [OF Some] by auto
  have sess: "sess_ok (m_stopping m) (m_sessions m) (m_sessionStates m) (nextObserver m)"
    using inv by (simp add: mon_inv_def)
  show ?thesis
  proof (cases "(o_pendingSource ob = NoSource \<and> \<not> o_sawActive ob) \<or> m_stopping m")
    case True
    then have "processObserverState now i m = ?m0"
      using Some by (auto simp: processObserverState_def Let_def mon_fields)
    moreover have "obs_ok (m_stopping m) (m_sessionStates m) ?ob"
      using ok True by (auto simp: obs_ok_def)
    ultimately show ?thesis using mon_inv_put [OF inv Some, of ?ob] mem by simp
  next
    case False
    let ?pulse = "o_sawActive ob \<and> o_state ob \<noteq> AudioSessionStateActive"
    define m1 where "m1 = (if ?pulse then processPulse now ob ?m0 else ?m0)"
    have eq: "processObserverState now i m = processSettled now (o_pendingSource ob) ob m1"
      using False Some by (auto simp: processObserverState_def Let_def mon_fields m1_def)
    have t: "tracker_inv (m_sessionStates m)" using sess by (simp add: sess_ok_def)
    have t1: "tracker_inv (m_sessionStates m1)"
        "tr_map (m_sessionStates m1) =
           (if ?pulse then (tr_map (m_sessionStates m))(o_key ob \<mapsto> Active) else tr_map (m_sessionStates m))"
      using processPulse_states [of ?m0 now ob] t by (simp_all add: m1_def mon_fields)
    have f: "m_sessions m1 = map (\<lambda>x. if o_id x = i then ?ob else x) (m_sessions m)"
      "m_stopping m1 = m_stopping m" "nextObserver m1 = nextObserver m"
      by (simp_all add: m1_def mon_fields)
    let ?m2 = "processSettled now (o_pendingSource ob) ob m1"
    have key: "o_key ob \<in> dom (tr_map (m_sessionStates m))" using sess mem by (auto simp: sess_ok_def)
    have "sess_ok (m_stopping m) (m_sessions m1) (m_sessionStates ?m2) (nextObserver m)"
      unfolding f(1)
      by (rule sess_ok_put [OF sess mem])
         (use mem ok t1 key in \<open>auto simp: obs_ok_def processSettled_states\<close>)
    then have sess': "sess_ok (m_stopping ?m2) (m_sessions ?m2) (m_sessionStates ?m2) (nextObserver ?m2)"
      by (simp add: mon_fields f)
    show ?thesis
    proof (cases rule: processSettled_cases [of now "o_pendingSource ob" ob m1])
      case (changed m')
      then show ?thesis
        using sess' unfolding eq changed(1) by (intro decide_inv) (simp add: mon_fields)
    next
      case same
      then have "\<not> ?pulse" using t1(2) by (cases "o_state ob") auto
      then have "m1 = ?m0" by (auto simp: m1_def)
      then show ?thesis
        using inv sess' unfolding eq same(1) by (simp add: mon_inv_def decided_def mon_fields)
    qed
  qed
qed

lemma sess_ok_cong:
  "sess_ok stp ss t n \<Longrightarrow> tracker_inv t' \<Longrightarrow> tr_map t' = tr_map t \<Longrightarrow> n \<le> n' \<Longrightarrow> sess_ok stp ss t' n'"
  by (auto simp: sess_ok_def obs_ok_def)

lemma sess_ok_append:
  assumes ok: "sess_ok stp ss t n" and new: "o_key ob \<notin> dom (tr_map t)" "o_id ob = n" "o_owner ob"
    "o_state ob = AudioSessionStateInactive"
  shows "sess_ok stp (ss @ [ob]) (snd (tr_update t (o_key ob) Inactive)) (n + 1)"
proof -
  have "obs_ok stp (snd (tr_update t (o_key ob) Inactive)) x" if x: "x \<in> set ss" for x
  proof -
    have "o_key x \<in> dom (tr_map t)" using ok x by (simp add: sess_ok_def)
    then have "o_key x \<noteq> o_key ob" using new(1) by metis
    then show ?thesis using ok x by (simp add: sess_ok_def obs_ok_def)
  qed
  moreover have "obs_ok stp (snd (tr_update t (o_key ob) Inactive)) ob"
    using new by (simp add: obs_ok_def)
  ultimately show ?thesis
    using ok new unfolding sess_ok_def
    by (auto simp: inv_intros less_SucI)
qed

lemma mon_active_iff:
  "mon_inv m \<Longrightarrow> 0 < tr_activeCount (m_sessionStates m) \<longleftrightarrow> active_set (tr_map (m_sessionStates m)) \<noteq> {}"
  using tr_activeCount_pos [of "m_sessionStates m"]
  by (simp add: mon_inv_def sess_ok_def tr_activeCount_def)

lemma register_inv:
  assumes inv: "mon_inv m"
  shows "mon_inv (registerEventsOnSession now env s m)"
proof -
  let ?i = "nextObserver m" and ?k = "sessionKey env s"
  let ?ob = "\<lparr>o_id = ?i, o_control = s, o_key = ?k, o_state = AudioSessionStateInactive,
    o_pendingSource = NoSource, o_sawActive = False, o_owner = True, o_registered = False\<rparr>"
  let ?t = "snd (tr_update (m_sessionStates m) ?k Inactive)"
  have sess: "sess_ok (m_stopping m) (m_sessions m) (m_sessionStates m) ?i"
    and dec: "decided m" using inv by (auto simp: mon_inv_def)
  then have t: "tracker_inv (m_sessionStates m)" by (simp add: sess_ok_def)
  consider (stop) "m_stopping m" | (old) "\<not> m_stopping m" "?k \<in> dom (tr_map (m_sessionStates m))"
    | (new) "\<not> m_stopping m" "?k \<notin> dom (tr_map (m_sessionStates m))" by blast
  then show ?thesis
  proof cases
    case stop
    then show ?thesis using inv by (simp add: registerEventsOnSession_def)
  next
    case old
    then show ?thesis
      using inv sess_ok_cong [OF sess t refl, of "Suc ?i"]
      by (simp add: registerEventsOnSession_def tr_contains_iff mon_inv_def decided_def)
  next
    case new
    have ok: "sess_ok (m_stopping m) (m_sessions m @ [?ob]) ?t (?i + 1)"
      using sess_ok_append [OF sess, of ?ob] new by simp
    let ?m1 = "syncSessionMetricsLocked (m\<lparr>nextObserver := ?i + 1, m_sessions := m_sessions m @ [?ob],
      m_sessionStates := ?t\<rparr>)"
    have "tr_activeCount ?t = tr_activeCount (m_sessionStates m)"
      using tr_update_count [OF t, of ?k Inactive] t new(2)
      by (simp add: tr_activeCount_def active_set_upd tracker_inv_def active_set_mem domIff)
    then have inv1: "mon_inv ?m1"
      using ok dec by (simp add: mon_inv_def mon_fields decided_def)
    have find: "find_observer ?i ?m1 = Some ?ob"
      using find_observer_mem [of ?m1 ?ob] inv1 by (simp add: mon_inv_def sess_ok_def mon_fields)
    show ?thesis
    proof (cases "registrationOk env s")
      case True
      have "mon_inv (put_observer ?i (?ob\<lparr>o_registered := True\<rparr>) ?m1)"
        using mon_inv_obs_ok [OF inv1 find]
        by (intro mon_inv_put [OF inv1 find]) (auto simp: obs_ok_def)
      then show ?thesis
        using new True by (simp add: registerEventsOnSession_def tr_contains_iff Let_def refreshState_inv)
    next
      case False
      have "filter (\<lambda>x. o_id x \<noteq> ?i) (m_sessions m) = m_sessions m"
        using sess by (auto simp: sess_ok_def filter_id_conv)
      moreover have "sess_ok (m_stopping m) (m_sessions m) (snd (tr_remove ?t ?k)) (?i + 1)"
        using new t by (intro sess_ok_cong [OF sess])
          (auto simp: inv_intros fun_upd_idem domIff)
      ultimately show ?thesis
        using new False
        by (simp add: registerEventsOnSession_def tr_contains_iff Let_def)
           (rule decide_inv, simp add: mon_fields)
    qed
  qed
qed

lemma fold_remove:
  assumes "tracker_inv t"
  shows "tracker_inv (fold (\<lambda>ob t. snd (tr_remove t (o_key ob))) es t)"
    and "tr_map (fold (\<lambda>ob t. snd (tr_remove t (o_key ob))) es t) =
      (\<lambda>k. if k \<in> o_key ` set es then None else tr_map t k)"
  using assms by (induction es arbitrary: t) (auto simp: inv_intros fun_eq_iff)

lemma sess_ok_filter:
  assumes ok: "sess_ok stp ss t n"
  shows "sess_ok stp (filter P ss) (fold (\<lambda>ob t. snd (tr_remove t (o_key ob))) (filter (\<lambda>x. \<not> P x) ss) t) n"
proof -
  let ?t = "fold (\<lambda>ob t. snd (tr_remove t (o_key ob))) (filter (\<lambda>x. \<not> P x) ss) t"
  have t: "tracker_inv t" and d: "distinct (map o_key ss)" using ok by (auto simp: sess_ok_def)
  have keep: "o_key x \<notin> o_key ` set (filter (\<lambda>x. \<not> P x) ss)" if "x \<in> set ss" "P x" for x
    using that d by (auto simp: distinct_map dest: inj_onD)
  have "dom (tr_map ?t) = dom (tr_map t) - o_key ` set (filter (\<lambda>x. \<not> P x) ss)"
    unfolding fold_remove(2) [OF t] by (auto simp: dom_def)
  also have "\<dots> = o_key ` set ss - o_key ` set (filter (\<lambda>x. \<not> P x) ss)"
    using ok by (simp add: sess_ok_def)
  also have "\<dots> = o_key ` set (filter P ss)"
    using keep by auto
  finally have "dom (tr_map ?t) = o_key ` set (filter P ss)" .
  moreover have "obs_ok stp ?t x" if "x \<in> set (filter P ss)" for x
    using ok that keep [of x] unfolding obs_ok_def fold_remove(2) [OF t]
    by (auto simp: sess_ok_def obs_ok_def)
  ultimately show ?thesis
    using ok fold_remove(1) [OF t] by (auto simp: sess_ok_def distinct_map_filter)
qed

lemma cleanup_inv: "mon_inv m \<Longrightarrow> mon_inv (cleanupExpiredSessions now m)"
  unfolding cleanupExpiredSessions_def Let_def
  using sess_ok_filter [of "m_stopping m" "m_sessions m" "m_sessionStates m" "nextObserver m"
      "\<lambda>ob. o_state ob \<noteq> AudioSessionStateExpired"]
  by (intro decide_inv) (simp add: mon_inv_def)

lemma mon_step_inv: "mon_inv m \<Longrightarrow> mon_inv (mon_step now op m)"
  by (cases op)
     (auto simp: OnStateChanged_def OnSessionDisconnected_def applyStateTo_inv refreshState_inv
        register_inv cleanup_inv process_inv onDemandModeChanged_def inv_intros,
      auto simp: OnSessionCreated_def mon_inv_def decided_def split: option.splits)

lemma mon_run_inv: "mon_inv m \<Longrightarrow> mon_inv (mon_run ops m)"
  by (induction ops arbitrary: m) (auto simp: mon_step_inv)

lemma reconcile_inv: "mon_inv m \<Longrightarrow> mon_inv (reconcile now env m)"
  by (rule reconcile_is_run [of now env m]) (simp add: mon_run_inv)

lemma unregisterAll_inv: "mon_inv m \<Longrightarrow> mon_inv (unregisterAllSessions m)"
  by (auto simp: unregisterAllSessions_def mon_inv_def mon_fields sess_ok_def decided_def inv_intros)
     (simp_all add: tr_activeCount_def tr_clear_def)

section \<open>The grace period\<close>

lemma decide_off:
  assumes "micRequested m" "\<not> micRequested (evaluateRequestedStateLocked now m)"
  shows "m_inactiveDeadlineTick m \<noteq> 0 \<and> m_inactiveDeadlineTick m \<le> now"
  using assms
  by (auto simp: evaluateRequestedStateLocked_def setMicRequestedLocked_def Let_def split: if_splits)

lemma decide_deadline:
  "m_inactiveDeadlineTick (evaluateRequestedStateLocked now m) = 0 \<or>
   m_inactiveDeadlineTick (evaluateRequestedStateLocked now m) = m_inactiveDeadlineTick m \<or>
   m_inactiveDeadlineTick (evaluateRequestedStateLocked now m) = now + kDeactivateGraceMs"
  by (auto simp: evaluateRequestedStateLocked_def setMicRequestedLocked_def Let_def)

text \<open>
  One step turns the request off only on a deadline that was set before it and has passed,
  and leaves a deadline that is the old one or 400 ms ahead.
\<close>

definition grace_step :: "nat \<Rightarrow> ('s, 'k) monitor \<Rightarrow> ('s, 'k) monitor \<Rightarrow> bool" where
  "grace_step now m m' \<longleftrightarrow>
     (micRequested m \<and> \<not> micRequested m' \<longrightarrow>
        m_inactiveDeadlineTick m \<noteq> 0 \<and> m_inactiveDeadlineTick m \<le> now) \<and>
     (m_inactiveDeadlineTick m' = 0 \<or> m_inactiveDeadlineTick m' = m_inactiveDeadlineTick m \<or>
      m_inactiveDeadlineTick m' = now + kDeactivateGraceMs)"

lemma grace_same:
  "micRequested m' = micRequested m \<Longrightarrow> m_inactiveDeadlineTick m' = m_inactiveDeadlineTick m \<Longrightarrow>
   grace_step now m m'"
  by (simp add: grace_step_def)

lemma grace_decide:
  "micRequested m' = micRequested m \<Longrightarrow> m_inactiveDeadlineTick m' = m_inactiveDeadlineTick m \<Longrightarrow>
   grace_step now m (evaluateRequestedStateLocked now m')"
  using decide_off [of m' now] decide_deadline [of now m'] by (auto simp: grace_step_def)

text \<open>Two decisions in a row with an active session at the first: the pulse.\<close>

lemma grace_decide_twice:
  assumes "0 < tr_activeCount (m_sessionStates m1)"
    and "micRequested m2 = micRequested (evaluateRequestedStateLocked now m1)"
    and "m_inactiveDeadlineTick m2 = m_inactiveDeadlineTick (evaluateRequestedStateLocked now m1)"
  shows "grace_step now m (evaluateRequestedStateLocked now m2)"
    and "micRequested (evaluateRequestedStateLocked now m2)"
proof -
  have "micRequested m2 \<and> m_inactiveDeadlineTick m2 = 0"
    using assms evaluate_decided [of now m1] by (auto simp: decided_def mon_fields)
  then show "micRequested (evaluateRequestedStateLocked now m2)"
    and "grace_step now m (evaluateRequestedStateLocked now m2)"
    using decide_off [of m2 now] decide_deadline [of now m2]
    by (auto simp: grace_step_def)
qed

lemma applyStateTo_request [mon_fields]:
  "micRequested (applyStateTo i st source m) = micRequested m"
  "m_inactiveDeadlineTick (applyStateTo i st source m) = m_inactiveDeadlineTick m"
  "m_sessionStates (applyStateTo i st source m) = m_sessionStates m"
  "m_stopping (applyStateTo i st source m) = m_stopping m"
  "m_initialized (applyStateTo i st source m) = m_initialized m"
  "demandMode (applyStateTo i st source m) = demandMode m"
  "m_pendingSessions (applyStateTo i st source m) = m_pendingSessions m"
  "nextObserver (applyStateTo i st source m) = nextObserver m"
  by (auto simp: applyStateTo_def Let_def mon_fields split: option.splits prod.splits)

lemma refreshState_request [mon_fields]:
  "micRequested (refreshState env i source m) = micRequested m"
  "m_inactiveDeadlineTick (refreshState env i source m) = m_inactiveDeadlineTick m"
  "m_sessionStates (refreshState env i source m) = m_sessionStates m"
  "m_stopping (refreshState env i source m) = m_stopping m"
  "m_initialized (refreshState env i source m) = m_initialized m"
  "demandMode (refreshState env i source m) = demandMode m"
  "m_pendingSessions (refreshState env i source m) = m_pendingSessions m"
  "nextObserver (refreshState env i source m) = nextObserver m"
  by (auto simp: refreshState_def mon_fields split: option.splits)

lemma pulse_active:
  assumes "tracker_inv (m_sessionStates m)"
  shows "0 < tr_activeCount (snd (tr_update (m_sessionStates m) k Active))"
  using tr_activeCount_pos [OF tr_update_inv [OF assms, of k Active]]
  by (auto simp: tr_activeCount_def active_set_upd)

lemma processSettled_grace:
  assumes "micRequested m1 = micRequested m" "m_inactiveDeadlineTick m1 = m_inactiveDeadlineTick m"
  shows "grace_step now m (processSettled now source ob m1)"
proof (cases rule: processSettled_cases [of now source ob m1])
  case (changed m')
  have "micRequested m' = micRequested m1 \<and> m_inactiveDeadlineTick m' = m_inactiveDeadlineTick m1"
    by (subst changed(2), subst (2) changed(2)) simp
  then show ?thesis
    unfolding changed(1) using assms by (intro grace_decide) (simp_all add: mon_fields)
qed (use assms in \<open>auto intro: grace_same\<close>)

lemma process_grace:
  assumes inv: "mon_inv m"
  shows "grace_step now m (processObserverState now i m)"
proof (cases "find_observer i m")
  case None
  then show ?thesis by (simp add: processObserverState_def grace_same)
next
  case (Some ob)
  let ?m0 = "put_observer i (ob\<lparr>o_pendingSource := NoSource, o_sawActive := False\<rparr>) m"
  let ?pulse = "o_sawActive ob \<and> o_state ob \<noteq> AudioSessionStateActive"
  have t: "tracker_inv (m_sessionStates ?m0)" using inv by (simp add: mon_inv_def sess_ok_def mon_fields)
  have "processObserverState now i m = ?m0 \<or>
      processObserverState now i m = processSettled now (o_pendingSource ob) ob ?m0 \<or>
      (processObserverState now i m =
        processSettled now (o_pendingSource ob) ob (processPulse now ob ?m0) \<and> ?pulse)"
    using Some by (simp add: processObserverState_def Let_def)
  then consider "processObserverState now i m = ?m0"
    | "processObserverState now i m = processSettled now (o_pendingSource ob) ob ?m0"
    | (pulse) "processObserverState now i m =
        processSettled now (o_pendingSource ob) ob (processPulse now ob ?m0)" ?pulse
    by blast
  then show ?thesis
  proof cases
    case 1
    then show ?thesis by (simp add: grace_same mon_fields)
  next
    case 2
    then show ?thesis by (simp add: processSettled_grace mon_fields)
  next
    case pulse
    show ?thesis
    proof (cases rule: processPulse_cases [of now ob ?m0])
      case changed
      let ?mp = "syncSessionMetricsLocked (?m0\<lparr>m_sessionStates :=
        snd (tr_update (m_sessionStates ?m0) (o_key ob) Active)\<rparr>)"
      let ?m1 = "processPulse now ob ?m0"
      have act: "0 < tr_activeCount (m_sessionStates ?mp)"
        using pulse_active [OF t] by (simp add: mon_fields)
      have "tr_map (m_sessionStates ?m1) (o_key ob) = Some Active"
        using processPulse_states(1) [OF t] by simp
      then have ne: "tr_map (m_sessionStates ?m1) (o_key ob) \<noteq> Some (toTrackerState (o_state ob))"
        using pulse(2) by (cases "o_state ob") auto
      show ?thesis
      proof (cases rule: processSettled_cases [of now "o_pendingSource ob" ob ?m1])
        case (changed m')
        have "micRequested m' = micRequested ?m1 \<and> m_inactiveDeadlineTick m' = m_inactiveDeadlineTick ?m1"
          by (subst changed(2), subst (2) changed(2)) simp
        then show ?thesis
          unfolding pulse(1) changed(1)
          using \<open>processPulse now ob ?m0 = _\<close>
          by (intro grace_decide_twice(1) [OF act]) (simp_all add: mon_fields)
      next
        case same
        then show ?thesis using ne by simp
      qed
    next
      case same
      then show ?thesis by (simp add: pulse(1) processSettled_grace mon_fields)
    qed
  qed
qed

lemma mon_step_grace:
  assumes "mon_inv m"
  shows "grace_step now m (mon_step now op m)"
proof (cases op)
  case (RegisterSession env s)
  then show ?thesis
    by (auto simp: registerEventsOnSession_def Let_def mon_fields intro: grace_same grace_decide)
next
  case (SessionCreated s)
  then show ?thesis by (auto simp: OnSessionCreated_def intro: grace_same split: option.splits)
next
  case DemandModeChanged
  have "grace_step now m (evaluateRequestedStateLocked now m)" by (rule grace_decide) simp_all
  then show ?thesis using DemandModeChanged by (simp add: onDemandModeChanged_def grace_step_def mon_fields)
qed (auto simp: OnStateChanged_def OnSessionDisconnected_def mon_fields cleanupExpiredSessions_def
       intro: grace_same grace_decide process_grace assms)

lemma run_deadline_source:
  assumes inv: "mon_inv m" and d: "m_inactiveDeadlineTick m = 0"
    and on: "m_inactiveDeadlineTick (mon_run ops m) \<noteq> 0"
  shows "\<exists>pre mid. ops = pre @ mid \<and> mid \<noteq> [] \<and>
     m_inactiveDeadlineTick (mon_run ops m) = fst (hd mid) + kDeactivateGraceMs \<and>
     (\<forall>j<length mid. tr_activeCount (m_sessionStates (mon_run (pre @ take (Suc j) mid) m)) = 0)"
  using on
proof (induction ops rule: rev_induct)
  case Nil
  then show ?case using d by simp
next
  case (snoc x ops)
  obtain now op where x: "x = (now, op)" by (cases x)
  let ?a = "mon_run ops m" and ?b = "mon_run (ops @ [x]) m"
  have inv_b: "mon_inv ?b" by (rule mon_run_inv [OF inv])
  then have quiet: "tr_activeCount (m_sessionStates ?b) = 0"
    using snoc.prems by (auto simp: mon_inv_def decided_def)
  have "grace_step now ?a ?b" using mon_step_grace [OF mon_run_inv [OF inv]] by (simp add: x)
  then consider (fresh) "m_inactiveDeadlineTick ?b = now + kDeactivateGraceMs"
    | (old) "m_inactiveDeadlineTick ?b = m_inactiveDeadlineTick ?a"
    using snoc.prems by (auto simp: grace_step_def)
  then show ?case
  proof cases
    case fresh
    then show ?thesis
      using quiet by (intro exI [of _ ops] exI [of _ "[x]"]) (simp add: x)
  next
    case old
    then obtain pre mid where *: "ops = pre @ mid" "mid \<noteq> []"
      "m_inactiveDeadlineTick ?a = fst (hd mid) + kDeactivateGraceMs"
      "\<forall>j<length mid. tr_activeCount (m_sessionStates (mon_run (pre @ take (Suc j) mid) m)) = 0"
      using snoc.IH snoc.prems by auto
    have "tr_activeCount (m_sessionStates (mon_run (pre @ take (Suc j) (mid @ [x])) m)) = 0"
      if "j < length (mid @ [x])" for j
    proof (cases "j < length mid")
      case True
      then show ?thesis using *(4) by simp
    next
      case False
      then have "pre @ take (Suc j) (mid @ [x]) = ops @ [x]" using that *(1) by simp
      then show ?thesis using quiet by (simp only:)
    qed
    then show ?thesis
      using * old by (intro exI [of _ pre] exI [of _ "mid @ [x]"]) simp
  qed
qed

section \<open>One pass of reconciliation\<close>

definition settle :: "('s, 'k) com_env \<Rightarrow> ('s, 'k) observer \<Rightarrow> ('s, 'k) observer" where
  "settle env ob = (fst (applyState (the (getState env (o_control ob))) Reconcile ob))
     \<lparr>o_pendingSource := NoSource, o_sawActive := False\<rparr>"

lemma settle_fields [simp]:
  "o_id (settle env ob) = o_id ob" "o_key (settle env ob) = o_key ob"
  "o_control (settle env ob) = o_control ob" "o_state (settle env ob) = the (getState env (o_control ob))"
  "o_pendingSource (settle env ob) = NoSource" "\<not> o_sawActive (settle env ob)"
  by (simp_all add: settle_def mon_fields)

lemma find_observer_unique:
  "distinct (map o_id (m_sessions m)) \<Longrightarrow> find_observer i m = Some ob \<Longrightarrow> x \<in> set (m_sessions m) \<Longrightarrow>
   o_id x = i \<Longrightarrow> x = ob"
  using find_observer_mem [of m x] by simp

lemma find_observer_none: "find_observer i m = None \<Longrightarrow> x \<in> set (m_sessions m) \<Longrightarrow> o_id x \<noteq> i"
  by (auto simp: find_observer_def find_None_iff)

lemma process_sessions:
  assumes "distinct (map o_id (m_sessions m))"
  shows "m_sessions (processObserverState now i m) =
    map (\<lambda>x. if o_id x = i then x\<lparr>o_pendingSource := NoSource, o_sawActive := False\<rparr> else x) (m_sessions m)"
proof (cases "find_observer i m")
  case None
  then show ?thesis
    using find_observer_none [OF None] by (auto simp: processObserverState_def intro!: map_idI [symmetric])
next
  case (Some ob)
  then show ?thesis
    using find_observer_unique [OF assms Some]
    by (auto simp: processObserverState_def Let_def mon_fields)
qed

lemma refresh_sessions:
  assumes "distinct (map o_id (m_sessions m))" "\<forall>s. getState env s \<noteq> None"
  shows "m_sessions (refreshState env i source m) =
    map (\<lambda>x. if o_id x = i then fst (applyState (the (getState env (o_control x))) source x) else x)
      (m_sessions m)"
proof (cases "find_observer i m")
  case None
  then show ?thesis
    using find_observer_none [OF None] by (auto simp: refreshState_def intro!: map_idI [symmetric])
next
  case (Some ob)
  obtain st where "getState env (o_control ob) = Some st" using assms(2) by auto
  then show ?thesis
    using Some find_observer_unique [OF assms(1) Some]
    by (auto simp: refreshState_def applyStateTo_def Let_def mon_fields split: prod.splits)
qed

abbreviation (input) pass :: "nat \<Rightarrow> ('s, 'k) com_env \<Rightarrow> nat \<Rightarrow> ('s, 'k) monitor \<Rightarrow> ('s, 'k) monitor" where
  "pass now env i m \<equiv> processObserverState now i (refreshState env i Reconcile m)"

lemma pass_sessions:
  assumes "distinct (map o_id (m_sessions m))" "\<forall>s. getState env s \<noteq> None"
  shows "m_sessions (pass now env i m) = map (\<lambda>x. if o_id x = i then settle env x else x) (m_sessions m)"
proof -
  have "map o_id (m_sessions (refreshState env i Reconcile m)) = map o_id (m_sessions m)"
    by (simp add: refresh_sessions [OF assms] mon_fields)
  then have "distinct (map o_id (m_sessions (refreshState env i Reconcile m)))" using assms(1) by simp
  then show ?thesis
    by (simp add: process_sessions refresh_sessions [OF assms] settle_def mon_fields)
qed

lemma fold_pass_sessions:
  assumes "distinct (map o_id (m_sessions m))" "\<forall>s. getState env s \<noteq> None" "distinct is"
  shows "m_sessions (fold (pass now env) is m) =
    map (\<lambda>x. if o_id x \<in> set is then settle env x else x) (m_sessions m)"
  using assms
proof (induction "is" arbitrary: m)
  case (Cons i js)
  have eq: "m_sessions (pass now env i m) = map (\<lambda>x. if o_id x = i then settle env x else x) (m_sessions m)"
    by (rule pass_sessions [OF Cons.prems(1,2)])
  then have "map o_id (m_sessions (pass now env i m)) = map o_id (m_sessions m)" by simp
  then have d: "distinct (map o_id (m_sessions (pass now env i m)))"
    using Cons.prems(1) by (simp only:)
  have "m_sessions (fold (pass now env) js (pass now env i m)) =
      map (\<lambda>x. if o_id x \<in> set js then settle env x else x) (m_sessions (pass now env i m))"
    by (rule Cons.IH [OF d Cons.prems(2)]) (use Cons.prems(3) in simp)
  also have "\<dots> = map (\<lambda>x. if o_id x \<in> set (i # js) then settle env x else x) (m_sessions m)"
    unfolding eq using Cons.prems(3) by auto
  finally show ?case by simp
qed (simp add: map_idI)

lemma process_fields [mon_fields]:
  "m_stopping (processObserverState now i m) = m_stopping m"
  "m_initialized (processObserverState now i m) = m_initialized m"
  "demandMode (processObserverState now i m) = demandMode m"
  by (simp_all add: processObserverState_def Let_def mon_fields split: option.splits)

lemma register_fields [mon_fields]:
  "m_stopping (registerEventsOnSession now env s m) = m_stopping m"
  "m_initialized (registerEventsOnSession now env s m) = m_initialized m"
  "demandMode (registerEventsOnSession now env s m) = demandMode m"
  by (simp_all add: registerEventsOnSession_def Let_def mon_fields)

lemma fold_fields:
  assumes "\<And>x m. f (g x m) = f m"
  shows "f (fold g xs m) = f m"
  using assms by (induction xs arbitrary: m) auto

lemma fold_keep:
  assumes "P m" "\<And>x m. x \<in> set xs \<Longrightarrow> P m \<Longrightarrow> P (g x m)"
  shows "P (fold g xs m)"
  using assms by (induction xs arbitrary: m) auto

lemma drain_fields [mon_fields]:
  "m_stopping (drainPendingSessions now env m) = m_stopping m"
  "m_initialized (drainPendingSessions now env m) = m_initialized m"
  "demandMode (drainPendingSessions now env m) = demandMode m"
  by (simp_all add: drainPendingSessions_def Let_def fold_fields [of m_stopping]
    fold_fields [of m_initialized] fold_fields [of demandMode] mon_fields)

lemma drain_inv: "mon_inv m \<Longrightarrow> mon_inv (drainPendingSessions now env m)"
proof -
  assume "mon_inv m"
  then have "mon_inv (m\<lparr>m_pendingSessions := []\<rparr>)" by (simp add: mon_inv_def decided_def)
  moreover from this have "mon_inv (fold (registerEventsOnSession now env) ss (m\<lparr>m_pendingSessions := []\<rparr>))"
    for ss by (rule fold_keep) (rule register_inv)
  ultimately show "mon_inv (drainPendingSessions now env m)"
    unfolding drainPendingSessions_def Let_def by simp
qed

lemma fold_pass_inv: "mon_inv m \<Longrightarrow> mon_inv (fold (pass now env) is m)"
  by (rule fold_keep) (auto intro: process_inv refreshState_inv)

lemma tr_map_of_sessions:
  assumes "sess_ok False ss t n" "\<forall>ob\<in>set ss. o_pendingSource ob = NoSource \<and> \<not> o_sawActive ob"
  shows "tr_map t = map_of (map (\<lambda>ob. (o_key ob, toTrackerState (o_state ob))) ss)" (is "_ = map_of ?l")
proof
  fix k
  have d: "distinct (map fst ?l)" using assms(1) by (simp add: sess_ok_def comp_def)
  show "tr_map t k = map_of ?l k"
  proof (cases "k \<in> o_key ` set ss")
    case True
    then obtain ob where ob: "ob \<in> set ss" "k = o_key ob" by auto
    then have "tr_map t k = Some (toTrackerState (o_state ob))"
      using assms by (auto simp: sess_ok_def obs_ok_def)
    moreover have "(k, toTrackerState (o_state ob)) \<in> set ?l" using ob by auto
    ultimately show ?thesis using d by simp
  next
    case False
    then have "tr_map t k = None" using assms(1) by (auto simp: sess_ok_def)
    moreover have "map_of ?l k = None" using False by (simp add: map_of_eq_None_iff image_image)
    ultimately show ?thesis by simp
  qed
qed

section \<open>A monitor nobody is using\<close>

definition quiet :: "('s, 'k) monitor \<Rightarrow> bool" where
  "quiet m \<longleftrightarrow> (\<forall>ob\<in>set (m_sessions m). \<not> o_sawActive ob \<and> o_state ob \<noteq> AudioSessionStateActive) \<and>
     active_set (tr_map (m_sessionStates m)) = {}"

text \<open>The request is off, or a deadline is running that has passed by \<open>now\<close>.\<close>

definition off_by :: "nat \<Rightarrow> ('s, 'k) monitor \<Rightarrow> bool" where
  "off_by now m \<longleftrightarrow> micRequested m \<longrightarrow> 0 < m_inactiveDeadlineTick m \<and> m_inactiveDeadlineTick m \<le> now"

lemma evaluate_quiet:
  assumes "tr_activeCount (m_sessionStates m) = 0" "demandMode m" "off_by t m"
  shows "off_by t (evaluateRequestedStateLocked now m)"
    and "t \<le> now \<Longrightarrow> \<not> micRequested (evaluateRequestedStateLocked now m)"
  using assms
  by (auto simp: off_by_def evaluateRequestedStateLocked_def setMicRequestedLocked_def Let_def)

lemma evaluate_starts_grace:
  assumes "tr_activeCount (m_sessionStates m) = 0" "demandMode m"
    and "m_inactiveDeadlineTick m \<le> now + kDeactivateGraceMs"
  shows "off_by (now + kDeactivateGraceMs) (evaluateRequestedStateLocked now m)"
  using assms
  by (auto simp: off_by_def evaluateRequestedStateLocked_def setMicRequestedLocked_def Let_def
      kDeactivateGraceMs_def)

lemma active_count_0: "tracker_inv t \<Longrightarrow> active_set (tr_map t) = {} \<Longrightarrow> tr_activeCount t = 0"
  by (simp add: tracker_inv_def tr_activeCount_def)

text \<open>The steps of a pass in which Windows reports no active session.\<close>

definition quiet_env :: "('s, 'k) com_env \<Rightarrow> bool" where
  "quiet_env env \<longleftrightarrow> (\<forall>s. getState env s \<noteq> Some AudioSessionStateActive)"

definition quiet_off :: "nat \<Rightarrow> ('s, 'k) monitor \<Rightarrow> bool" where
  "quiet_off t m \<longleftrightarrow> mon_inv m \<and> quiet m \<and> demandMode m \<and> off_by t m"

lemma toTrackerState_Active: "Active = toTrackerState st \<longleftrightarrow> st = AudioSessionStateActive"
  by (cases st) auto

definition calm :: "('s, 'k) observer list \<Rightarrow> bool" where
  "calm ss \<longleftrightarrow> (\<forall>ob\<in>set ss. \<not> o_sawActive ob \<and> o_state ob \<noteq> AudioSessionStateActive)"

lemma refresh_calm:
  assumes calm: "calm (m_sessions m)" and env: "quiet_env env"
  shows "calm (m_sessions (refreshState env i source m))"
proof -
  have "m_sessions (refreshState env i source m) = m_sessions m"
    if "find_observer i m = None" using that by (simp add: refreshState_def)
  moreover have "m_sessions (refreshState env i source m) = m_sessions m"
    if "find_observer i m = Some ob" "getState env (o_control ob) = None" for ob
    using that by (simp add: refreshState_def)
  moreover have "calm (m_sessions (refreshState env i source m))"
    if ob: "find_observer i m = Some ob" and st: "getState env (o_control ob) = Some st" for ob st
  proof -
    let ?ob = "fst (applyState st source ob)"
    have "\<not> o_sawActive ob" using calm find_observer_Some [OF ob] by (simp add: calm_def)
    moreover have "st \<noteq> AudioSessionStateActive" using env st by (auto simp: quiet_env_def)
    ultimately have "\<not> o_sawActive ?ob \<and> o_state ?ob \<noteq> AudioSessionStateActive"
      by (auto simp: applyState_def Let_def)
    moreover have "m_sessions (refreshState env i source m) =
        map (\<lambda>x. if o_id x = i then ?ob else x) (m_sessions m)"
      using ob st by (simp add: refreshState_def applyStateTo_def Let_def case_prod_beta mon_fields)
    ultimately show ?thesis using calm by (auto simp: calm_def)
  qed
  ultimately show ?thesis
    using calm by (cases "find_observer i m") (metis option.exhaust)+
qed

lemma refresh_quiet:
  assumes "quiet_off t m" "quiet_env env" "source \<noteq> NoSource"
  shows "quiet_off t (refreshState env i source m)"
  using assms refreshState_inv [of m source env i] refresh_calm [of m env i source]
  by (auto simp: quiet_off_def quiet_def off_by_def calm_def mon_fields)

lemma process_quiet:
  assumes q: "quiet_off t m"
  shows "quiet_off t (processObserverState now i m)"
proof (cases "find_observer i m")
  case None
  then show ?thesis using q by (simp add: processObserverState_def)
next
  case (Some ob)
  let ?m0 = "put_observer i (ob\<lparr>o_pendingSource := NoSource, o_sawActive := False\<rparr>) m"
  have inv: "mon_inv m" and t: "tracker_inv (m_sessionStates m)"
    using q by (auto simp: quiet_off_def mon_inv_def sess_ok_def)
  have ob: "\<not> o_sawActive ob" "o_state ob \<noteq> AudioSessionStateActive"
    using q find_observer_Some [OF Some] by (auto simp: quiet_off_def quiet_def)
  have not_act: "toTrackerState (o_state ob) \<noteq> Active" using ob(2) by (cases "o_state ob") auto
  have m0: "quiet ?m0" "demandMode ?m0" "off_by t ?m0" "tracker_inv (m_sessionStates ?m0)"
    using q ob t by (auto simp: quiet_off_def quiet_def off_by_def mon_fields)
  have inv': "mon_inv (processObserverState now i m)" by (rule process_inv [OF inv])
  let ?m1 = "processSettled now (o_pendingSource ob) ob ?m0"
  have "quiet ?m1"
    using m0(1) not_act unfolding quiet_def processSettled_states(1) [OF m0(4)] mon_fields
    by (auto simp: active_set_upd)
  moreover have "off_by t ?m1"
  proof (cases rule: processSettled_cases [of now "o_pendingSource ob" ob ?m0])
    case (changed m')
    have same: "m_sessionStates m' = m_sessionStates ?m1" "demandMode m'" "off_by t m'"
      using m0(2,3) changed(1) unfolding off_by_def
      by (subst changed(2), (subst changed(2))?, simp add: mon_fields)+
    have "tr_activeCount (m_sessionStates m') = 0"
      unfolding same(1) using \<open>quiet ?m1\<close> processSettled_states(2) [OF m0(4)]
      by (intro active_count_0) (auto simp: quiet_def)
    then show ?thesis
      unfolding changed(1) using same(2,3) by (intro evaluate_quiet(1)) (auto simp: mon_fields off_by_def)
  qed (use m0 in simp)
  moreover have "demandMode ?m1" using m0 by (simp add: mon_fields)
  moreover have "processObserverState now i m = ?m0 \<or> processObserverState now i m = ?m1"
    using Some ob by (simp add: processObserverState_def Let_def)
  ultimately show ?thesis
    using m0 inv' unfolding quiet_off_def by metis
qed

lemma cleanup_quiet:
  assumes q: "quiet_off t m"
  shows "quiet_off t (cleanupExpiredSessions now m)"
proof -
  let ?e = "filter (\<lambda>ob. o_state ob = AudioSessionStateExpired) (m_sessions m)"
  let ?m1 = "syncSessionMetricsLocked (m\<lparr>m_sessions :=
      filter (\<lambda>ob. o_state ob \<noteq> AudioSessionStateExpired) (m_sessions m),
      m_sessionStates := fold (\<lambda>ob t. snd (tr_remove t (o_key ob))) ?e (m_sessionStates m)\<rparr>)"
  have t: "tracker_inv (m_sessionStates m)" using q by (simp add: quiet_off_def mon_inv_def sess_ok_def)
  have "quiet ?m1"
    using q by (auto simp: quiet_off_def quiet_def mon_fields fold_remove(2) [OF t] active_set_def)
  moreover from this have "tr_activeCount (m_sessionStates ?m1) = 0"
    using fold_remove(1) [OF t] by (intro active_count_0) (auto simp: quiet_def mon_fields)
  ultimately have "quiet_off t (evaluateRequestedStateLocked now ?m1)"
    if "mon_inv (evaluateRequestedStateLocked now ?m1)"
    using q that evaluate_quiet(1) [of ?m1 t now]
    by (auto simp: quiet_off_def quiet_def mon_fields off_by_def)
  then show ?thesis
    using q cleanup_inv [of m now] by (simp add: quiet_off_def cleanupExpiredSessions_def Let_def)
qed

lemma register_quiet:
  assumes q: "quiet_off t m" and env: "quiet_env env"
  shows "quiet_off t (registerEventsOnSession now env s m)"
proof -
  let ?i = "nextObserver m" and ?k = "sessionKey env s"
  let ?ob = "\<lparr>o_id = ?i, o_control = s, o_key = ?k, o_state = AudioSessionStateInactive,
    o_pendingSource = NoSource, o_sawActive = False, o_owner = True, o_registered = False\<rparr>"
  let ?t = "snd (tr_update (m_sessionStates m) ?k Inactive)"
  let ?m1 = "syncSessionMetricsLocked (m\<lparr>nextObserver := ?i + 1, m_sessions := m_sessions m @ [?ob],
      m_sessionStates := ?t\<rparr>)"
  let ?r = "registerEventsOnSession now env s m"
  have inv: "mon_inv m" and t: "tracker_inv (m_sessionStates m)"
    using q by (auto simp: quiet_off_def mon_inv_def sess_ok_def)
  have inv': "mon_inv ?r" by (rule register_inv [OF inv])
  have a: "active_set (tr_map (m_sessionStates m)) = {}" using q by (simp add: quiet_off_def quiet_def)
  have qs: "quiet ?r"
  proof -
    have c: "calm (m_sessions m)" using q by (simp add: quiet_off_def quiet_def calm_def)
    then have "calm (m_sessions (put_observer ?i (?ob\<lparr>o_registered := True\<rparr>) ?m1))"
      by (auto simp: calm_def mon_fields)
    from refresh_calm [OF this env, of ?i Register]
    have "calm (m_sessions ?r)"
      using c by (simp add: registerEventsOnSession_def Let_def mon_fields) (auto simp: calm_def)
    moreover have "active_set (tr_map (m_sessionStates ?r)) = {}"
      using a by (auto simp: registerEventsOnSession_def Let_def mon_fields active_set_upd active_set_del)
    ultimately show ?thesis by (simp add: quiet_def calm_def)
  qed
  moreover have "off_by t ?r"
  proof -
    let ?m2 = "syncSessionMetricsLocked (?m1\<lparr>m_sessions := filter (\<lambda>x. o_id x \<noteq> ?i) (m_sessions ?m1),
      m_sessionStates := snd (tr_remove (m_sessionStates ?m1) ?k)\<rparr>)"
    have "tr_activeCount (m_sessionStates ?m2) = 0"
      using a t by (intro active_count_0) (auto simp: mon_fields active_set_del active_set_upd inv_intros)
    then have "off_by t (evaluateRequestedStateLocked now ?m2)"
      using q by (intro evaluate_quiet(1)) (auto simp: quiet_off_def off_by_def mon_fields)
    then show ?thesis
      using q by (auto simp: registerEventsOnSession_def Let_def quiet_off_def off_by_def mon_fields)
  qed
  moreover have "demandMode ?r" using q by (simp add: mon_fields quiet_off_def)
  ultimately show ?thesis using inv' by (simp add: quiet_off_def)
qed

lemma drain_quiet:
  assumes "quiet_off t m" "quiet_env env"
  shows "quiet_off t (drainPendingSessions now env m)"
proof -
  have "quiet_off t (m\<lparr>m_pendingSessions := []\<rparr>)"
    using assms(1) by (simp add: quiet_off_def quiet_def off_by_def mon_inv_def decided_def)
  moreover from this
  have "quiet_off t (fold (registerEventsOnSession now env) ss (m\<lparr>m_pendingSessions := []\<rparr>))" for ss
    by (rule fold_keep) (rule register_quiet [OF _ assms(2)])
  ultimately show ?thesis unfolding drainPendingSessions_def Let_def by simp
qed

lemma reconcile_quiet:
  assumes q: "quiet_off t m" and env: "quiet_env env" and run: "m_initialized m" "\<not> m_stopping m"
  shows "quiet_off t (reconcile now env m)" and "t \<le> now \<Longrightarrow> \<not> micRequested (reconcile now env m)"
proof -
  let ?d = "drainPendingSessions now env m"
  let ?f = "fold (pass now env) (map o_id (m_sessions ?d)) ?d"
  have "quiet_off t ?f"
    using drain_quiet [OF q env]
    by (rule fold_keep) (auto intro: process_quiet refresh_quiet env)
  then have c: "quiet_off t (cleanupExpiredSessions now ?f)" by (rule cleanup_quiet)
  let ?c = "cleanupExpiredSessions now ?f"
  have a: "tr_activeCount (m_sessionStates ?c) = 0" "demandMode ?c" "off_by t ?c"
    using c by (auto simp: quiet_off_def quiet_def mon_inv_def sess_ok_def intro: active_count_0)
  have eq: "reconcile now env m = evaluateRequestedStateLocked now ?c"
    using run by (simp add: reconcile_def Let_def)
  show "quiet_off t (reconcile now env m)"
    using c evaluate_quiet(1) [OF a, of now]
    by (auto simp: eq quiet_off_def quiet_def mon_fields intro: evaluate_inv)
  show "\<not> micRequested (reconcile now env m)" if "t \<le> now"
    unfolding eq by (rule evaluate_quiet(2) [OF a that])
qed

lemma run_deadline_bound:
  assumes "mon_inv m" "m_inactiveDeadlineTick m \<le> now + kDeactivateGraceMs" "\<forall>(t, op)\<in>set ops. t = now"
  shows "m_inactiveDeadlineTick (mon_run ops m) \<le> now + kDeactivateGraceMs"
  using assms
proof (induction ops arbitrary: m)
  case (Cons x ops)
  obtain op where x: "x = (now, op)" using Cons.prems(3) by (cases x) auto
  have "m_inactiveDeadlineTick (mon_step now op m) \<le> now + kDeactivateGraceMs"
    using mon_step_grace [OF Cons.prems(1), of now op] Cons.prems(2) by (auto simp: grace_step_def)
  then show ?case using Cons x by (simp add: mon_step_inv)
qed simp

lemma evaluate_idem_off:
  assumes "tr_activeCount (m_sessionStates m) = 0" "demandMode m"
  shows "micRequested (evaluateRequestedStateLocked now m) \<Longrightarrow>
    0 < m_inactiveDeadlineTick (evaluateRequestedStateLocked now m)"
  using assms by (auto simp: evaluateRequestedStateLocked_def setMicRequestedLocked_def Let_def
    kDeactivateGraceMs_def split: if_splits)

text \<open>After one pass in which nobody is active the grace period is running, or the request is off.\<close>

lemma reconcile_starts_grace:
  assumes inv: "mon_inv m" and run: "m_initialized m" "\<not> m_stopping m" and dem: "demandMode m"
    and d: "m_inactiveDeadlineTick m \<le> now + kDeactivateGraceMs"
    and env: "quiet_env env" "\<forall>s. getState env s \<noteq> None"
  shows "quiet_off (now + kDeactivateGraceMs) (reconcile now env m)"
proof -
  let ?d = "drainPendingSessions now env m"
  let ?f = "fold (pass now env) (map o_id (m_sessions ?d)) ?d"
  let ?c = "cleanupExpiredSessions now ?f" and ?m' = "reconcile now env m"
  have ids: "distinct (map o_id (m_sessions ?d))"
    using drain_inv [OF inv] by (simp add: mon_inv_def sess_ok_def)
  have eq: "?m' = evaluateRequestedStateLocked now ?c"
    using run by (simp add: reconcile_def Let_def)
  have ss: "m_sessions ?m' = filter (\<lambda>ob. o_state ob \<noteq> AudioSessionStateExpired)
      (map (settle env) (m_sessions ?d))"
  proof -
    have "m_sessions ?f = map (settle env) (m_sessions ?d)"
      using fold_pass_sessions [OF ids env(2) ids, of now] by simp
    then show ?thesis by (simp add: eq cleanupExpiredSessions_def Let_def mon_fields)
  qed
  have not_act: "the (getState env c) \<noteq> AudioSessionStateActive" for c
    using env by (metis option.collapse quiet_env_def)
  then have quiet1: "\<forall>ob\<in>set (m_sessions ?m'). \<not> o_sawActive ob \<and> o_pendingSource ob = NoSource \<and>
      o_state ob \<noteq> AudioSessionStateActive"
    unfolding ss by auto
  have inv': "mon_inv ?m'" by (rule reconcile_inv [OF inv])
  have stop: "\<not> m_stopping ?m'" and dem': "demandMode ?m'" "demandMode ?c"
    using run dem by (simp_all add: eq cleanupExpiredSessions_def Let_def mon_fields
        fold_fields [of m_stopping] fold_fields [of demandMode])
  have "tr_map (m_sessionStates ?m') = map_of (map (\<lambda>ob. (o_key ob, toTrackerState (o_state ob))) (m_sessions ?m'))"
    using inv' stop quiet1 by (intro tr_map_of_sessions [of _ _ "nextObserver ?m'"]) (auto simp: mon_inv_def)
  then have act: "active_set (tr_map (m_sessionStates ?m')) = {}"
    using quiet1 by (auto simp: active_set_def toTrackerState_Active dest!: map_of_SomeD)
  then have "tr_activeCount (m_sessionStates ?c) = 0"
    using inv' by (intro active_count_0) (auto simp: eq mon_inv_def sess_ok_def mon_fields)
  then have "micRequested ?m' \<Longrightarrow> 0 < m_inactiveDeadlineTick ?m'"
    unfolding eq using dem'(2) by (rule evaluate_idem_off)
  moreover obtain ops where "?m' = mon_run ops m" "\<forall>(t, op)\<in>set ops. t = now"
    by (rule reconcile_is_run)
  then have "m_inactiveDeadlineTick ?m' \<le> now + kDeactivateGraceMs"
    using run_deadline_bound [OF inv d] by simp
  ultimately show ?thesis
    using inv' dem'(1) quiet1 act by (simp add: quiet_off_def quiet_def off_by_def)
qed

section \<open>Properties\<close>

text \<open>
  C8. The request to stream is switched off only after a full grace period without a
  listener. For every sequence of callbacks and monitor steps, in any order: if the last step
  switches it off, there is an earlier step, at least 400 ms before by the clock, since which
  no session has been active after any step.
\<close>

theorem request_off_after_grace:
  assumes "mon_inv m" "m_inactiveDeadlineTick m = 0"
    and "micRequested (mon_run ops m)" "\<not> micRequested (mon_run (ops @ [(now, op)]) m)"
  shows "\<exists>pre mid. ops = pre @ mid \<and> mid \<noteq> [] \<and> fst (hd mid) + 400 \<le> now \<and>
    (\<forall>j<length mid. active_set (tr_map (m_sessionStates (mon_run (pre @ take (Suc j) mid) m))) = {})"
proof -
  have "grace_step now (mon_run ops m) (mon_run (ops @ [(now, op)]) m)"
    using mon_step_grace [OF mon_run_inv [OF assms(1)]] by simp
  then have d: "m_inactiveDeadlineTick (mon_run ops m) \<noteq> 0" "m_inactiveDeadlineTick (mon_run ops m) \<le> now"
    using assms(3,4) unfolding grace_step_def by blast+
  obtain pre mid where *: "ops = pre @ mid" "mid \<noteq> []"
    "m_inactiveDeadlineTick (mon_run ops m) = fst (hd mid) + kDeactivateGraceMs"
    "\<forall>j<length mid. tr_activeCount (m_sessionStates (mon_run (pre @ take (Suc j) mid) m)) = 0"
    using run_deadline_source [OF assms(1,2) d(1)] by blast
  have "active_set (tr_map (m_sessionStates (mon_run xs m))) = {}"
    if "tr_activeCount (m_sessionStates (mon_run xs m)) = 0" for xs
    using mon_active_iff [OF mon_run_inv [OF assms(1), of xs]] that by simp
  then have "\<forall>j<length mid. active_set (tr_map (m_sessionStates (mon_run (pre @ take (Suc j) mid) m))) = {}"
    using *(4) by blast
  moreover have "fst (hd mid) + 400 \<le> now" using *(3) d(2) by (simp add: kDeactivateGraceMs_def)
  ultimately show ?thesis using *(1,2) by blast
qed

text \<open>
  C9. No pulse is lost: a session that became active and stopped again before the monitor
  thread looked (so only \<open>m_sawActive\<close> tells) still switches the request on.
\<close>

theorem pulse_is_not_lost:
  assumes "mon_inv m" "\<not> m_stopping m" "ob \<in> set (m_sessions m)" "o_state ob \<noteq> AudioSessionStateActive"
    and "s \<noteq> AudioSessionStateActive"
  shows "micRequested (mon_run [(t, StateChanged (o_id ob) AudioSessionStateActive),
    (t', StateChanged (o_id ob) s), (now, ProcessOne (o_id ob))] m)"
proof -
  let ?m1 = "OnStateChanged (o_id ob) AudioSessionStateActive m"
  let ?m2 = "OnStateChanged (o_id ob) s ?m1"
  let ?ob1 = "fst (applyState AudioSessionStateActive Event ob)" and ?i = "o_id ob"
  let ?ob2 = "fst (applyState s Event (fst (applyState AudioSessionStateActive Event ob)))"
  have i1: "mon_inv ?m1" and i2: "mon_inv ?m2"
    using assms(1) by (simp_all add: OnStateChanged_def applyStateTo_inv)
  have f: "find_observer ?i m = Some ob"
    using assms by (intro find_observer_mem) (auto simp: mon_inv_def sess_ok_def)
  have "?ob1 \<in> set (m_sessions ?m1)"
    using f assms(3) by (auto simp: OnStateChanged_def applyStateTo_def Let_def mon_fields split: prod.splits)
  then have f1: "find_observer ?i ?m1 = Some ?ob1"
    using i1 find_observer_mem [of ?m1 ?ob1] by (auto simp: mon_inv_def sess_ok_def mon_fields)
  have "?ob2 \<in> set (m_sessions ?m2)"
    using f1 find_observer_Some [OF f1]
    by (auto simp: OnStateChanged_def [of _ s] applyStateTo_def [of _ s] Let_def mon_fields split: prod.splits)
  then have f2: "find_observer ?i ?m2 = Some ?ob2"
    using i2 find_observer_mem [of ?m2 ?ob2] by (auto simp: mon_inv_def sess_ok_def mon_fields)
  have saw: "o_sawActive ?ob2" "o_state ?ob2 = s"
    using assms(4,5) by (auto simp: applyState_def Let_def)
  let ?m0 = "put_observer ?i (?ob2\<lparr>o_pendingSource := NoSource, o_sawActive := False\<rparr>) ?m2"
  have run: "\<not> m_stopping ?m0" using assms(2) by (simp add: mon_fields OnStateChanged_def)
  have t: "tracker_inv (m_sessionStates ?m0)" using i2 by (simp add: mon_inv_def sess_ok_def mon_fields)
  have eq: "processObserverState now ?i ?m2 =
      processSettled now (o_pendingSource ?ob2) ?ob2 (processPulse now ?ob2 ?m0)"
    using f2 saw run assms(5) by (simp add: processObserverState_def Let_def)
  let ?m3 = "processPulse now ?ob2 ?m0"
  have act: "0 < tr_activeCount (m_sessionStates ?m3)"
    using tr_activeCount_pos [OF processPulse_states(2) [OF t, of now ?ob2]]
      processPulse_states(1) [OF t, of now ?ob2]
    by (auto simp: tr_activeCount_def active_set_upd)
  have dec: "decided ?m3"
  proof (cases rule: processPulse_cases [of now ?ob2 ?m0])
    case changed
    then show ?thesis by (simp add: evaluate_decided)
  next
    case same
    then show ?thesis using i2 by (simp add: mon_inv_def decided_def mon_fields)
  qed
  have on: "micRequested ?m3" "m_inactiveDeadlineTick ?m3 = 0"
    using act dec by (auto simp: decided_def)
  have "grace_step now ?m3 (processSettled now (o_pendingSource ?ob2) ?ob2 ?m3)"
    by (rule processSettled_grace) simp_all
  then have "micRequested (processObserverState now ?i ?m2)"
    using on unfolding eq grace_step_def by auto
  then show ?thesis by simp
qed

text \<open>
  C10. One \<open>reconcile\<close> makes the monitor agree with Windows, whatever callbacks were missed: if
  every session can be queried, afterwards each session kept is in the state Windows reports,
  the tracker holds exactly these sessions in these states, the expired ones are gone, and
  the request is on if any session is active.
\<close>

theorem reconcile_converges:
  assumes inv: "mon_inv m" and run: "m_initialized m" "\<not> m_stopping m"
    and total: "\<forall>s. getState env s \<noteq> None"
  shows "(\<forall>ob\<in>set (m_sessions (reconcile now env m)).
       getState env (o_control ob) = Some (o_state ob) \<and> o_state ob \<noteq> AudioSessionStateExpired) \<and>
    tr_map (m_sessionStates (reconcile now env m)) =
      map_of (map (\<lambda>ob. (o_key ob, toTrackerState (o_state ob))) (m_sessions (reconcile now env m))) \<and>
    map o_control (m_sessions (reconcile now env m)) =
      filter (\<lambda>s. getState env s \<noteq> Some AudioSessionStateExpired)
        (map o_control (m_sessions (drainPendingSessions now env m))) \<and>
    ((\<exists>ob\<in>set (m_sessions (reconcile now env m)). o_state ob = AudioSessionStateActive) \<longrightarrow>
       micRequested (reconcile now env m))"
proof -
  let ?d = "drainPendingSessions now env m" and ?m' = "reconcile now env m"
  let ?ids = "map o_id (m_sessions ?d)"
  have d_inv: "mon_inv ?d" by (rule drain_inv [OF inv])
  then have ids: "distinct ?ids" by (simp add: mon_inv_def sess_ok_def)
  have "m_sessions (fold (pass now env) ?ids ?d) = map (settle env) (m_sessions ?d)"
    using fold_pass_sessions [OF ids total ids] by simp
  then have ss: "m_sessions ?m' =
      filter (\<lambda>ob. o_state ob \<noteq> AudioSessionStateExpired) (map (settle env) (m_sessions ?d))"
    using run by (simp add: reconcile_def Let_def cleanupExpiredSessions_def mon_fields)
  have got: "getState env c = Some (the (getState env c))" for c using total by auto
  have inv': "mon_inv ?m'" by (rule reconcile_inv [OF inv])
  have "\<not> m_stopping ?m'"
    using run by (simp add: reconcile_def Let_def cleanupExpiredSessions_def mon_fields
        fold_fields [of m_stopping])
  then have map: "tr_map (m_sessionStates ?m') =
      map_of (map (\<lambda>ob. (o_key ob, toTrackerState (o_state ob))) (m_sessions ?m'))"
    using inv' ss by (intro tr_map_of_sessions [of _ _ "nextObserver ?m'"]) (auto simp: mon_inv_def)
  have "micRequested ?m'"
    if ob: "ob \<in> set (m_sessions ?m')" "o_state ob = AudioSessionStateActive" for ob
  proof -
    have "distinct (map fst (map (\<lambda>ob. (o_key ob, toTrackerState (o_state ob))) (m_sessions ?m')))"
      using inv' by (simp add: mon_inv_def sess_ok_def comp_def)
    then have "tr_map (m_sessionStates ?m') (o_key ob) = Some Active"
      using ob unfolding map by (force intro: map_of_is_SomeI)
    then have "active_set (tr_map (m_sessionStates ?m')) \<noteq> {}" by (auto simp: active_set_mem)
    then show ?thesis
      using mon_active_iff [OF inv'] inv' by (auto simp: mon_inv_def decided_def)
  qed
  moreover have "map o_control (m_sessions ?m') = filter (\<lambda>s. getState env s \<noteq> Some AudioSessionStateExpired)
        (map o_control (m_sessions ?d))"
  proof -
    have "getState env c \<noteq> Some AudioSessionStateExpired \<longleftrightarrow> the (getState env c) \<noteq> AudioSessionStateExpired"
      for c using got [of c] by (metis option.sel)
    then show ?thesis unfolding ss by (simp add: filter_map comp_def)
  qed
  moreover have "\<forall>ob\<in>set (m_sessions ?m'). getState env (o_control ob) = Some (o_state ob) \<and>
      o_state ob \<noteq> AudioSessionStateExpired"
    using got unfolding ss by auto
  ultimately show ?thesis using map by blast
qed

text \<open>
  C11. The request does go off: with demand mode on, if Windows reports no active session, two
  reconciliations at least 400 ms apart switch it off, whatever the state before the first.
\<close>

theorem request_goes_off:
  assumes "mon_inv m" "m_initialized m" "\<not> m_stopping m" "demandMode m"
    and "m_inactiveDeadlineTick m \<le> t + 400"
    and "\<forall>s. getState env s \<noteq> None \<and> getState env s \<noteq> Some AudioSessionStateActive"
    and "t + 400 \<le> t'"
  shows "\<not> micRequested (reconcile t' env (reconcile t env m))"
proof -
  have env: "quiet_env env" "\<forall>s. getState env s \<noteq> None" using assms(6) by (auto simp: quiet_env_def)
  have run: "m_initialized (reconcile t env m)" "\<not> m_stopping (reconcile t env m)"
    using assms(2,3) by (simp_all add: reconcile_def Let_def cleanupExpiredSessions_def mon_fields
        fold_fields [of m_stopping] fold_fields [of m_initialized])
  have "quiet_off (t + kDeactivateGraceMs) (reconcile t env m)"
    by (rule reconcile_starts_grace) (use assms env in \<open>auto simp: kDeactivateGraceMs_def\<close>)
  then show ?thesis
    by (rule reconcile_quiet(2) [OF _ env(1) run]) (use assms(7) in \<open>simp add: kDeactivateGraceMs_def\<close>)
qed

section \<open>Witnesses\<close>

definition ready_monitor :: "(nat, nat) monitor" where
  "ready_monitor = \<lparr>m_sessions = [], m_sessionStates = tracker_new, m_inactiveDeadlineTick = 0,
     m_activeSessionCount = 0, m_trackedSessionCount = 0, m_reconciliationCorrections = 0,
     m_pendingSessions = [5], m_initialized = True, m_stopping = False, m_wakeEvent = Some False,
     micRequested = False, demandMode = True, micOnTick = 0, nextObserver = 0\<rparr>"

definition env_of :: "AudioSessionState \<Rightarrow> (nat, nat) com_env" where
  "env_of st = \<lparr>sessionKey = id, registrationOk = \<lambda>_. True, getState = \<lambda>_. Some st\<rparr>"

lemma ready_inv: "mon_inv ready_monitor"
  by (auto simp: mon_inv_def sess_ok_def decided_def ready_monitor_def inv_intros)
     (simp_all add: tracker_new_def tr_activeCount_def tr_trackedCount_def)

definition busy_ops :: "(nat \<times> (nat, nat) mon_op) list" where
  "busy_ops = [(0, RegisterSession (env_of AudioSessionStateInactive) 5),
     (1, StateChanged 0 AudioSessionStateActive), (2, ProcessOne 0),
     (3, StateChanged 0 AudioSessionStateInactive), (4, ProcessOne 0), (100, EvaluateNow)]"

theorem request_off_after_grace_witness:
  "\<exists>pre mid. busy_ops = pre @ mid \<and> mid \<noteq> [] \<and> fst (hd mid) + 400 \<le> (404::nat)"
proof -
  have "micRequested (mon_run busy_ops ready_monitor)"
    "\<not> micRequested (mon_run (busy_ops @ [(404, EvaluateNow)]) ready_monitor)"
    by code_simp+
  then show ?thesis
    using request_off_after_grace [OF ready_inv, of busy_ops 404 EvaluateNow]
    by (auto simp: ready_monitor_def)
qed

lemma registered:
  "m_sessions (reconcile 0 (env_of AudioSessionStateInactive) ready_monitor) =
    [\<lparr>o_id = 0, o_control = 5, o_key = 5, o_state = AudioSessionStateInactive,
      o_pendingSource = NoSource, o_sawActive = False, o_owner = True, o_registered = True\<rparr>]"
  by code_simp

theorem pulse_is_not_lost_witness:
  "micRequested (mon_run [(7, StateChanged 0 AudioSessionStateActive),
    (8, StateChanged 0 AudioSessionStateInactive), (9, ProcessOne 0)]
      (reconcile 0 (env_of AudioSessionStateInactive) ready_monitor))"
proof -
  have "\<not> m_stopping (reconcile 0 (env_of AudioSessionStateInactive) ready_monitor)" by code_simp
  from pulse_is_not_lost [OF reconcile_inv [OF ready_inv] this, of _ AudioSessionStateInactive 7 8 9]
  show ?thesis unfolding registered by auto
qed

theorem reconcile_converges_witness:
  "micRequested (reconcile 3 (env_of AudioSessionStateActive) ready_monitor)"
proof -
  have "map o_state (m_sessions (reconcile 3 (env_of AudioSessionStateActive) ready_monitor)) =
      [AudioSessionStateActive]"
    by code_simp
  then have "\<exists>ob\<in>set (m_sessions (reconcile 3 (env_of AudioSessionStateActive) ready_monitor)).
      o_state ob = AudioSessionStateActive"
    by auto
  then show ?thesis
    using reconcile_converges [OF ready_inv, of "env_of AudioSessionStateActive" 3]
    by (auto simp: ready_monitor_def env_of_def)
qed

theorem request_goes_off_witness:
  "micRequested (reconcile 3 (env_of AudioSessionStateActive) ready_monitor) \<and>
   \<not> micRequested (reconcile 405 (env_of AudioSessionStateInactive)
     (reconcile 5 (env_of AudioSessionStateInactive)
       (reconcile 3 (env_of AudioSessionStateActive) ready_monitor)))"
proof
  let ?m = "reconcile 3 (env_of AudioSessionStateActive) ready_monitor"
  show "micRequested ?m" by code_simp
  have "m_initialized ?m" "\<not> m_stopping ?m" "demandMode ?m" "m_inactiveDeadlineTick ?m = 0"
    by code_simp+
  then show "\<not> micRequested (reconcile 405 (env_of AudioSessionStateInactive)
     (reconcile 5 (env_of AudioSessionStateInactive) ?m))"
    by (intro request_goes_off reconcile_inv ready_inv) (simp_all add: env_of_def)
qed

end
