(* ===== verification/Dpdfnet_Processor.thy ===== *)
theory Dpdfnet_Processor
  imports Tagged_Block_Queue "HOL-Library.Sublist"
begin

text \<open>
  \<open>src/dsp/dpdfnet_processor.h\<close> and \<open>.cpp\<close>, in the build with \<open>VOXMIC_ENABLE_DPDFNET\<close> and without the
  test hooks: the denoiser that runs in a thread of its own and exchanges blocks of 480 samples with the
  render thread over two queues.

  What sherpa-onnx and Windows answer is an argument: \<open>run\<close> maps the blocks the session was fed since its
  last reset, and the next block, to the audio it returns; the answers of one \<open>prepare\<close> are the record
  \<open>load_env\<close>. The state is \<open>Impl\<close>, with the worker thread's position in \<open>workerLoop\<close>; the measured
  processing time (\<open>workerProcUsEma\<close>) and the log lines are left out. A wait does not restrict when the
  worker goes on, so it is no step of the model.
\<close>

section \<open>State\<close>

record 'a audio =
  a_sample_rate :: int
  a_n :: int
  a_samples :: "'a list option"

record 'a sherpa =
  run :: "'a list list \<Rightarrow> 'a list \<Rightarrow> 'a audio option"
  finite_sample :: "'a \<Rightarrow> bool"

text \<open>Where the worker stands in \<open>workerLoop\<close>; the thread is not joinable at \<open>NoThread\<close>.\<close>

datatype 'a wpc = NoThread | WWarmup | WTop | WPop | WGot "'a block" | WMatch "'a block" | WRun "'a block"
  | WRan "'a audio option" | WDrain | WExited

definition QUEUE_CAPACITY :: nat where "QUEUE_CAPACITY = 32"
definition FIFO_CAPACITY :: nat where "FIFO_CAPACITY = DPDFNET_BLOCK_SAMPLES * 64"
definition MAX_OUTPUT_SAMPLES :: nat where "MAX_OUTPUT_SAMPLES = DPDFNET_BLOCK_SAMPLES * 4"

text \<open>
  \<open>denoiser\<close> is the session: the blocks it was fed since its last reset. An event is its signalled state.
\<close>

record 'a impl =
  prepareError :: string
  api_module :: bool
  denoiser :: "'a list list option"
  w_pc :: "'a wpc"
  stopRequested :: bool
  wakeEvent :: "bool option"
  readyEvent :: "bool option"
  ready :: bool
  failed :: bool
  workerExited :: bool
  workerAbandoned :: bool
  requestedEpoch :: u64
  workerEpoch :: u64
  inputQueue :: "'a block_queue"
  outputQueue :: "'a block_queue"
  outputFifo :: "'a list"
  outputFifoCount :: nat
  expectedSampleRate :: int
  inputDrops :: u64
  outputDrops :: u64
  outputUnderflows :: u64

definition impl_new :: "'a::zero impl" where
  "impl_new = \<lparr>prepareError = '''', api_module = False, denoiser = None, w_pc = NoThread, stopRequested = False,
     wakeEvent = None, readyEvent = None, ready = False, failed = False, workerExited = False,
     workerAbandoned = False, requestedEpoch = 1, workerEpoch = 1, inputQueue = tq_new QUEUE_CAPACITY,
     outputQueue = tq_new QUEUE_CAPACITY, outputFifo = replicate FIFO_CAPACITY 0, outputFifoCount = 0,
     expectedSampleRate = 48000, inputDrops = 0, outputDrops = 0, outputUnderflows = 0\<rparr>"

section \<open>The worker\<close>

definition signalWorker :: "'a impl \<Rightarrow> 'a impl" where
  "signalWorker s = s\<lparr>wakeEvent := map_option (\<lambda>_. True) (wakeEvent s)\<rparr>"

definition failWorker :: "'a impl \<Rightarrow> 'a impl" where
  "failWorker s = signalWorker (s\<lparr>failed := True, ready := False\<rparr>)"

text \<open>\<open>validAudio\<close>; the array of an audio holds \<open>n\<close> samples.\<close>

definition validAudio :: "'a sherpa \<Rightarrow> int \<Rightarrow> 'a audio option \<Rightarrow> bool" where
  "validAudio A rate audio = (case audio of None \<Rightarrow> False
     | Some a \<Rightarrow>
         \<not> (a_sample_rate a \<noteq> rate \<or> a_n a < 0 \<or> int MAX_OUTPUT_SAMPLES < a_n a \<or> (0 < a_n a \<and> a_samples a = None)) \<and>
         list_all (finite_sample A) (take (nat (a_n a)) (case a_samples a of None \<Rightarrow> [] | Some xs \<Rightarrow> xs)))"

definition audio_samples :: "'a audio \<Rightarrow> 'a list" where
  "audio_samples a = take (nat (a_n a)) (case a_samples a of None \<Rightarrow> [] | Some xs \<Rightarrow> xs)"

definition resetWorkerState :: "u64 \<Rightarrow> 'a impl \<Rightarrow> 'a impl" where
  "resetWorkerState ep s = s\<lparr>denoiser := map_option (\<lambda>_. []) (denoiser s), workerEpoch := ep, outputFifoCount := 0\<rparr>"

text \<open>The two loops of \<open>appendOutput\<close>: the copy into the FIFO, and one round of its drain.\<close>

function append_copy :: "'a list \<Rightarrow> 'a impl \<Rightarrow> 'a impl" where
  "append_copy smp s =
     (if smp = [] then s
      else let freeSpace = FIFO_CAPACITY - outputFifoCount s
           in if freeSpace = 0 then s\<lparr>outputDrops := outputDrops s + 1, outputFifoCount := 0\<rparr>
              else let copyCount = min freeSpace (length smp)
                   in append_copy (drop copyCount smp)
                        (s\<lparr>outputFifo := blit (outputFifo s) (outputFifoCount s) (take copyCount smp),
                           outputFifoCount := outputFifoCount s + copyCount\<rparr>))"
  by auto
termination
  by (relation "measure (\<lambda>(smp, s). length smp)") auto

definition drain_block :: "u64 \<Rightarrow> 'a impl \<Rightarrow> 'a impl" where
  "drain_block ep s =
     (let (pushed, q) = tq_push (outputQueue s) (ep, take DPDFNET_BLOCK_SAMPLES (outputFifo s));
          s = s\<lparr>outputQueue := q\<rparr>;
          s = (if pushed then s else s\<lparr>outputDrops := outputDrops s + 1\<rparr>);
          n = outputFifoCount s - DPDFNET_BLOCK_SAMPLES
      in s\<lparr>outputFifoCount := n,
           outputFifo := blit (outputFifo s) 0 (take n (drop DPDFNET_BLOCK_SAMPLES (outputFifo s)))\<rparr>)"

function drain :: "u64 \<Rightarrow> 'a impl \<Rightarrow> 'a impl" where
  "drain ep s = (if DPDFNET_BLOCK_SAMPLES \<le> outputFifoCount s then drain ep (drain_block ep s) else s)"
  by auto
termination
  by (relation "measure (\<lambda>(ep, s). outputFifoCount s)")
     (auto simp: drain_block_def DPDFNET_BLOCK_SAMPLES_def Let_def split: prod.splits)

declare append_copy.simps [simp del] drain.simps [simp del]

definition appendOutput :: "'a list \<Rightarrow> u64 \<Rightarrow> 'a impl \<Rightarrow> 'a impl" where
  "appendOutput smp ep s = (if smp = [] then s else drain ep (append_copy smp s))"

text \<open>
  One step of the worker, from one access of shared state to the next. \<open>appendOutput\<close> is its copy, then a
  step for every block pushed.
\<close>

definition worker_step :: "'a::zero sherpa \<Rightarrow> 'a impl \<Rightarrow> 'a impl" where
  "worker_step A s = (case w_pc s of
     NoThread \<Rightarrow> s
   | WWarmup \<Rightarrow>
       (let audio = run A [] (replicate DPDFNET_BLOCK_SAMPLES 0);
            s = (if audio \<noteq> None \<and> \<not> validAudio A (expectedSampleRate s) audio then failWorker s else s);
            s = (if \<not> failed s then s\<lparr>denoiser := Some [], workerEpoch := requestedEpoch s\<rparr>
                 else s\<lparr>denoiser := Some [replicate DPDFNET_BLOCK_SAMPLES 0]\<rparr>)
        in s\<lparr>ready := \<not> failed s, readyEvent := map_option (\<lambda>_. True) (readyEvent s), w_pc := WTop\<rparr>)
   | WTop \<Rightarrow>
       (if stopRequested s then s\<lparr>workerExited := True, w_pc := WExited\<rparr>
        else if failed s then s
        else (if requestedEpoch s \<noteq> workerEpoch s then resetWorkerState (requestedEpoch s) s else s)\<lparr>w_pc := WPop\<rparr>)
   | WPop \<Rightarrow>
       (case tq_pop (inputQueue s) of
          (None, q) \<Rightarrow> s\<lparr>inputQueue := q, w_pc := WTop\<rparr>
        | (Some b, q) \<Rightarrow> s\<lparr>inputQueue := q, w_pc := WGot b\<rparr>)
   | WGot b \<Rightarrow>
       (if failed s \<or> epoch b < workerEpoch s then s\<lparr>w_pc := WTop\<rparr>
        else if workerEpoch s < epoch b then
          (if epoch b < requestedEpoch s then s\<lparr>w_pc := WTop\<rparr>
           else (resetWorkerState (epoch b) s)\<lparr>w_pc := WMatch b\<rparr>)
        else s\<lparr>w_pc := WMatch b\<rparr>)
   | WMatch b \<Rightarrow>
       (if epoch b \<noteq> workerEpoch s \<or> requestedEpoch s \<noteq> workerEpoch s then s\<lparr>w_pc := WTop\<rparr> else s\<lparr>w_pc := WRun b\<rparr>)
   | WRun b \<Rightarrow>
       (let h = (case denoiser s of None \<Rightarrow> [] | Some h \<Rightarrow> h)
        in s\<lparr>denoiser := Some (h @ [samples b]), w_pc := WRan (run A h (samples b))\<rparr>)
   | WRan audio \<Rightarrow>
       (case audio of
          None \<Rightarrow> s\<lparr>w_pc := WTop\<rparr>
        | Some a \<Rightarrow>
            if \<not> validAudio A (expectedSampleRate s) audio then (failWorker s)\<lparr>w_pc := WTop\<rparr>
            else if requestedEpoch s \<noteq> workerEpoch s then s\<lparr>w_pc := WTop\<rparr>
            else if audio_samples a = [] then s\<lparr>w_pc := WTop\<rparr>
            else (append_copy (audio_samples a) s)\<lparr>w_pc := WDrain\<rparr>)
   | WDrain \<Rightarrow>
       (if DPDFNET_BLOCK_SAMPLES \<le> outputFifoCount s then drain_block (workerEpoch s) s else s\<lparr>w_pc := WTop\<rparr>)
   | WExited \<Rightarrow> s)"

section \<open>The render thread's operations\<close>

definition isReady :: "'a impl \<Rightarrow> bool" where
  "isReady s \<longleftrightarrow> ready s \<and> \<not> failed s \<and> \<not> workerAbandoned s"

definition hasFailed :: "'a impl \<Rightarrow> bool" where
  "hasFailed s \<longleftrightarrow> failed s \<or> workerAbandoned s"

definition setEpoch :: "u64 \<Rightarrow> 'a impl \<Rightarrow> 'a impl" where
  "setEpoch ep s =
     (if \<not> ready s \<or> failed s then s
      else let s = s\<lparr>requestedEpoch := ep\<rparr>; s = s\<lparr>outputQueue := tq_discardAll (outputQueue s)\<rparr> in signalWorker s)"

definition submit :: "u64 \<Rightarrow> 'a list \<Rightarrow> 'a impl \<Rightarrow> 'a impl" where
  "submit ep inp s =
     (let (pushed, q) = tq_push (inputQueue s) (ep, inp);
          s = s\<lparr>inputQueue := q\<rparr>;
          s = (if pushed then s else s\<lparr>inputDrops := inputDrops s + 1\<rparr>)
      in signalWorker s)"

text \<open>The loop over the output queue, which holds less than \<open>QUEUE_CAPACITY\<close> blocks (see \<open>collect_total\<close>).\<close>

fun collect :: "nat \<Rightarrow> u64 \<Rightarrow> 'a impl \<Rightarrow> ('a list option \<times> 'a impl) option" where
  "collect 0 ep s = None"
| "collect (Suc n) ep s = (case tq_pop (outputQueue s) of
     (None, q) \<Rightarrow> Some (None, s\<lparr>outputQueue := q, outputUnderflows := outputUnderflows s + 1\<rparr>)
   | (Some b, q) \<Rightarrow>
       (if epoch b = ep then Some (Some (take DPDFNET_BLOCK_SAMPLES (samples b)), s\<lparr>outputQueue := q\<rparr>)
        else collect n ep (s\<lparr>outputQueue := q\<rparr>)))"

text \<open>\<open>processBlock\<close>: its answer, the contents of \<open>output\<close>, and the state.\<close>

definition processBlock ::
  "'a::zero list \<Rightarrow> 'a list \<Rightarrow> u64 \<Rightarrow> 'a impl \<Rightarrow> (bool \<times> 'a list \<times> 'a impl) option" where
  "processBlock inp out ep s =
     (if length out < DPDFNET_BLOCK_SAMPLES \<or> length inp < DPDFNET_BLOCK_SAMPLES then Some (False, out, s)
      else let silence = blit out 0 (replicate DPDFNET_BLOCK_SAMPLES 0)
           in if \<not> ready s \<or> failed s then Some (False, silence, s)
              else do {
                (got, s') \<leftarrow> collect QUEUE_CAPACITY ep (submit ep inp (s\<lparr>requestedEpoch := ep\<rparr>));
                case got of None \<Rightarrow> Some (False, silence, s') | Some smp \<Rightarrow> Some (True, blit silence 0 smp, s')
              })"

text \<open>
  The queue holds fewer blocks than the loop of \<open>collect\<close> has rounds, so \<open>processBlock\<close> returns.
\<close>

lemma tq_pop_None: "tq_inv q \<Longrightarrow> tq_pop q = (None, q') \<Longrightarrow> q' = q \<and> tq_contents q = []"
  by (auto simp: tq_pop_def tq_contents_def tq_len_def tq_inv_def ring_dist_same split: if_splits)

lemma tq_pop_Some:
  assumes "tq_inv q" "tq_pop q = (Some b, q')"
  shows "tq_contents q = b # tq_contents q'" "tq_inv q'" "length (m_blocks q') = length (m_blocks q)"
proof -
  have n: "0 < tq_len q"
    using assms ring_dist_0_iff [of "m_read q" "length (m_blocks q)" "m_write q"]
    by (auto simp: tq_pop_def tq_len_def tq_inv_def split: if_splits)
  have "tq_get q () = (Some [b], q')" using assms(2) by (simp add: tq_get_def)
  note g = tq_get_some [OF assms(1) n, unfolded this fst_conv snd_conv option.inject]
  show "tq_inv q'" "length (m_blocks q') = length (m_blocks q)" by (fact g)+
  show "tq_contents q = b # tq_contents q'"
    using g(1,3) by (metis append_Cons append_Nil append_take_drop_id)
qed

lemma tq_push_cases:
  assumes "tq_inv q" "tq_push q (ep, smp) = (ok, q')"
  shows "tq_inv q'" "length (m_blocks q') = length (m_blocks q)"
    "tq_contents q' = tq_contents q @ (if ok then [\<lparr>epoch = ep, samples = take DPDFNET_BLOCK_SAMPLES smp\<rparr>] else [])"
  using assms tq_push_refused [of q "(ep, smp)"] tq_push_accepted [of q "(ep, smp)"] tq_len_bound [of q]
  by (cases "tq_ok (ep, smp) \<and> tq_len q < tq_bound q"; auto simp: tq_payload_def)+

lemma tq_discard_contents: "tq_inv q \<Longrightarrow> tq_contents (tq_discardAll q) = [] \<and> tq_inv (tq_discardAll q)"
  by (auto simp: tq_discardAll_def tq_inv_def tq_contents_def tq_len_def ring_dist_same)

lemma collect_total:
  "tq_inv (outputQueue s) \<Longrightarrow> length (tq_contents (outputQueue s)) < n \<Longrightarrow> collect n ep s \<noteq> None"
proof (induction n arbitrary: s)
  case (Suc n)
  show ?case
  proof (cases "tq_pop (outputQueue s)")
    case (Pair r q)
    then show ?thesis using Suc tq_pop_Some [of "outputQueue s"] by (cases r) auto
  qed
qed simp

lemma processBlock_total:
  assumes "tq_inv (outputQueue s)" "length (m_blocks (outputQueue s)) = QUEUE_CAPACITY"
  shows "processBlock inp out ep s \<noteq> None"
proof -
  let ?s = "submit ep inp (s\<lparr>requestedEpoch := ep\<rparr>)"
  have "outputQueue ?s = outputQueue s" by (auto simp: submit_def signalWorker_def Let_def split: prod.splits)
  moreover have "length (tq_contents (outputQueue s)) < QUEUE_CAPACITY" using tq_len_less [OF assms(1)] assms(2) by simp
  ultimately have "collect QUEUE_CAPACITY ep ?s \<noteq> None" using assms by (intro collect_total) auto
  then show ?thesis by (auto simp: processBlock_def Let_def split: option.splits)
qed

section \<open>Starting and stopping\<close>

text \<open>
  \<open>stopWorker\<close>: in the time it waits the worker makes \<open>n\<close> more steps. A worker that has not left its loop by
  then is abandoned, with everything it may still use.
\<close>

definition stopWorker :: "'a::zero sherpa \<Rightarrow> nat \<Rightarrow> 'a impl \<Rightarrow> 'a impl" where
  "stopWorker A n s =
     (if workerAbandoned s then s
      else let s = signalWorker (s\<lparr>ready := False, stopRequested := True\<rparr>);
               joinable = (w_pc s \<noteq> NoThread);
               s = (if joinable then (worker_step A ^^ n) s else s)
           in if joinable \<and> \<not> workerExited s then s\<lparr>workerAbandoned := True\<rparr>
              else s\<lparr>w_pc := NoThread, readyEvent := None, wakeEvent := None,
                denoiser := (if api_module s then None else denoiser s), ready := False, api_module := False\<rparr>)"

definition releaseSession :: "'a::zero sherpa \<Rightarrow> nat \<Rightarrow> 'a impl \<Rightarrow> 'a impl" where
  "releaseSession A n s = stopWorker A n s"

definition joinPath :: "string \<Rightarrow> string \<Rightarrow> string" where
  "joinPath base leaf = (if base = '''' then leaf
     else if last base = CHR 0x5C \<or> last base = CHR ''/'' then base @ leaf
     else base @ [CHR 0x5C] @ leaf)"

record load_env =
  le_fullPath :: "string \<Rightarrow> string option"
  le_isRegularFile :: "string \<Rightarrow> bool"
  le_loadLibrary :: "string \<Rightarrow> bool"
  le_lastError :: string
  le_symbol :: "string \<Rightarrow> bool"
  le_utf8 :: "string \<Rightarrow> string"
  le_create :: "string \<Rightarrow> bool"
  le_sampleRate :: int
  le_frameShift :: int
  le_mismatch :: string
  le_wakeEvent :: bool
  le_readyEvent :: bool
  le_stop_before :: nat
  le_warmup :: nat
  le_stop_after :: nat

text \<open>\<open>makeAbsolutePath\<close>: \<open>GetFullPathNameW\<close> is asked again with a larger buffer until the answer fits.\<close>

definition makeAbsolutePath :: "load_env \<Rightarrow> string \<Rightarrow> string option" where
  "makeAbsolutePath L path = (if path = '''' then None else le_fullPath L path)"

definition api_symbols :: "string list" where
  "api_symbols = [''SherpaOnnxCreateOnlineSpeechDenoiser'', ''SherpaOnnxDestroyOnlineSpeechDenoiser'',
     ''SherpaOnnxOnlineSpeechDenoiserGetSampleRate'', ''SherpaOnnxOnlineSpeechDenoiserGetFrameShiftInSamples'',
     ''SherpaOnnxOnlineSpeechDenoiserRun'', ''SherpaOnnxOnlineSpeechDenoiserReset'', ''SherpaOnnxDestroyDenoisedAudio'']"

text \<open>The files that must be there, in the order they are looked for, and the error when one is missing.\<close>

definition missing_file :: "load_env \<Rightarrow> string \<Rightarrow> string \<Rightarrow> string" where
  "missing_file L dir model =
     (if \<not> le_isRegularFile L (joinPath dir ''sherpa-onnx-c-api.dll'') then ''Missing sherpa-onnx-c-api.dll''
      else if \<not> le_isRegularFile L (joinPath dir ''onnxruntime.dll'') then ''Missing onnxruntime.dll''
      else if \<not> le_isRegularFile L (joinPath dir ''onnxruntime_providers_shared.dll'') then
        ''Missing onnxruntime_providers_shared.dll''
      else if \<not> le_isRegularFile L model then ''Missing DPDFNet model''
      else '''')"

definition fail_with :: "string \<Rightarrow> 'a impl \<Rightarrow> bool \<times> string \<times> 'a impl" where
  "fail_with msg s = (False, msg, s\<lparr>prepareError := msg\<rparr>)"

text \<open>
  \<open>prepare\<close>: its answer, the message it leaves in \<open>errorMessage\<close>, and the state. The texts built with
  \<open>snprintf\<close> are arguments (\<open>le_lastError\<close>, \<open>le_mismatch\<close>). First its last part, the start of the worker,
  then the creation of the session.
\<close>

definition start_worker :: "'a::zero sherpa \<Rightarrow> load_env \<Rightarrow> 'a impl \<Rightarrow> bool \<times> string \<times> 'a impl" where
  "start_worker A L s =
     (let s = s\<lparr>workerExited := False, requestedEpoch := 1, workerEpoch := 1, stopRequested := False, w_pc := WWarmup\<rparr>;
          s = (worker_step A ^^ le_warmup L) s;
          signalled = (readyEvent s = Some True)
      in if \<not> signalled \<or> failed s then
           (let msg = (if \<not> signalled then ''DPDFNet worker warm-up timed out'' else ''DPDFNet worker warm-up failed'')
            in (False, msg, stopWorker A (le_stop_after L) (s\<lparr>prepareError := msg\<rparr>)))
         else (True, '''', s\<lparr>ready := True\<rparr>))"

definition create_session :: "'a::zero sherpa \<Rightarrow> load_env \<Rightarrow> string \<Rightarrow> int \<Rightarrow> int \<Rightarrow> 'a impl \<Rightarrow> bool \<times> string \<times> 'a impl" where
  "create_session A L model rate shift s =
     (let utf8 = le_utf8 L model; gone = s\<lparr>api_module := False\<rparr>
      in if utf8 = '''' then fail_with ''Could not convert DPDFNet model path to UTF-8'' gone
         else if \<not> le_create L utf8 then fail_with ''sherpa-onnx failed to create the DPDFNet session'' gone
         else let s = s\<lparr>denoiser := Some []\<rparr>
              in if le_sampleRate L \<noteq> rate \<or> le_frameShift L \<noteq> shift then
                   (False, le_mismatch L, stopWorker A (le_stop_after L) (s\<lparr>prepareError := le_mismatch L\<rparr>))
                 else let s = s\<lparr>wakeEvent := (if le_wakeEvent L then Some False else None),
                                readyEvent := (if le_readyEvent L then Some False else None)\<rparr>
                      in if \<not> le_wakeEvent L \<or> \<not> le_readyEvent L then
                           (let msg = ''Could not create DPDFNet worker events''
                            in (False, msg, stopWorker A (le_stop_after L) (s\<lparr>prepareError := msg\<rparr>)))
                         else start_worker A L s)"

definition load_session ::
  "'a::zero sherpa \<Rightarrow> load_env \<Rightarrow> string \<Rightarrow> string \<Rightarrow> int \<Rightarrow> int \<Rightarrow> 'a impl \<Rightarrow> bool \<times> string \<times> 'a impl" where
  "load_session A L runtimeDirectory modelPath rate shift s =
     (case (makeAbsolutePath L runtimeDirectory, makeAbsolutePath L modelPath) of
        (Some dir, Some model) \<Rightarrow>
          (if missing_file L dir model \<noteq> '''' then fail_with (missing_file L dir model) s
           else if \<not> le_loadLibrary L (joinPath dir ''sherpa-onnx-c-api.dll'') then fail_with (le_lastError L) s
           else (case find (\<lambda>f. \<not> le_symbol L f) api_symbols of
                   Some f \<Rightarrow> fail_with (''Missing sherpa-onnx API symbol: '' @ f) s
                 | None \<Rightarrow> create_session A L model rate shift (s\<lparr>api_module := True\<rparr>)))
      | _ \<Rightarrow> fail_with ''Could not resolve DPDFNet runtime/model path'' s)"

definition prepare ::
  "'a::zero sherpa \<Rightarrow> load_env \<Rightarrow> string \<Rightarrow> string \<Rightarrow> int \<Rightarrow> int \<Rightarrow> 'a impl \<Rightarrow> bool \<times> string \<times> 'a impl" where
  "prepare A L runtimeDirectory modelPath rate shift s =
     (let abandoned = ''a previous DPDFNet worker could not be stopped; restart required''
      in if workerAbandoned s then fail_with abandoned s
         else let s = stopWorker A (le_stop_before L) s
              in if workerAbandoned s then fail_with abandoned s
                 else load_session A L runtimeDirectory modelPath rate shift
                   (s\<lparr>prepareError := '''', failed := False, ready := False, expectedSampleRate := rate,
                      inputQueue := tq_discardAll (inputQueue s), outputQueue := tq_discardAll (outputQueue s),
                      outputFifoCount := 0, inputDrops := 0, outputDrops := 0, outputUnderflows := 0\<rparr>))"

text \<open>Nothing of a session is left. A session or a thread exists only while the library is loaded.\<close>

definition released :: "'a impl \<Rightarrow> bool" where
  "released s \<longleftrightarrow> \<not> ready s \<and> w_pc s = NoThread \<and> denoiser s = None \<and> wakeEvent s = None \<and> readyEvent s = None \<and> \<not> api_module s"

definition session_ok :: "'a impl \<Rightarrow> bool" where
  "session_ok s \<longleftrightarrow> (denoiser s \<noteq> None \<or> w_pc s \<noteq> NoThread \<longrightarrow> api_module s)"

lemma append_copy_fixes:
  "api_module (append_copy smp s) = api_module s" "denoiser (append_copy smp s) = denoiser s"
  "workerAbandoned (append_copy smp s) = workerAbandoned s" "prepareError (append_copy smp s) = prepareError s"
  by (induction smp s rule: append_copy.induct) (subst append_copy.simps; simp add: Let_def)+

lemma drain_block_fixes:
  "api_module (drain_block ep s) = api_module s" "denoiser (drain_block ep s) = denoiser s"
  "workerAbandoned (drain_block ep s) = workerAbandoned s" "prepareError (drain_block ep s) = prepareError s"
  by (auto simp: drain_block_def Let_def split: prod.splits)

lemma worker_step_fixes:
  "api_module (worker_step A s) = api_module s" "workerAbandoned (worker_step A s) = workerAbandoned s"
  "prepareError (worker_step A s) = prepareError s"
  by (auto simp: worker_step_def Let_def failWorker_def signalWorker_def resetWorkerState_def append_copy_fixes
      drain_block_fixes split: wpc.splits option.splits prod.splits)

lemma worker_steps_fixes:
  "api_module ((worker_step A ^^ n) s) = api_module s" "workerAbandoned ((worker_step A ^^ n) s) = workerAbandoned s"
  "prepareError ((worker_step A ^^ n) s) = prepareError s"
  by (induction n) (simp_all add: worker_step_fixes)

lemma stopWorker_releases:
  assumes "\<not> workerAbandoned s" "session_ok s"
  shows "workerAbandoned (stopWorker A n s) \<or> released (stopWorker A n s)"
    "prepareError (stopWorker A n s) = prepareError s"
  using assms by (auto simp: stopWorker_def Let_def released_def session_ok_def signalWorker_def worker_steps_fixes)

lemma append_copy_queues:
  "inputQueue (append_copy smp s) = inputQueue s" "outputQueue (append_copy smp s) = outputQueue s"
  by (induction smp s rule: append_copy.induct) (subst append_copy.simps; simp add: Let_def)+

lemma drain_block_queues: "inputQueue (drain_block ep s) = inputQueue s"
  by (auto simp: drain_block_def Let_def split: prod.splits)

lemma worker_step_inv:
  "tq_inv (inputQueue s) \<Longrightarrow> tq_inv (inputQueue (worker_step A s))"
  using tq_pop_None [of "inputQueue s"] tq_pop_Some(2) [of "inputQueue s"]
  by (cases "tq_pop (inputQueue s)")
    (auto simp: worker_step_def Let_def failWorker_def signalWorker_def resetWorkerState_def append_copy_queues
      drain_block_queues split: wpc.splits option.splits prod.splits)

lemma worker_steps_inv: "tq_inv (inputQueue s) \<Longrightarrow> tq_inv (inputQueue ((worker_step A ^^ n) s))"
  by (induction n) (simp_all add: worker_step_inv)

lemma stopWorker_inv: "tq_inv (inputQueue s) \<Longrightarrow> tq_inv (inputQueue (stopWorker A n s))"
  by (simp add: stopWorker_def Let_def signalWorker_def worker_steps_inv)

text \<open>While nothing is submitted, the worker has only its warm-up to do.\<close>

definition warm_ok :: "'a::zero sherpa \<Rightarrow> int \<Rightarrow> bool" where
  "warm_ok A rate \<longleftrightarrow> (let a = run A [] (replicate DPDFNET_BLOCK_SAMPLES 0) in a = None \<or> validAudio A rate a)"

definition waiting :: "'a impl \<Rightarrow> bool" where
  "waiting s \<longleftrightarrow> (w_pc s = WTop \<or> w_pc s = WPop) \<and> \<not> stopRequested s \<and> readyEvent s = Some True \<and>
     tq_inv (inputQueue s) \<and> tq_contents (inputQueue s) = [] \<and> requestedEpoch s = workerEpoch s"

lemma waiting_step: "waiting s \<Longrightarrow> waiting (worker_step A s) \<and> failed (worker_step A s) = failed s"
  using tq_pop_None [of "inputQueue s"] tq_pop_Some(1) [of "inputQueue s"]
  by (cases "tq_pop (inputQueue s)"; cases "fst (tq_pop (inputQueue s))")
    (auto simp: waiting_def worker_step_def split: option.splits prod.splits)

lemma waiting_steps: "waiting s \<Longrightarrow> waiting ((worker_step A ^^ n) s) \<and> failed ((worker_step A ^^ n) s) = failed s"
  by (induction n) (simp_all add: waiting_step)

lemma warmup_steps:
  assumes "w_pc s = WWarmup" "\<not> stopRequested s" "readyEvent s = Some False" "\<not> failed s" "tq_inv (inputQueue s)"
    "tq_contents (inputQueue s) = []" "requestedEpoch s = workerEpoch s"
  shows "readyEvent ((worker_step A ^^ n) s) = Some True \<and> \<not> failed ((worker_step A ^^ n) s) \<longleftrightarrow>
    0 < n \<and> warm_ok A (expectedSampleRate s)"
proof (cases n)
  case (Suc k)
  have w: "waiting (worker_step A s)" "failed (worker_step A s) \<longleftrightarrow> \<not> warm_ok A (expectedSampleRate s)"
    using assms by (auto simp: worker_step_def Let_def waiting_def failWorker_def signalWorker_def warm_ok_def)
  have "(worker_step A ^^ n) s = (worker_step A ^^ k) (worker_step A s)" using Suc by (simp add: funpow_swap1)
  then show ?thesis using waiting_steps [OF w(1), of k A] w Suc by (simp add: waiting_def)
qed (use assms in simp)

definition loadable :: "'a::zero sherpa \<Rightarrow> load_env \<Rightarrow> string \<Rightarrow> string \<Rightarrow> int \<Rightarrow> int \<Rightarrow> bool" where
  "loadable A L runtimeDirectory modelPath rate shift =
     (case (makeAbsolutePath L runtimeDirectory, makeAbsolutePath L modelPath) of
        (Some dir, Some model) \<Rightarrow>
          missing_file L dir model = '''' \<and> le_loadLibrary L (joinPath dir ''sherpa-onnx-c-api.dll'') \<and>
          list_all (le_symbol L) api_symbols \<and> le_utf8 L model \<noteq> '''' \<and> le_create L (le_utf8 L model) \<and>
          le_sampleRate L = rate \<and> le_frameShift L = shift \<and> le_wakeEvent L \<and> le_readyEvent L \<and>
          0 < le_warmup L \<and> warm_ok A rate
      | _ \<Rightarrow> False)"

lemma start_worker_result:
  assumes "start_worker A L s = (ok, msg, s')" "readyEvent s = Some False" "\<not> failed s" "tq_inv (inputQueue s)"
    "tq_contents (inputQueue s) = []" "api_module s" "\<not> workerAbandoned s"
  shows "ok \<longleftrightarrow> 0 < le_warmup L \<and> warm_ok A (expectedSampleRate s)"
    "ok \<Longrightarrow> isReady s' \<and> msg = ''''"
    "\<not> ok \<Longrightarrow> msg \<noteq> '''' \<and> prepareError s' = msg \<and> (workerAbandoned s' \<or> released s')"
proof -
  let ?s = "s\<lparr>workerExited := False, requestedEpoch := 1, workerEpoch := 1, stopRequested := False, w_pc := WWarmup\<rparr>"
  let ?w = "(worker_step A ^^ le_warmup L) ?s"
  have w: "readyEvent ?w = Some True \<and> \<not> failed ?w \<longleftrightarrow> 0 < le_warmup L \<and> warm_ok A (expectedSampleRate s)"
    using warmup_steps [of ?s "le_warmup L" A] assms by simp
  have ab: "\<not> workerAbandoned ?w" "api_module ?w" using assms by (simp_all add: worker_steps_fixes)
  show "ok \<longleftrightarrow> 0 < le_warmup L \<and> warm_ok A (expectedSampleRate s)"
    using assms(1) w by (auto simp: start_worker_def Let_def split: if_splits)
  show "ok \<Longrightarrow> isReady s' \<and> msg = ''''"
    using assms(1) ab by (auto simp: start_worker_def Let_def isReady_def split: if_splits)
  assume "\<not> ok"
  then have "s' = stopWorker A (le_stop_after L) (?w\<lparr>prepareError := msg\<rparr>)" "msg \<noteq> ''''"
    using assms(1) by (auto simp: start_worker_def Let_def split: if_splits)
  then show "msg \<noteq> '''' \<and> prepareError s' = msg \<and> (workerAbandoned s' \<or> released s')"
    using stopWorker_releases [where s = "?w\<lparr>prepareError := msg\<rparr>" and A = A and n = "le_stop_after L"] ab by (auto simp: session_ok_def)
qed

text \<open>Before the session exists: released but for the library.\<close>

definition clean :: "'a impl \<Rightarrow> bool" where
  "clean s \<longleftrightarrow> \<not> ready s \<and> \<not> failed s \<and> w_pc s = NoThread \<and> denoiser s = None \<and> wakeEvent s = None \<and> readyEvent s = None \<and>
     \<not> workerAbandoned s \<and> tq_inv (inputQueue s) \<and> tq_contents (inputQueue s) = []"

lemma fail_with_released:
  "clean s \<Longrightarrow> \<not> api_module s \<Longrightarrow> fail_with m s = (ok, msg, s') \<Longrightarrow> \<not> ok \<and> msg = m \<and> prepareError s' = m \<and> released s'"
  by (auto simp: fail_with_def clean_def released_def)

lemma create_session_result:
  assumes "create_session A L model rate shift s = (ok, msg, s')" "clean s" "api_module s" "expectedSampleRate s = rate"
    "le_mismatch L \<noteq> ''''"
  shows "ok \<longleftrightarrow> le_utf8 L model \<noteq> '''' \<and> le_create L (le_utf8 L model) \<and> le_sampleRate L = rate \<and> le_frameShift L = shift \<and>
      le_wakeEvent L \<and> le_readyEvent L \<and> 0 < le_warmup L \<and> warm_ok A rate" (is "ok \<longleftrightarrow> ?conds")
    "ok \<Longrightarrow> isReady s' \<and> msg = ''''"
    "\<not> ok \<Longrightarrow> msg \<noteq> '''' \<and> prepareError s' = msg \<and> (workerAbandoned s' \<or> released s')"
proof -
  let ?e = "\<lambda>s. s\<lparr>wakeEvent := (if le_wakeEvent L then Some False else None),
    readyEvent := (if le_readyEvent L then Some False else None)\<rparr>"
  have gone: "clean (s\<lparr>api_module := False\<rparr>)" using assms(2) by (simp add: clean_def)
  have stop: "workerAbandoned (stopWorker A (le_stop_after L) t) \<or> released (stopWorker A (le_stop_after L) t)"
    "prepareError (stopWorker A (le_stop_after L) t) = prepareError t" if "\<not> workerAbandoned t" "api_module t" for t
    using stopWorker_releases [where s = t and A = A and n = "le_stop_after L"] that by (auto simp: session_ok_def)
  consider (utf8) "le_utf8 L model = ''''" | (create) "le_utf8 L model \<noteq> ''''" "\<not> le_create L (le_utf8 L model)"
    | (contract) "le_utf8 L model \<noteq> ''''" "le_create L (le_utf8 L model)" "le_sampleRate L \<noteq> rate \<or> le_frameShift L \<noteq> shift"
    | (events) "le_utf8 L model \<noteq> ''''" "le_create L (le_utf8 L model)" "le_sampleRate L = rate" "le_frameShift L = shift"
        "\<not> le_wakeEvent L \<or> \<not> le_readyEvent L"
    | (start) "le_utf8 L model \<noteq> ''''" "le_create L (le_utf8 L model)" "le_sampleRate L = rate" "le_frameShift L = shift"
        "le_wakeEvent L" "le_readyEvent L" by blast
  then have "(ok \<longleftrightarrow> ?conds) \<and> (ok \<longrightarrow> isReady s' \<and> msg = '''') \<and>
    (\<not> ok \<longrightarrow> msg \<noteq> '''' \<and> prepareError s' = msg \<and> (workerAbandoned s' \<or> released s'))"
  proof cases
    case start
    then have "start_worker A L (?e (s\<lparr>denoiser := Some []\<rparr>)) = (ok, msg, s')"
      using assms(1) by (simp add: create_session_def Let_def)
    from start_worker_result [OF this] show ?thesis using assms(2-4) start by (simp add: clean_def)
  next
    case contract
    let ?t = "s\<lparr>denoiser := Some [], prepareError := le_mismatch L\<rparr>"
    have r: "\<not> ok" "msg = le_mismatch L" "s' = stopWorker A (le_stop_after L) ?t"
      using assms(1) contract by (auto simp: create_session_def Let_def)
    then show ?thesis using stop [of ?t] assms(2,3,5) contract by (auto simp: clean_def)
  next
    case events
    let ?t = "(?e (s\<lparr>denoiser := Some []\<rparr>))\<lparr>prepareError := ''Could not create DPDFNet worker events''\<rparr>"
    have r: "create_session A L model rate shift s =
        (False, ''Could not create DPDFNet worker events'', stopWorker A (le_stop_after L) ?t)"
      using events by (simp add: create_session_def Let_def)
    note e = trans [OF r [symmetric] assms(1), unfolded prod.inject]
    have "\<not> ok" "msg = ''Could not create DPDFNet worker events''" "s' = stopWorker A (le_stop_after L) ?t"
      using e by blast+
    then show ?thesis using stop [of ?t] assms(2,3) events by (auto simp: clean_def)
  next
    case utf8
    then have "fail_with ''Could not convert DPDFNet model path to UTF-8'' (s\<lparr>api_module := False\<rparr>) = (ok, msg, s')"
      using assms(1) by (simp add: create_session_def Let_def)
    from fail_with_released [OF gone _ this] show ?thesis using utf8 by simp
  next
    case create
    then have "fail_with ''sherpa-onnx failed to create the DPDFNet session'' (s\<lparr>api_module := False\<rparr>) = (ok, msg, s')"
      using assms(1) by (simp add: create_session_def Let_def)
    from fail_with_released [OF gone _ this] show ?thesis using create by simp
  qed
  then show "ok \<longleftrightarrow> ?conds" "ok \<Longrightarrow> isReady s' \<and> msg = ''''"
    "\<not> ok \<Longrightarrow> msg \<noteq> '''' \<and> prepareError s' = msg \<and> (workerAbandoned s' \<or> released s')" by blast+
qed

lemma load_session_result:
  assumes "load_session A L dir model rate shift s = (ok, msg, s')" "clean s" "\<not> api_module s" "expectedSampleRate s = rate"
    "le_mismatch L \<noteq> ''''" "le_lastError L \<noteq> ''''"
  shows "ok \<longleftrightarrow> loadable A L dir model rate shift" "ok \<Longrightarrow> isReady s' \<and> msg = ''''"
    "\<not> ok \<Longrightarrow> msg \<noteq> '''' \<and> prepareError s' = msg \<and> (workerAbandoned s' \<or> released s')"
proof -
  have fail: "\<not> ok \<and> msg = m \<and> prepareError s' = m \<and> released s'" if "fail_with m s = (ok, msg, s')" for m
    using fail_with_released [OF assms(2,3) that] .
  have "(ok \<longleftrightarrow> loadable A L dir model rate shift) \<and> (ok \<longrightarrow> isReady s' \<and> msg = '''') \<and>
    (\<not> ok \<longrightarrow> msg \<noteq> '''' \<and> prepareError s' = msg \<and> (workerAbandoned s' \<or> released s'))"
  proof (cases "makeAbsolutePath L dir"; cases "makeAbsolutePath L model")
    fix d m assume p: "makeAbsolutePath L dir = Some d" "makeAbsolutePath L model = Some m"
    have ld: "loadable A L dir model rate shift \<longleftrightarrow> missing_file L d m = '''' \<and>
      le_loadLibrary L (joinPath d ''sherpa-onnx-c-api.dll'') \<and> list_all (le_symbol L) api_symbols \<and> le_utf8 L m \<noteq> '''' \<and>
      le_create L (le_utf8 L m) \<and> le_sampleRate L = rate \<and> le_frameShift L = shift \<and> le_wakeEvent L \<and> le_readyEvent L \<and>
      0 < le_warmup L \<and> warm_ok A rate"
      by (simp add: loadable_def p)
    show ?thesis
    proof (cases "missing_file L d m = '''' \<and> le_loadLibrary L (joinPath d ''sherpa-onnx-c-api.dll'')")
      case False
      then have "fail_with (if missing_file L d m \<noteq> '''' then missing_file L d m else le_lastError L) s = (ok, msg, s')"
        using assms(1) by (auto simp: load_session_def p split: if_splits)
      from fail [OF this] show ?thesis using ld False assms(6) by auto
    next
      case found: True
      show ?thesis
      proof (cases "find (\<lambda>f. \<not> le_symbol L f) api_symbols")
        case None
        then have "list_all (le_symbol L) api_symbols" by (simp add: find_None_iff list_all_iff)
        moreover have "create_session A L m rate shift (s\<lparr>api_module := True\<rparr>) = (ok, msg, s')"
          using assms(1) found None by (simp add: load_session_def p)
        ultimately show ?thesis
          using create_session_result [of A L m rate shift "s\<lparr>api_module := True\<rparr>" ok msg s'] assms(2,4,5) ld found
          by (simp add: clean_def)
      next
        case (Some f)
        then have "\<not> list_all (le_symbol L) api_symbols" by (auto simp: find_Some_iff list_all_length)
        moreover have "load_session A L dir model rate shift s = fail_with (''Missing sherpa-onnx API symbol: '' @ f) s"
          using found Some by (simp add: load_session_def p)
        ultimately show ?thesis using fail [of "''Missing sherpa-onnx API symbol: '' @ f"] assms(1) ld by simp
      qed
    qed
  qed (use assms(1) fail in \<open>force simp: load_session_def loadable_def\<close>)+
  then show "ok \<longleftrightarrow> loadable A L dir model rate shift" "ok \<Longrightarrow> isReady s' \<and> msg = ''''"
    "\<not> ok \<Longrightarrow> msg \<noteq> '''' \<and> prepareError s' = msg \<and> (workerAbandoned s' \<or> released s')" by blast+
qed


definition good_load :: load_env where
  "good_load = \<lparr>le_fullPath = Some, le_isRegularFile = \<lambda>_. True, le_loadLibrary = \<lambda>_. True, le_lastError = ''e'',
     le_symbol = \<lambda>_. True, le_utf8 = \<lambda>x. x, le_create = \<lambda>_. True, le_sampleRate = 48000, le_frameShift = 480,
     le_mismatch = ''m'', le_wakeEvent = True, le_readyEvent = True, le_stop_before = 0, le_warmup = 3, le_stop_after = 0\<rparr>"

definition echo :: "int sherpa" where
  "echo = \<lparr>run = \<lambda>h x. Some \<lparr>a_sample_rate = 48000, a_n = int (length x), a_samples = Some x\<rparr>, finite_sample = \<lambda>_. True\<rparr>"

lemma echo_valid: "length x \<le> MAX_OUTPUT_SAMPLES \<Longrightarrow> validAudio echo 48000 (run echo h x)"
  by (auto simp: validAudio_def echo_def list_all_iff)


end
