(* ===== verification/Dpdfnet_Epochs.thy ===== *)
theory Dpdfnet_Epochs
  imports Dpdfnet_Processor
begin

text \<open>
  The render thread and the worker of \<open>Dpdfnet_Processor\<close> interleaved, one access of shared state at a time.
  \<open>dp_step\<close> splits \<open>processBlock\<close> and \<open>setEpoch\<close> as \<open>worker_step\<close> splits \<open>workerLoop\<close>; the render thread
  only ever raises its epoch (\<open>DspPipeline\<close> increments it). The system keeps two logs, of the blocks
  submitted and of the blocks handed out, on which nothing depends.

  The theorem: what is handed out for an epoch was computed from blocks of that epoch only.
\<close>

section \<open>The two threads\<close>

datatype 'a rpc = RIdle | RSubmit u64 "'a list" | RCollect u64 | RDiscard

record 'a dsys =
  impl :: "'a impl"
  render :: "'a rpc"
  streamEpoch :: u64
  submitted :: "'a block list"
  handed :: "'a block list"

inductive dp_step :: "'a::zero sherpa \<Rightarrow> 'a dsys \<Rightarrow> 'a dsys \<Rightarrow> bool" for A where
  worker: "dp_step A S (S\<lparr>impl := worker_step A (impl S)\<rparr>)"
| block: "render S = RIdle \<Longrightarrow> streamEpoch S \<le> ep \<Longrightarrow> DPDFNET_BLOCK_SAMPLES \<le> length inp \<Longrightarrow> ready (impl S) \<Longrightarrow> \<not> failed (impl S) \<Longrightarrow>
    dp_step A S (S\<lparr>impl := (impl S)\<lparr>requestedEpoch := ep\<rparr>, render := RSubmit ep inp, streamEpoch := ep\<rparr>)"
| submit: "render S = RSubmit ep inp \<Longrightarrow> tq_push (inputQueue (impl S)) (ep, inp) = (pushed, q) \<Longrightarrow>
    dp_step A S (S\<lparr>impl := submit ep inp (impl S), render := RCollect ep,
      submitted := submitted S @ (if pushed then [\<lparr>epoch = ep, samples = take DPDFNET_BLOCK_SAMPLES inp\<rparr>] else [])\<rparr>)"
| collect_none: "render S = RCollect ep \<Longrightarrow> tq_pop (outputQueue (impl S)) = (None, q) \<Longrightarrow>
    dp_step A S (S\<lparr>impl := (impl S)\<lparr>outputQueue := q, outputUnderflows := outputUnderflows (impl S) + 1\<rparr>, render := RIdle\<rparr>)"
| collect_block: "render S = RCollect ep \<Longrightarrow> tq_pop (outputQueue (impl S)) = (Some b, q) \<Longrightarrow> epoch b = ep \<Longrightarrow>
    dp_step A S (S\<lparr>impl := (impl S)\<lparr>outputQueue := q\<rparr>, render := RIdle, handed := handed S @ [b]\<rparr>)"
| collect_stale: "render S = RCollect ep \<Longrightarrow> tq_pop (outputQueue (impl S)) = (Some b, q) \<Longrightarrow> epoch b \<noteq> ep \<Longrightarrow>
    dp_step A S (S\<lparr>impl := (impl S)\<lparr>outputQueue := q\<rparr>\<rparr>)"
| set_epoch: "render S = RIdle \<Longrightarrow> streamEpoch S \<le> ep \<Longrightarrow> ready (impl S) \<Longrightarrow> \<not> failed (impl S) \<Longrightarrow>
    dp_step A S (S\<lparr>impl := (impl S)\<lparr>requestedEpoch := ep\<rparr>, render := RDiscard, streamEpoch := ep\<rparr>)"
| discard: "render S = RDiscard \<Longrightarrow>
    dp_step A S (S\<lparr>impl := signalWorker ((impl S)\<lparr>outputQueue := tq_discardAll (outputQueue (impl S))\<rparr>), render := RIdle\<rparr>)"
| prepared: "readyEvent (impl S) = Some True \<Longrightarrow> \<not> failed (impl S) \<Longrightarrow> dp_step A S (S\<lparr>impl := (impl S)\<lparr>ready := True\<rparr>\<rparr>)"
| stop: "dp_step A S (S\<lparr>impl := signalWorker ((impl S)\<lparr>ready := False, stopRequested := True\<rparr>)\<rparr>)"

text \<open>As \<open>start_worker\<close> leaves it.\<close>

definition dp_init :: "'a dsys \<Rightarrow> bool" where
  "dp_init S \<longleftrightarrow> w_pc (impl S) = WWarmup \<and> requestedEpoch (impl S) = 1 \<and> workerEpoch (impl S) = 1 \<and> denoiser (impl S) = Some [] \<and> \<not> failed (impl S) \<and>
     tq_inv (inputQueue (impl S)) \<and> tq_contents (inputQueue (impl S)) = [] \<and>
     tq_inv (outputQueue (impl S)) \<and> tq_contents (outputQueue (impl S)) = [] \<and>
     length (outputFifo (impl S)) = FIFO_CAPACITY \<and> outputFifoCount (impl S) = 0 \<and> \<not> ready (impl S) \<and>
     render S = RIdle \<and> 1 \<le> streamEpoch S \<and> submitted S = [] \<and> handed S = []"

inductive dp_reach :: "'a::zero sherpa \<Rightarrow> 'a dsys \<Rightarrow> bool" for A where
  init: "dp_init S \<Longrightarrow> dp_reach A S"
| step: "dp_reach A S \<Longrightarrow> dp_step A S S' \<Longrightarrow> dp_reach A S'"

text \<open>An uninterrupted \<open>processBlock\<close> or \<open>setEpoch\<close> is a run of steps.\<close>

lemma collect_run:
  assumes "collect n ep s = Some (got, s')" "impl S = s" "render S = RCollect ep"
  shows "\<exists>b. (dp_step A)\<^sup>*\<^sup>* S (S\<lparr>impl := s', render := RIdle, handed := handed S @ b\<rparr>) \<and>
    (case got of None \<Rightarrow> b = [] | Some smp \<Rightarrow> \<exists>x. b = [x] \<and> epoch x = ep \<and> take DPDFNET_BLOCK_SAMPLES (samples x) = smp)"
  using assms
proof (induction n arbitrary: s S)
  case (Suc n)
  obtain r q where pop: "tq_pop (outputQueue s) = (r, q)" by (cases "tq_pop (outputQueue s)")
  show ?case
  proof (cases r)
    case None
    then show ?thesis using Suc.prems pop dp_step.collect_none [of S ep q A] by (intro exI [of _ "[]"]) auto
  next
    case (Some x)
    show ?thesis
    proof (cases "epoch x = ep")
      case True
      then show ?thesis using Suc.prems pop Some dp_step.collect_block [of S ep x q A] by (intro exI [of _ "[x]"]) auto
    next
      case False
      let ?S = "S\<lparr>impl := s\<lparr>outputQueue := q\<rparr>\<rparr>"
      have "collect n ep (s\<lparr>outputQueue := q\<rparr>) = Some (got, s')" using Suc.prems(1) pop Some False by simp
      from Suc.IH [OF this, of ?S] Suc.prems(3) obtain b where
        b: "(dp_step A)\<^sup>*\<^sup>* ?S (?S\<lparr>impl := s', render := RIdle, handed := handed ?S @ b\<rparr>)"
        "case got of None \<Rightarrow> b = [] | Some smp \<Rightarrow> \<exists>x. b = [x] \<and> epoch x = ep \<and> take DPDFNET_BLOCK_SAMPLES (samples x) = smp"
        by auto
      moreover have "dp_step A S ?S" using dp_step.collect_stale [of S ep x q A] Suc.prems(2,3) pop Some False by simp
      ultimately show ?thesis by (intro exI [of _ b]) (auto intro: converse_rtranclp_into_rtranclp)
    qed
  qed
qed simp

lemma processBlock_run:
  assumes "processBlock inp out ep (impl S) = Some (ok, res, s')" "DPDFNET_BLOCK_SAMPLES \<le> length inp"
    "DPDFNET_BLOCK_SAMPLES \<le> length out" "render S = RIdle" "streamEpoch S \<le> ep" "ready (impl S)" "\<not> failed (impl S)"
  shows "\<exists>S'. (dp_step A)\<^sup>*\<^sup>* S S' \<and> impl S' = s' \<and> render S' = RIdle \<and>
    (if ok then \<exists>b. handed S' = handed S @ [b] \<and> epoch b = ep \<and>
        res = blit (blit out 0 (replicate DPDFNET_BLOCK_SAMPLES 0)) 0 (take DPDFNET_BLOCK_SAMPLES (samples b))
     else handed S' = handed S \<and> res = blit out 0 (replicate DPDFNET_BLOCK_SAMPLES 0))"
proof -
  let ?s = "(impl S)\<lparr>requestedEpoch := ep\<rparr>"
  obtain got where col: "collect QUEUE_CAPACITY ep (submit ep inp ?s) = Some (got, s')"
    and r: "ok \<longleftrightarrow> got \<noteq> None" "res = (let z = blit out 0 (replicate DPDFNET_BLOCK_SAMPLES 0) in case got of None \<Rightarrow> z | Some smp \<Rightarrow> blit z 0 smp)"
    using assms by (auto simp: processBlock_def Let_def bind_eq_Some_conv split: option.splits)
  let ?S1 = "S\<lparr>impl := ?s, render := RSubmit ep inp, streamEpoch := ep\<rparr>"
  obtain pushed q where push: "tq_push (inputQueue ?s) (ep, inp) = (pushed, q)" by (cases "tq_push (inputQueue ?s) (ep, inp)")
  let ?S2 = "?S1\<lparr>impl := submit ep inp ?s, render := RCollect ep,
    submitted := submitted ?S1 @ (if pushed then [\<lparr>epoch = ep, samples = take DPDFNET_BLOCK_SAMPLES inp\<rparr>] else [])\<rparr>"
  have "dp_step A S ?S1" using dp_step.block [of S ep inp A] assms by simp
  moreover have "dp_step A ?S1 ?S2" using dp_step.submit [of ?S1 ep inp pushed q A] push by simp
  moreover obtain b where "(dp_step A)\<^sup>*\<^sup>* ?S2 (?S2\<lparr>impl := s', render := RIdle, handed := handed ?S2 @ b\<rparr>)"
    "case got of None \<Rightarrow> b = [] | Some smp \<Rightarrow> \<exists>x. b = [x] \<and> epoch x = ep \<and> take DPDFNET_BLOCK_SAMPLES (samples x) = smp"
    using collect_run [OF col, of ?S2 A] by auto
  ultimately show ?thesis using r
    by (intro exI [of _ "?S2\<lparr>impl := s', render := RIdle, handed := handed ?S2 @ b\<rparr>"])
      (auto simp: Let_def split: option.splits intro: converse_rtranclp_into_rtranclp)
qed

lemma setEpoch_run:
  assumes "render S = RIdle" "streamEpoch S \<le> ep" "ready (impl S)" "\<not> failed (impl S)"
  shows "(dp_step A)\<^sup>*\<^sup>* S (S\<lparr>streamEpoch := ep, impl := setEpoch ep (impl S), render := RIdle\<rparr>)"
proof -
  let ?S1 = "S\<lparr>impl := (impl S)\<lparr>requestedEpoch := ep\<rparr>, render := RDiscard, streamEpoch := ep\<rparr>"
  have "dp_step A S ?S1" using dp_step.set_epoch assms by blast
  moreover have "dp_step A ?S1 (S\<lparr>streamEpoch := ep, impl := setEpoch ep (impl S), render := RIdle\<rparr>)"
    using dp_step.discard [of ?S1 A] assms by (simp add: setEpoch_def)
  ultimately show ?thesis by (auto intro: converse_rtranclp_into_rtranclp)
qed

section \<open>What the session makes of its input\<close>

definition heard :: "'a audio option \<Rightarrow> 'a list" where
  "heard a = (case a of None \<Rightarrow> [] | Some a \<Rightarrow> audio_samples a)"

text \<open>Everything the session returns when it is fed the blocks \<open>h\<close> after a reset.\<close>

definition stream :: "'a sherpa \<Rightarrow> 'a list list \<Rightarrow> 'a list" where
  "stream A h = concat (map (\<lambda>k. heard (run A (take k h) (h ! k))) [0..<length h])"

lemma stream_Nil [simp]: "stream A [] = []"
  by (simp add: stream_def)

lemma stream_snoc: "stream A (h @ [x]) = stream A h @ heard (run A h x)"
proof -
  let ?f = "\<lambda>h k. heard (run A (take k h) (h ! k))"
  have "map (?f (h @ [x])) [0..<length h] = map (?f h) [0..<length h]"
    by (rule map_cong) (auto simp: nth_append)
  then have "map (?f (h @ [x])) [0..<length (h @ [x])] = map (?f h) [0..<length h] @ [heard (run A h x)]" by simp
  then show ?thesis unfolding stream_def by (simp only: concat_append concat.simps append_Nil2)
qed

definition tagged :: "u64 \<Rightarrow> 'a block list \<Rightarrow> 'a list list" where
  "tagged ep bs = map samples (filter (\<lambda>b. epoch b = ep) bs)"

lemma tagged_simps [simp]:
  "tagged ep [] = []" "tagged ep (b # bs) = (if epoch b = ep then samples b # tagged ep bs else tagged ep bs)"
  "tagged ep (bs @ cs) = tagged ep bs @ tagged ep cs"
  by (simp_all add: tagged_def)

text \<open>
  A block that is the \<open>k\<close>-th stretch of 480 samples of what the session makes of blocks \<open>h\<close>, all submitted
  with the block's epoch, in their order and each at most once.
\<close>

definition genuine :: "'a sherpa \<Rightarrow> 'a block list \<Rightarrow> 'a block \<Rightarrow> bool" where
  "genuine A sub b \<longleftrightarrow> (\<exists>h k. subseq h (tagged (epoch b) sub) \<and>
     DPDFNET_BLOCK_SAMPLES * (k + 1) \<le> length (stream A h) \<and>
     samples b = take DPDFNET_BLOCK_SAMPLES (drop (DPDFNET_BLOCK_SAMPLES * k) (stream A h)))"

lemma genuine_mono: "genuine A sub b \<Longrightarrow> genuine A (sub @ later) b"
  unfolding genuine_def by (metis subseq_rev_drop_many tagged_simps(3))

section \<open>The invariant\<close>

text \<open>The FIFO holds what the session has made of \<open>h\<close> and was not handed on.\<close>

definition fifo_ok :: "'a sherpa \<Rightarrow> 'a impl \<Rightarrow> 'a list list \<Rightarrow> bool" where
  "fifo_ok A s h \<longleftrightarrow> (\<exists>d. DPDFNET_BLOCK_SAMPLES * d + outputFifoCount s = length (stream A h) \<and>
     take (outputFifoCount s) (outputFifo s) = drop (DPDFNET_BLOCK_SAMPLES * d) (stream A h))"

definition hist :: "'a impl \<Rightarrow> 'a list list" where
  "hist s = (case denoiser s of None \<Rightarrow> [] | Some h \<Rightarrow> h)"

fun held :: "'a wpc \<Rightarrow> 'a block list" where
  "held (WGot b) = [b]"
| "held (WMatch b) = [b]"
| "held (WRun b) = [b]"
| "held _ = []"

fun in_step :: "'a sherpa \<Rightarrow> 'a impl \<Rightarrow> 'a wpc \<Rightarrow> bool" where
  "in_step A s (WRan audio) = (\<exists>h x. hist s = h @ [x] \<and> audio = run A h x \<and> fifo_ok A s h)"
| "in_step A s _ = fifo_ok A s (hist s)"

text \<open>The blocks on their way to the session: the one the worker holds, then the queue.\<close>

definition pending :: "'a impl \<Rightarrow> 'a block list" where
  "pending s = held (w_pc s) @ tq_contents (inputQueue s)"

definition shape :: "'a impl \<Rightarrow> bool" where
  "shape s \<longleftrightarrow> tq_inv (inputQueue s) \<and> tq_inv (outputQueue s) \<and> length (outputFifo s) = FIFO_CAPACITY \<and>
     outputFifoCount s < DPDFNET_BLOCK_SAMPLES + (if w_pc s = WDrain then MAX_OUTPUT_SAMPLES else 0) \<and>
     workerEpoch s \<le> requestedEpoch s \<and> (\<forall>b\<in>set (pending s). epoch b \<le> requestedEpoch s) \<and>
     (\<forall>b. w_pc s = WRun b \<longrightarrow> epoch b = workerEpoch s) \<and> (failed s \<longrightarrow> w_pc s = WTop \<or> w_pc s = WExited)"

definition worker_inv :: "'a sherpa \<Rightarrow> 'a block list \<Rightarrow> 'a impl \<Rightarrow> bool" where
  "worker_inv A sub s \<longleftrightarrow> shape s \<and>
     (\<forall>ep. subseq (tagged ep (pending s)) (tagged ep sub)) \<and>
     (\<not> failed s \<longrightarrow> subseq (hist s @ tagged (workerEpoch s) (pending s)) (tagged (workerEpoch s) sub)) \<and>
     (\<not> failed s \<and> (requestedEpoch s = workerEpoch s \<or> w_pc s = WDrain) \<longrightarrow> in_step A s (w_pc s)) \<and>
     (\<forall>b\<in>set (tq_contents (outputQueue s)). genuine A sub b)"

lemma worker_inv_failed: "worker_inv A sub s \<Longrightarrow> failed s \<Longrightarrow> w_pc s = WTop \<or> w_pc s = WExited"
  by (simp add: worker_inv_def shape_def)

lemma fifo_ok_reset: "hist s = [] \<Longrightarrow> outputFifoCount s = 0 \<Longrightarrow> fifo_ok A s (hist s)"
  by (auto simp: fifo_ok_def)

lemma subseq_drop_front: "subseq (a @ b) c \<Longrightarrow> subseq b c"
  by (meson list_emb_append2 subseq_order.order_refl subseq_order.trans)

section \<open>The worker keeps it\<close>

lemma append_copy_fits:
  assumes "smp \<noteq> []" "length smp + outputFifoCount s \<le> FIFO_CAPACITY"
  shows "append_copy smp s = s\<lparr>outputFifo := blit (outputFifo s) (outputFifoCount s) smp,
    outputFifoCount := outputFifoCount s + length smp\<rparr>"
proof -
  have "min (FIFO_CAPACITY - outputFifoCount s) (length smp) = length smp" "FIFO_CAPACITY - outputFifoCount s \<noteq> 0"
    using assms by (auto simp flip: length_greater_0_conv)
  then show ?thesis using assms(1) by (subst append_copy.simps) (simp add: Let_def append_copy.simps [of "[]"])
qed

lemma audio_samples_bound:
  "validAudio A rate (Some a) \<Longrightarrow> length (audio_samples a) \<le> MAX_OUTPUT_SAMPLES"
  by (auto simp: validAudio_def audio_samples_def split: option.splits)

lemma take_blit: "n + length src \<le> length dst \<Longrightarrow> take (n + length src) (blit dst n src) = take n dst @ src"
  by (simp add: blit_def)

lemma fifo_ok_append:
  assumes "fifo_ok A s h" "smp = heard (run A h x)" "outputFifoCount s + length smp \<le> length (outputFifo s)"
  shows "fifo_ok A (s\<lparr>outputFifo := blit (outputFifo s) (outputFifoCount s) smp,
    outputFifoCount := outputFifoCount s + length smp\<rparr>) (h @ [x])"
proof -
  obtain d where d: "DPDFNET_BLOCK_SAMPLES * d + outputFifoCount s = length (stream A h)"
    "take (outputFifoCount s) (outputFifo s) = drop (DPDFNET_BLOCK_SAMPLES * d) (stream A h)"
    using assms(1) by (auto simp: fifo_ok_def)
  have "drop (DPDFNET_BLOCK_SAMPLES * d) (stream A h @ smp) = drop (DPDFNET_BLOCK_SAMPLES * d) (stream A h) @ smp"
    using d(1) by simp
  then show ?thesis using d assms(2,3) unfolding fifo_ok_def
    by (intro exI [of _ d]) (simp add: stream_snoc take_blit)
qed

lemma fifo_ok_same: "outputFifo t = outputFifo s \<Longrightarrow> outputFifoCount t = outputFifoCount s \<Longrightarrow> fifo_ok A t h = fifo_ok A s h"
  by (simp add: fifo_ok_def)

lemma drain_genuine:
  assumes "fifo_ok A s (hist s)" "DPDFNET_BLOCK_SAMPLES \<le> outputFifoCount s" "outputFifoCount s \<le> length (outputFifo s)"
    "subseq (hist s) (tagged (workerEpoch s) sub)"
  shows "genuine A sub \<lparr>epoch = workerEpoch s, samples = take DPDFNET_BLOCK_SAMPLES (outputFifo s)\<rparr>"
proof -
  obtain d where d: "DPDFNET_BLOCK_SAMPLES * d + outputFifoCount s = length (stream A (hist s))"
    "take (outputFifoCount s) (outputFifo s) = drop (DPDFNET_BLOCK_SAMPLES * d) (stream A (hist s))"
    using assms(1) by (auto simp: fifo_ok_def)
  have "take DPDFNET_BLOCK_SAMPLES (outputFifo s) = take DPDFNET_BLOCK_SAMPLES (take (outputFifoCount s) (outputFifo s))"
    using assms(2) by (simp add: min_def)
  then show ?thesis using d assms(2,4) unfolding genuine_def
    by (intro exI [of _ "hist s"] exI [of _ d]) simp
qed

lemma fifo_ok_drain:
  assumes "fifo_ok A s h" "DPDFNET_BLOCK_SAMPLES \<le> outputFifoCount s" "outputFifoCount s \<le> length (outputFifo s)"
  shows "fifo_ok A (drain_block ep s) h"
proof -
  obtain d where d: "DPDFNET_BLOCK_SAMPLES * d + outputFifoCount s = length (stream A h)"
    "take (outputFifoCount s) (outputFifo s) = drop (DPDFNET_BLOCK_SAMPLES * d) (stream A h)"
    using assms(1) by (auto simp: fifo_ok_def)
  let ?n = "outputFifoCount s - DPDFNET_BLOCK_SAMPLES"
  let ?src = "take ?n (drop DPDFNET_BLOCK_SAMPLES (outputFifo s))"
  have len: "length ?src = ?n" using assms(2,3) by simp
  have "take ?n (blit (outputFifo s) 0 ?src) = ?src"
    using take_blit [of 0 ?src "outputFifo s"] assms(3) len by simp
  also have "?src = drop DPDFNET_BLOCK_SAMPLES (take (outputFifoCount s) (outputFifo s))" by (simp add: drop_take)
  also have "\<dots> = drop (DPDFNET_BLOCK_SAMPLES * (d + 1)) (stream A h)" by (simp add: d(2) drop_drop algebra_simps)
  finally have "take ?n (blit (outputFifo s) 0 ?src) = drop (DPDFNET_BLOCK_SAMPLES * (d + 1)) (stream A h)" .
  moreover have "outputFifoCount (drain_block ep s) = ?n" "outputFifo (drain_block ep s) = blit (outputFifo s) 0 ?src"
    by (auto simp: drain_block_def Let_def split: prod.splits)
  moreover have "DPDFNET_BLOCK_SAMPLES * (d + 1) + ?n = length (stream A h)" using d(1) assms(2) by simp
  ultimately show ?thesis unfolding fifo_ok_def by (intro exI [of _ "d + 1"]) (simp only: simp_thms)
qed

lemma reset_simps [simp]:
  "hist (resetWorkerState ep s) = []" "outputFifoCount (resetWorkerState ep s) = 0"
  "workerEpoch (resetWorkerState ep s) = ep" "requestedEpoch (resetWorkerState ep s) = requestedEpoch s"
  "inputQueue (resetWorkerState ep s) = inputQueue s" "outputQueue (resetWorkerState ep s) = outputQueue s"
  "outputFifo (resetWorkerState ep s) = outputFifo s" "failed (resetWorkerState ep s) = failed s"
  "w_pc (resetWorkerState ep s) = w_pc s"
  by (simp_all add: resetWorkerState_def hist_def split: option.split)

lemma hist_pc [simp]: "hist (s\<lparr>w_pc := p\<rparr>) = hist s" "hist (s\<lparr>denoiser := Some h\<rparr>) = h"
  by (simp_all add: hist_def)

text \<open>Steps that only move the worker, perhaps after a reset and perhaps dropping the block it holds.\<close>

lemma worker_inv_move:
  assumes "worker_inv A sub s" "w_pc s \<noteq> WDrain" "p \<noteq> WDrain" "\<forall>a. p \<noteq> WRan a"
    "held p = held (w_pc s) \<or> held p = []" "\<forall>b. p = WRun b \<longrightarrow> epoch b = workerEpoch s"
    "(\<forall>a. w_pc s \<noteq> WRan a) \<or> requestedEpoch s \<noteq> workerEpoch s \<or> (\<exists>h x. hist s = h @ [x] \<and> heard (run A h x) = [] \<and> w_pc s = WRan (run A h x))"
    "\<not> failed s \<or> p = WTop \<or> p = WExited"
  shows "worker_inv A sub (s\<lparr>w_pc := p\<rparr>)"
proof -
  let ?t = "s\<lparr>w_pc := p\<rparr>"
  note inv = assms(1) [unfolded worker_inv_def]
  have less: "subseq (tagged ep (pending ?t)) (tagged ep (pending s))" for ep
    using assms(5) by (auto simp: pending_def list_emb_append2)
  have more: "subseq (hist ?t @ tagged ep (pending ?t)) (hist s @ tagged ep (pending s))" for ep
    unfolding hist_pc by (rule list_emb_append_mono [OF subseq_order.order_refl less])
  have "set (pending ?t) \<subseteq> set (pending s)" using assms(5) by (auto simp: pending_def)
  then have "shape ?t" using conjunct1 [OF inv] assms(2,3,6,8) by (auto simp: shape_def)
  moreover have "subseq (tagged ep (pending ?t)) (tagged ep sub)" for ep
    using subseq_order.trans [OF less] inv by blast
  moreover have "subseq (hist ?t @ tagged (workerEpoch ?t) (pending ?t)) (tagged (workerEpoch ?t) sub)" if "\<not> failed ?t"
    using subseq_order.trans [OF more, of "workerEpoch s"] inv that by simp
  moreover have "in_step A ?t p" if now: "in_step A s (w_pc s)" "requestedEpoch s = workerEpoch s"
  proof -
    have "fifo_ok A s (hist s)"
    proof (cases "\<exists>a. w_pc s = WRan a")
      case True
      then obtain h x where "hist s = h @ [x]" "heard (run A h x) = []" "fifo_ok A s h"
        using assms(7) now by auto
      then show ?thesis by (simp add: fifo_ok_def stream_snoc)
    next
      case False
      then show ?thesis using now(1) by (cases "w_pc s") auto
    qed
    then have "fifo_ok A ?t (hist s)" by (simp add: fifo_ok_def)
    then show ?thesis using assms(4) by (cases p) auto
  qed
  moreover have "\<forall>b\<in>set (tq_contents (outputQueue ?t)). genuine A sub b" using inv by simp
  ultimately show ?thesis using inv assms(2,3) unfolding worker_inv_def by simp
qed

lemma worker_inv_reset:
  assumes "worker_inv A sub s" "ep = requestedEpoch s" "\<forall>a. w_pc s \<noteq> WRan a" "\<forall>b. w_pc s \<noteq> WRun b" "w_pc s \<noteq> WDrain"
  shows "worker_inv A sub (resetWorkerState ep s)"
proof -
  have "fifo_ok A (resetWorkerState ep s) []" by (simp add: fifo_ok_def)
  then have "in_step A (resetWorkerState ep s) (w_pc s)" using assms(3) by (cases "w_pc s") auto
  then show ?thesis using assms unfolding worker_inv_def shape_def pending_def by (auto simp: DPDFNET_BLOCK_SAMPLES_def)
qed

text \<open>It does not look at the other fields.\<close>

lemma worker_inv_cong:
  assumes "worker_inv A sub s" "w_pc t = w_pc s" "inputQueue t = inputQueue s" "outputQueue t = outputQueue s"
    "outputFifo t = outputFifo s" "outputFifoCount t = outputFifoCount s" "workerEpoch t = workerEpoch s"
    "requestedEpoch t = requestedEpoch s" "failed t = failed s" "denoiser t = denoiser s"
  shows "worker_inv A sub t"
proof -
  have h: "hist t = hist s" "pending t = pending s" using assms by (simp_all add: hist_def pending_def)
  have "fifo_ok A t = fifo_ok A s" using assms by (auto simp: fifo_ok_def fun_eq_iff)
  then have "in_step A t p = in_step A s p" for p using h by (cases p) auto
  moreover have "shape t = shape s" using assms h by (simp add: shape_def)
  ultimately show ?thesis using assms h unfolding worker_inv_def by simp
qed

lemma worker_inv_fail:
  assumes "worker_inv A sub s" "held p = held (w_pc s) \<or> held p = []" "p = WTop" "w_pc s \<noteq> WDrain"
  shows "worker_inv A sub ((failWorker s)\<lparr>w_pc := p\<rparr>)"
proof -
  let ?t = "(failWorker s)\<lparr>w_pc := p\<rparr>"
  have eq: "inputQueue ?t = inputQueue s" "outputQueue ?t = outputQueue s" "outputFifo ?t = outputFifo s"
    "outputFifoCount ?t = outputFifoCount s" "workerEpoch ?t = workerEpoch s" "requestedEpoch ?t = requestedEpoch s" "failed ?t" "w_pc ?t = p"
    by (simp_all add: failWorker_def signalWorker_def)
  have "subseq (tagged ep (pending ?t)) (tagged ep (pending s))" for ep
    using assms(2) eq by (auto simp: pending_def list_emb_append2)
  then have "subseq (tagged ep (pending ?t)) (tagged ep sub)" for ep
    using assms(1) subseq_order.trans unfolding worker_inv_def by blast
  moreover have "set (pending ?t) \<subseteq> set (pending s)" using assms(2) eq by (auto simp: pending_def)
  then have "shape ?t" using assms(1,3,4) eq unfolding worker_inv_def shape_def by auto
  ultimately show ?thesis using assms(1) eq unfolding worker_inv_def by simp
qed

lemma worker_inv_failed_session:
  assumes "worker_inv A sub s" "failed s"
  shows "worker_inv A sub (s\<lparr>denoiser := d\<rparr>)"
proof -
  have "pending (s\<lparr>denoiser := d\<rparr>) = pending s" by (simp add: pending_def)
  moreover from this have "shape (s\<lparr>denoiser := d\<rparr>) = shape s" by (simp add: shape_def)
  ultimately show ?thesis using assms unfolding worker_inv_def by simp
qed

lemma inv_warmup:
  assumes "worker_inv A sub s" "w_pc s = WWarmup" "\<not> failed s" "denoiser s = Some []" "outputFifoCount s = 0"
  shows "worker_inv A sub (worker_step A s)"
proof (cases "run A [] (replicate DPDFNET_BLOCK_SAMPLES 0) \<noteq> None \<and>
    \<not> validAudio A (expectedSampleRate s) (run A [] (replicate DPDFNET_BLOCK_SAMPLES 0))")
  case True
  have "worker_inv A sub ((failWorker s)\<lparr>w_pc := WTop\<rparr>)" using worker_inv_fail [OF assms(1)] assms(2) by simp
  moreover have "failed ((failWorker s)\<lparr>w_pc := WTop\<rparr>)" by (simp add: failWorker_def signalWorker_def)
  ultimately have "worker_inv A sub ((failWorker s)\<lparr>w_pc := WTop, denoiser := Some [replicate DPDFNET_BLOCK_SAMPLES 0]\<rparr>)"
    by (rule worker_inv_failed_session)
  then show ?thesis
    by (rule worker_inv_cong) (simp_all add: worker_step_def Let_def failWorker_def signalWorker_def True assms(2))
next
  case False
  have "worker_inv A sub (resetWorkerState (requestedEpoch s) s)" using worker_inv_reset [OF assms(1) refl] assms(2) by simp
  then have "worker_inv A sub ((resetWorkerState (requestedEpoch s) s)\<lparr>w_pc := WTop\<rparr>)"
    using worker_inv_move [of A sub "resetWorkerState (requestedEpoch s) s" WTop] assms(2) by simp
  moreover have "outputFifoCount s = 0" by (rule assms(5))
  ultimately show ?thesis
    by (elim worker_inv_cong) (use False assms(2-4) in \<open>auto simp: worker_step_def Let_def resetWorkerState_def\<close>)
qed

lemma inv_top:
  assumes "worker_inv A sub s" "w_pc s = WTop"
  shows "worker_inv A sub (worker_step A s)"
proof -
  consider (stop) "stopRequested s" | (failed) "\<not> stopRequested s" "failed s"
    | (run) "\<not> stopRequested s" "\<not> failed s" by blast
  then show ?thesis
  proof cases
    case stop
    have "worker_inv A sub (s\<lparr>w_pc := WExited\<rparr>)" using worker_inv_move [OF assms(1), of WExited] assms(2) by simp
    then have "worker_inv A sub (s\<lparr>workerExited := True, w_pc := WExited\<rparr>)" by (rule worker_inv_cong) simp_all
    then show ?thesis using stop assms(2) by (simp add: worker_step_def)
  next
    case failed
    then show ?thesis using assms by (simp add: worker_step_def)
  next
    case run
    let ?r = "if requestedEpoch s \<noteq> workerEpoch s then resetWorkerState (requestedEpoch s) s else s"
    have "worker_inv A sub ?r" using worker_inv_reset [OF assms(1) refl] assms by simp
    moreover have "w_pc ?r = WTop" using assms(2) by simp
    ultimately have "worker_inv A sub (?r\<lparr>w_pc := WPop\<rparr>)" using worker_inv_move [of A sub ?r WPop] run by simp
    then show ?thesis using run assms(2) by (simp add: worker_step_def)
  qed
qed

lemma inv_pop:
  assumes "worker_inv A sub s" "w_pc s = WPop"
  shows "worker_inv A sub (worker_step A s)"
proof (cases "tq_pop (inputQueue s)")
  case (Pair r q)
  have q: "tq_inv (inputQueue s)" using assms(1) by (simp add: worker_inv_def shape_def)
  show ?thesis
  proof (cases r)
    case None
    then have "worker_step A s = s\<lparr>w_pc := WTop\<rparr>" using Pair tq_pop_None [OF q, of q] assms(2) by (simp add: worker_step_def)
    then show ?thesis using worker_inv_move [OF assms(1), of WTop] assms(2) by simp
  next
    case (Some b)
    let ?t = "s\<lparr>inputQueue := q, w_pc := WGot b\<rparr>"
    have t: "worker_step A s = ?t" using Pair Some assms(2) by (simp add: worker_step_def)
    have c: "tq_contents (inputQueue s) = b # tq_contents q" "tq_inv q" using tq_pop_Some [OF q] Pair Some by auto
    have "pending ?t = pending s" "hist ?t = hist s" using c assms(2) by (simp_all add: pending_def hist_def)
    moreover have "in_step A ?t (WGot b) = in_step A s WPop" using \<open>hist ?t = hist s\<close> by (simp add: fifo_ok_def)
    ultimately show ?thesis using assms c(2) unfolding t worker_inv_def shape_def by simp
  qed
qed

lemma inv_got:
  assumes "worker_inv A sub s" "w_pc s = WGot b"
  shows "worker_inv A sub (worker_step A s)"
proof -
  have move: "worker_inv A sub (s\<lparr>w_pc := p\<rparr>)" if "p = WTop \<or> p = WMatch b" for p
    using worker_inv_move [OF assms(1), of p] worker_inv_failed [OF assms(1)] assms(2) that by fastforce
  have le: "epoch b \<le> requestedEpoch s" using assms by (simp add: worker_inv_def shape_def pending_def)
  show ?thesis
  proof (cases "\<not> failed s \<and> workerEpoch s < epoch b \<and> \<not> epoch b < requestedEpoch s")
    case True
    then have "worker_step A s = (resetWorkerState (epoch b) s)\<lparr>w_pc := WMatch b\<rparr>"
      using assms(2) by (auto simp: worker_step_def)
    moreover have "worker_inv A sub (resetWorkerState (epoch b) s)"
      using worker_inv_reset [OF assms(1), of "epoch b"] True le assms(2) by auto
    ultimately show ?thesis
      using worker_inv_move [of A sub "resetWorkerState (epoch b) s" "WMatch b"] assms(2) True by simp
  next
    case False
    then have "worker_step A s = s\<lparr>w_pc := WTop\<rparr> \<or> worker_step A s = s\<lparr>w_pc := WMatch b\<rparr>"
      using assms(2) by (auto simp: worker_step_def)
    then show ?thesis using move by auto
  qed
qed

lemma inv_match:
  assumes "worker_inv A sub s" "w_pc s = WMatch b"
  shows "worker_inv A sub (worker_step A s)"
  using worker_inv_move [OF assms(1), of WTop] worker_inv_move [OF assms(1), of "WRun b"] worker_inv_failed [OF assms(1)] assms(2)
  by (auto simp: worker_step_def)

lemma inv_run:
  assumes "worker_inv A sub s" "w_pc s = WRun b"
  shows "worker_inv A sub (worker_step A s)"
proof -
  let ?t = "s\<lparr>denoiser := Some (hist s @ [samples b]), w_pc := WRan (run A (hist s) (samples b))\<rparr>"
  have t: "worker_step A s = ?t" using assms(2) by (simp add: worker_step_def Let_def hist_def)
  have ep: "epoch b = workerEpoch s" using assms by (simp add: worker_inv_def shape_def)
  have p: "pending s = b # pending ?t" using assms(2) by (simp add: pending_def)
  have h: "hist ?t = hist s @ [samples b]" by simp
  have same: "hist ?t @ tagged (workerEpoch s) (pending ?t) = hist s @ tagged (workerEpoch s) (pending s)"
    by (simp add: p h ep)
  have less: "subseq (tagged e (pending ?t)) (tagged e (pending s))" for e by (auto simp: p list_emb_Cons)
  have "shape ?t" using assms p unfolding worker_inv_def shape_def by auto
  moreover have "subseq (tagged e (pending ?t)) (tagged e sub)" for e
    using assms(1) subseq_order.trans [OF less] unfolding worker_inv_def by blast
  moreover have "in_step A ?t (w_pc ?t)" if "fifo_ok A s (hist s)"
    using that fifo_ok_same [of ?t s A "hist s"] h by auto
  ultimately show ?thesis using assms same unfolding t worker_inv_def by auto
qed

lemma inv_ran:
  assumes "worker_inv A sub s" "w_pc s = WRan audio"
  shows "worker_inv A sub (worker_step A s)"
proof (cases "\<exists>a. audio = Some a \<and> validAudio A (expectedSampleRate s) audio \<and> requestedEpoch s = workerEpoch s \<and>
    audio_samples a \<noteq> []")
  case False
  have nf: "\<not> failed s" using worker_inv_failed [OF assms(1)] assms(2) by auto
  have quiet: "worker_inv A sub (s\<lparr>w_pc := WTop\<rparr>)" if "requestedEpoch s \<noteq> workerEpoch s \<or> heard audio = []"
  proof -
    have "requestedEpoch s \<noteq> workerEpoch s \<or> (\<exists>h x. hist s = h @ [x] \<and> heard (run A h x) = [] \<and> w_pc s = WRan (run A h x))"
      using that assms nf unfolding worker_inv_def by fastforce
    then show ?thesis using worker_inv_move [OF assms(1), of WTop] assms(2) by simp
  qed
  have bad: "worker_inv A sub ((failWorker s)\<lparr>w_pc := WTop\<rparr>)" using worker_inv_fail [OF assms(1), of WTop] assms(2) by simp
  show ?thesis
  proof (cases audio)
    case None
    then show ?thesis using quiet assms(2) by (simp add: worker_step_def heard_def)
  next
    case (Some a)
    consider (bad) "\<not> validAudio A (expectedSampleRate s) audio" | (stale) "validAudio A (expectedSampleRate s) audio" "requestedEpoch s \<noteq> workerEpoch s"
      | (silent) "validAudio A (expectedSampleRate s) audio" "requestedEpoch s = workerEpoch s" "audio_samples a = []"
      using False Some by blast
    then show ?thesis
      by cases (use Some assms(2) quiet bad in \<open>simp_all add: worker_step_def heard_def\<close>)
  qed
next
  case True
  then obtain a where a: "audio = Some a" "validAudio A (expectedSampleRate s) audio" "requestedEpoch s = workerEpoch s"
    "audio_samples a \<noteq> []" by blast
  have nf: "\<not> failed s" using worker_inv_failed [OF assms(1)] assms(2) by auto
  let ?smp = "audio_samples a"
  obtain h x where h: "hist s = h @ [x]" "Some a = run A h x" "fifo_ok A s h"
    using assms a nf unfolding worker_inv_def by auto
  have sh: "length (outputFifo s) = FIFO_CAPACITY" "outputFifoCount s < DPDFNET_BLOCK_SAMPLES"
    using assms by (simp_all add: worker_inv_def shape_def)
  have len: "length ?smp \<le> MAX_OUTPUT_SAMPLES" using audio_samples_bound a(1,2) by blast
  then have fit: "length ?smp + outputFifoCount s \<le> FIFO_CAPACITY"
    using sh(2) by (simp add: FIFO_CAPACITY_def MAX_OUTPUT_SAMPLES_def DPDFNET_BLOCK_SAMPLES_def)
  let ?u = "s\<lparr>outputFifo := blit (outputFifo s) (outputFifoCount s) ?smp, outputFifoCount := outputFifoCount s + length ?smp\<rparr>"
  let ?t = "?u\<lparr>w_pc := WDrain\<rparr>"
  have t: "worker_step A s = ?t" using assms(2) a append_copy_fits [OF a(4) fit] by (simp add: worker_step_def)
  have heard: "?smp = heard (run A h x)" by (simp add: heard_def flip: h(2))
  have "fifo_ok A ?u (h @ [x])"
    using fifo_ok_append [OF h(3) heard] fit sh(1) by (simp add: add.commute)
  then have ok: "fifo_ok A ?t (hist ?t)" using fifo_ok_same [of ?t ?u A "h @ [x]"] h(1) by (simp add: hist_def)
  have same: "pending ?t = pending s" "hist ?t = hist s" using assms(2) by (simp_all add: pending_def hist_def)
  have "length (outputFifo ?t) = FIFO_CAPACITY" using fit sh(1) by (simp add: mem_simps add.commute)
  moreover have "outputFifoCount ?t < DPDFNET_BLOCK_SAMPLES + MAX_OUTPUT_SAMPLES" using sh(2) len by simp
  ultimately have "shape ?t" using assms(1) nf same unfolding worker_inv_def shape_def by simp
  then show ?thesis using assms(1) ok same unfolding t worker_inv_def by simp
qed

lemma inv_drain:
  assumes "worker_inv A sub s" "w_pc s = WDrain"
  shows "worker_inv A sub (worker_step A s)"
proof (cases "DPDFNET_BLOCK_SAMPLES \<le> outputFifoCount s")
  case False
  have "worker_inv A sub (s\<lparr>w_pc := WTop\<rparr>)"
  proof -
    have "pending (s\<lparr>w_pc := WTop\<rparr>) = pending s" using assms(2) by (simp add: pending_def)
    moreover have "fifo_ok A (s\<lparr>w_pc := WTop\<rparr>) (hist s)" if "fifo_ok A s (hist s)" using that by (simp add: fifo_ok_def)
    ultimately show ?thesis using assms False unfolding worker_inv_def shape_def by simp
  qed
  then show ?thesis using assms(2) False by (simp add: worker_step_def)
next
  case True
  let ?t = "drain_block (workerEpoch s) s"
  let ?b = "\<lparr>epoch = workerEpoch s, samples = take DPDFNET_BLOCK_SAMPLES (outputFifo s)\<rparr>"
  have nf: "\<not> failed s" and sh: "shape s" and fo: "fifo_ok A s (hist s)" "subseq (hist s @ tagged (workerEpoch s) (pending s)) (tagged (workerEpoch s) sub)"
    using assms by (auto simp: worker_inv_def shape_def)
  have q: "tq_inv (outputQueue s)" and cap: "outputFifoCount s \<le> length (outputFifo s)"
    using sh assms(2) by (auto simp: shape_def FIFO_CAPACITY_def MAX_OUTPUT_SAMPLES_def DPDFNET_BLOCK_SAMPLES_def)
  obtain ok q' where push: "tq_push (outputQueue s) (workerEpoch s, take DPDFNET_BLOCK_SAMPLES (outputFifo s)) = (ok, q')"
    by (cases "tq_push (outputQueue s) (workerEpoch s, take DPDFNET_BLOCK_SAMPLES (outputFifo s))")
  have eq: "inputQueue ?t = inputQueue s" "w_pc ?t = w_pc s" "workerEpoch ?t = workerEpoch s" "requestedEpoch ?t = requestedEpoch s"
    "failed ?t = failed s" "denoiser ?t = denoiser s" "outputQueue ?t = q'" "outputFifoCount ?t = outputFifoCount s - DPDFNET_BLOCK_SAMPLES"
    "length (outputFifo ?t) = length (outputFifo s)"
    using cap by (auto simp: drain_block_def Let_def push mem_simps)
  have same: "pending ?t = pending s" "hist ?t = hist s" by (simp_all add: pending_def hist_def eq)
  have "subseq (hist s) (tagged (workerEpoch s) sub)"
    using subseq_order.trans [OF _ fo(2), of "hist s"] by (simp add: list_emb_prefix)
  then have gen: "genuine A sub ?b" using drain_genuine [OF fo(1) True cap] by blast
  have "set (tq_contents q') \<subseteq> insert ?b (set (tq_contents (outputQueue s)))" "tq_inv q'"
    using tq_push_cases [OF q push] by auto
  moreover have "shape ?t" using sh \<open>tq_inv q'\<close> same(1) assms(2) by (auto simp: shape_def eq)
  moreover have "fifo_ok A ?t (hist s)" by (rule fifo_ok_drain [OF fo(1) True cap])
  ultimately have "worker_inv A sub ?t" using assms gen same unfolding worker_inv_def by (auto simp: eq)
  then show ?thesis using assms(2) True by (simp add: worker_step_def)
qed

lemma worker_idle: "w_pc s = NoThread \<or> w_pc s = WExited \<Longrightarrow> worker_step A s = s"
  by (auto simp: worker_step_def)

lemma worker_step_keeps_inv:
  assumes "worker_inv A sub s" "w_pc s = WWarmup \<longrightarrow> \<not> failed s \<and> denoiser s = Some [] \<and> outputFifoCount s = 0"
  shows "worker_inv A sub (worker_step A s)"
  using assms
  by (cases "w_pc s")
    (simp_all add: worker_idle inv_warmup inv_top inv_pop inv_got inv_match inv_run inv_ran inv_drain)

lemma worker_step_request:
  fixes s :: "'a::zero impl"
  assumes "w_pc s \<noteq> NoThread"
  shows "requestedEpoch (worker_step A s) = requestedEpoch s" "w_pc (worker_step A s) \<noteq> WWarmup" "w_pc (worker_step A s) \<noteq> NoThread"
proof -
  have "requestedEpoch (append_copy smp t) = requestedEpoch t" "w_pc (append_copy smp t) = w_pc t" for smp and t :: "'a impl"
    by (induction smp t rule: append_copy.induct) (subst append_copy.simps; simp add: Let_def)+
  moreover have "requestedEpoch (drain_block ep t) = requestedEpoch t" "w_pc (drain_block ep t) = w_pc t" for ep and t :: "'a impl"
    by (auto simp: drain_block_def Let_def split: prod.splits)
  ultimately have "requestedEpoch (worker_step A s) = requestedEpoch s \<and> w_pc (worker_step A s) \<notin> {WWarmup, NoThread}"
    using assms
    by (cases "w_pc s") (simp_all add: worker_step_def Let_def failWorker_def signalWorker_def split: option.split prod.split)
  then show "requestedEpoch (worker_step A s) = requestedEpoch s" "w_pc (worker_step A s) \<noteq> WWarmup" "w_pc (worker_step A s) \<noteq> NoThread"
    by simp_all
qed

section \<open>The render thread keeps it\<close>

lemma worker_inv_mono:
  assumes "worker_inv A sub s"
  shows "worker_inv A (sub @ later) s"
proof -
  have "subseq xs (tagged ep sub) \<Longrightarrow> subseq xs (tagged ep (sub @ later))" for xs ep
    by (metis subseq_rev_drop_many tagged_simps(3))
  then show ?thesis using assms genuine_mono unfolding worker_inv_def by blast
qed

lemma worker_inv_request:
  assumes "worker_inv A sub s" "requestedEpoch s \<le> ep"
  shows "worker_inv A sub (s\<lparr>requestedEpoch := ep\<rparr>)"
proof -
  let ?t = "s\<lparr>requestedEpoch := ep\<rparr>"
  have same: "hist ?t = hist s" "pending ?t = pending s" by (simp_all add: hist_def pending_def)
  have "fifo_ok A ?t = fifo_ok A s" by (simp add: fifo_ok_def fun_eq_iff)
  then have "in_step A ?t p = in_step A s p" for p using same(1) by (cases p) auto
  moreover have "requestedEpoch s = workerEpoch s" if "ep = workerEpoch s"
    using assms that by (auto simp: worker_inv_def shape_def)
  moreover have "shape ?t" using assms same(2) unfolding worker_inv_def shape_def by (auto intro: order.trans)
  ultimately show ?thesis using assms(1) same unfolding worker_inv_def by auto
qed

lemma worker_inv_outputQueue:
  assumes "worker_inv A sub s" "tq_inv q" "set (tq_contents q) \<subseteq> set (tq_contents (outputQueue s))"
  shows "worker_inv A sub (s\<lparr>outputQueue := q\<rparr>)"
proof -
  let ?t = "s\<lparr>outputQueue := q\<rparr>"
  have same: "hist ?t = hist s" "pending ?t = pending s" by (simp_all add: hist_def pending_def)
  have "fifo_ok A ?t = fifo_ok A s" by (simp add: fifo_ok_def fun_eq_iff)
  then have "in_step A ?t p = in_step A s p" for p using same(1) by (cases p) auto
  moreover have "shape ?t" using assms(1,2) same(2) unfolding worker_inv_def shape_def by simp
  ultimately show ?thesis using assms(1,3) same unfolding worker_inv_def by auto
qed

lemma worker_inv_submit:
  assumes "worker_inv A sub s" "ep = requestedEpoch s" "tq_push (inputQueue s) (ep, inp) = (pushed, q)"
  shows "worker_inv A (sub @ (if pushed then [\<lparr>epoch = ep, samples = take DPDFNET_BLOCK_SAMPLES inp\<rparr>] else [])) (s\<lparr>inputQueue := q\<rparr>)"
proof -
  let ?t = "s\<lparr>inputQueue := q\<rparr>"
  let ?new = "if pushed then [\<lparr>epoch = ep, samples = take DPDFNET_BLOCK_SAMPLES inp\<rparr>] else []"
  have q: "tq_inv (inputQueue s)" using assms(1) by (simp add: worker_inv_def shape_def)
  note push = tq_push_cases [OF q assms(3)]
  have same: "hist ?t = hist s" "pending ?t = pending s @ ?new" by (simp_all add: hist_def pending_def push(3))
  have "fifo_ok A ?t = fifo_ok A s" by (simp add: fifo_ok_def fun_eq_iff)
  then have steps: "in_step A ?t p = in_step A s p" for p using same(1) by (cases p) auto
  have grow: "subseq (xs @ tagged e ?new) (tagged e (sub @ ?new))" if "subseq xs (tagged e sub)" for xs e
    using list_emb_append_mono [OF that subseq_order.order_refl [of "tagged e ?new"]] by simp
  have "shape ?t" using assms(1,2) push(1) same(2) unfolding worker_inv_def shape_def by (cases pushed) auto
  moreover have "subseq (tagged e (pending ?t)) (tagged e (sub @ ?new))" for e
    using assms(1) grow [of "tagged e (pending s)" e] unfolding worker_inv_def same by simp
  moreover have "subseq (hist ?t @ tagged (workerEpoch s) (pending ?t)) (tagged (workerEpoch s) (sub @ ?new))" if "\<not> failed s"
    using assms(1) grow [of "hist s @ tagged (workerEpoch s) (pending s)" "workerEpoch s"] that unfolding worker_inv_def same by simp
  moreover have "\<forall>b\<in>set (tq_contents (outputQueue s)). genuine A (sub @ ?new) b"
    using assms(1) genuine_mono unfolding worker_inv_def by blast
  ultimately show ?thesis using assms(1) steps unfolding worker_inv_def by simp
qed

fun render_ok :: "'a rpc \<Rightarrow> u64 \<Rightarrow> bool" where
  "render_ok (RSubmit ep inp) e = (ep = e)"
| "render_ok (RCollect ep) e = (ep = e)"
| "render_ok _ _ = True"

definition dp_inv :: "'a sherpa \<Rightarrow> 'a dsys \<Rightarrow> bool" where
  "dp_inv A S \<longleftrightarrow> worker_inv A (submitted S) (impl S) \<and> requestedEpoch (impl S) \<le> streamEpoch S \<and>
     render_ok (render S) (requestedEpoch (impl S)) \<and> (\<forall>b\<in>set (handed S). genuine A (submitted S) b) \<and>
     w_pc (impl S) \<noteq> NoThread \<and> (w_pc (impl S) = WWarmup \<longrightarrow> \<not> failed (impl S) \<and> denoiser (impl S) = Some [] \<and> outputFifoCount (impl S) = 0)"

lemma dp_init_inv: "dp_init S \<Longrightarrow> dp_inv A S"
  by (auto simp: dp_init_def dp_inv_def worker_inv_def shape_def pending_def hist_def fifo_ok_def DPDFNET_BLOCK_SAMPLES_def)

lemma dp_step_inv:
  assumes "dp_step A S S'" "dp_inv A S"
  shows "dp_inv A S'"
  using assms(1)
proof cases
  case worker
  then show ?thesis
    using assms(2) worker_step_keeps_inv [of A "submitted S" "impl S"] worker_step_request [of "impl S" A]
    unfolding dp_inv_def by simp
next
  case (block ep inp)
  then have "worker_inv A (submitted S) ((impl S)\<lparr>requestedEpoch := ep\<rparr>)"
    using assms(2) by (intro worker_inv_request) (auto simp: dp_inv_def intro: order.trans)
  then show ?thesis using block assms(2) unfolding dp_inv_def by simp
next
  case (submit ep inp pushed q)
  let ?new = "if pushed then [\<lparr>epoch = ep, samples = take DPDFNET_BLOCK_SAMPLES inp\<rparr>] else []"
  have "worker_inv A (submitted S @ ?new) ((impl S)\<lparr>inputQueue := q\<rparr>)"
    using assms(2) submit worker_inv_submit [of A "submitted S" "impl S" ep inp pushed q] by (simp add: dp_inv_def)
  then have "worker_inv A (submitted S @ ?new) (Dpdfnet_Processor.submit ep inp (impl S))"
    by (rule worker_inv_cong) (auto simp: submit_def Let_def signalWorker_def submit(3))
  moreover have "requestedEpoch (Dpdfnet_Processor.submit ep inp (impl S)) = requestedEpoch (impl S)"
    "w_pc (Dpdfnet_Processor.submit ep inp (impl S)) = w_pc (impl S)" "failed (Dpdfnet_Processor.submit ep inp (impl S)) = failed (impl S)"
    "outputFifoCount (Dpdfnet_Processor.submit ep inp (impl S)) = outputFifoCount (impl S)"
    "denoiser (Dpdfnet_Processor.submit ep inp (impl S)) = denoiser (impl S)"
    by (auto simp: submit_def Let_def signalWorker_def submit(3))
  moreover have "\<forall>b\<in>set (handed S). genuine A (submitted S @ ?new) b" using assms(2) genuine_mono unfolding dp_inv_def by blast
  ultimately show ?thesis using submit(1,2) assms(2) unfolding dp_inv_def by simp
next
  case (collect_none ep q)
  have "tq_inv (outputQueue (impl S))" using assms(2) by (simp add: dp_inv_def worker_inv_def shape_def)
  then have "q = outputQueue (impl S)" using tq_pop_None collect_none(3) by blast
  then have "worker_inv A (submitted S) ((impl S)\<lparr>outputQueue := q, outputUnderflows := outputUnderflows (impl S) + 1\<rparr>)"
    using assms(2) worker_inv_cong [of A "submitted S" "impl S"] by (simp add: dp_inv_def)
  then show ?thesis using collect_none assms(2) unfolding dp_inv_def by simp
next
  case (collect_block ep b q)
  have "tq_inv (outputQueue (impl S))" using assms(2) by (simp add: dp_inv_def worker_inv_def shape_def)
  note pop = tq_pop_Some [OF this collect_block(3)]
  have "worker_inv A (submitted S) ((impl S)\<lparr>outputQueue := q\<rparr>)"
    using worker_inv_outputQueue [of A "submitted S" "impl S" q] assms(2) pop by (auto simp: dp_inv_def)
  moreover have "genuine A (submitted S) b" using assms(2) pop(1) by (simp add: dp_inv_def worker_inv_def)
  ultimately show ?thesis using collect_block assms(2) unfolding dp_inv_def by simp
next
  case (collect_stale ep b q)
  have "tq_inv (outputQueue (impl S))" using assms(2) by (simp add: dp_inv_def worker_inv_def shape_def)
  note pop = tq_pop_Some [OF this collect_stale(3)]
  have "worker_inv A (submitted S) ((impl S)\<lparr>outputQueue := q\<rparr>)"
    using worker_inv_outputQueue [of A "submitted S" "impl S" q] assms(2) pop by (auto simp: dp_inv_def)
  then show ?thesis using collect_stale assms(2) unfolding dp_inv_def by simp
next
  case (set_epoch ep)
  then have "worker_inv A (submitted S) ((impl S)\<lparr>requestedEpoch := ep\<rparr>)"
    using assms(2) by (intro worker_inv_request) (auto simp: dp_inv_def intro: order.trans)
  then show ?thesis using set_epoch assms(2) unfolding dp_inv_def by simp
next
  case discard
  have q: "tq_inv (outputQueue (impl S))" using assms(2) by (simp add: dp_inv_def worker_inv_def shape_def)
  have "worker_inv A (submitted S) ((impl S)\<lparr>outputQueue := tq_discardAll (outputQueue (impl S))\<rparr>)"
    using worker_inv_outputQueue [of A "submitted S" "impl S"] assms(2) tq_discard_contents [OF q] by (simp add: dp_inv_def)
  then have "worker_inv A (submitted S) (signalWorker ((impl S)\<lparr>outputQueue := tq_discardAll (outputQueue (impl S))\<rparr>))"
    by (rule worker_inv_cong) (simp_all add: signalWorker_def)
  then show ?thesis using discard assms(2) unfolding dp_inv_def by (simp add: signalWorker_def)
next
  case prepared
  have "worker_inv A (submitted S) ((impl S)\<lparr>ready := True\<rparr>)"
    using assms(2) worker_inv_cong [of A "submitted S" "impl S"] by (simp add: dp_inv_def)
  then show ?thesis using prepared assms(2) unfolding dp_inv_def by simp
next
  case stop
  have "worker_inv A (submitted S) (signalWorker ((impl S)\<lparr>ready := False, stopRequested := True\<rparr>))"
    using assms(2) worker_inv_cong [of A "submitted S" "impl S"] by (simp add: dp_inv_def signalWorker_def)
  then show ?thesis using stop assms(2) unfolding dp_inv_def by (simp add: signalWorker_def)
qed

lemma dp_reach_inv: "dp_reach A S \<Longrightarrow> dp_inv A S"
  by (induction rule: dp_reach.induct) (auto intro: dp_init_inv dp_step_inv)

text \<open>
  C36. In every interleaving of the render thread and the worker, with epochs that never go back, each block
  handed out for an epoch is a stretch of what the session made, from a reset on, of blocks submitted with
  that epoch, in their order and each at most once: no audio crosses a stream reset.
\<close>

theorem no_audio_crosses_epochs:
  assumes "dp_reach A S" "b \<in> set (handed S)"
  shows "genuine A (submitted S) b"
  using dp_reach_inv [OF assms(1)] assms(2) by (simp add: dp_inv_def)

text \<open>A block of epoch 5 goes to the worker and comes back while the render thread is in \<open>processBlock\<close>.\<close>

theorem no_audio_crosses_epochs_witness:
  "\<exists>S b. dp_reach echo S \<and> b \<in> set (handed S) \<and> epoch b = 5 \<and> samples b = replicate 480 7 \<and> genuine echo (submitted S) b"
proof -
  define B :: "int block" where "B = \<lparr>epoch = 5, samples = replicate 480 7\<rparr>"
  define q0 :: "int block_queue" where "q0 = tq_new 32"
  define q1 where "q1 = q0\<lparr>m_blocks := (m_blocks q0)[0 := B], m_write := 1\<rparr>"
  define q2 where "q2 = q1\<lparr>m_read := 1\<rparr>"
  define f0 :: "int list" where "f0 = replicate FIFO_CAPACITY 0"
  have len: "DPDFNET_BLOCK_SAMPLES = 480" "FIFO_CAPACITY = 30720" "MAX_OUTPUT_SAMPLES = 1920"
    by (simp_all add: DPDFNET_BLOCK_SAMPLES_def FIFO_CAPACITY_def MAX_OUTPUT_SAMPLES_def)
  have q: "m_read q0 = 0" "m_write q0 = 0" "length (m_blocks q0) = 32" "tq_inv q0" "tq_contents q0 = []"
    by (simp_all add: q0_def tq_new_inv) (simp_all add: tq_new_def)
  have push: "tq_push q0 (5, replicate 480 7) = (True, q1)"
    using q by (simp add: tq_push_def q1_def Let_def len B_def)
  have pop: "tq_pop q1 = (Some B, q2)" using q by (simp add: tq_pop_def q2_def q1_def)
  define s0 where "s0 = (impl_new\<lparr>api_module := True, denoiser := Some [], readyEvent := Some False, w_pc := WWarmup\<rparr> :: int impl)"
  have f: "length f0 = 30720" "take 480 (blit f0 0 (replicate 480 7)) = replicate 480 7"
    by (simp_all add: f0_def len blit_def)
  have s0: "inputQueue s0 = q0" "outputQueue s0 = q0" "outputFifo s0 = f0" "outputFifoCount s0 = 0" "\<not> failed s0" "\<not> stopRequested s0"
    "requestedEpoch s0 = 1" "workerEpoch s0 = 1" "w_pc s0 = WWarmup" "\<not> ready s0" "expectedSampleRate s0 = 48000" "wakeEvent s0 = None"
    "denoiser s0 = Some []" "readyEvent s0 = Some False"
    by (simp_all add: s0_def impl_new_def q0_def f0_def QUEUE_CAPACITY_def)
  define S0 where "S0 = \<lparr>impl = s0, render = RIdle, streamEpoch = 1, submitted = [], handed = []\<rparr>"
  have r0: "dp_reach echo S0"
    by (rule dp_reach.init) (simp add: S0_def dp_init_def s0 q f(1) len)
  have go: "dp_reach echo (S\<lparr>impl := t\<rparr>)" if "dp_reach echo S" "worker_step echo (impl S) = t" for S t
    using that dp_reach.step dp_step.worker by metis
  define s1 where "s1 = s0\<lparr>workerEpoch := 1, ready := True, readyEvent := Some True, w_pc := WTop\<rparr>"
  have "validAudio echo 48000 (run echo h (replicate 480 x))" for h x by (rule echo_valid) (simp add: len)
  then have valid: "validAudio echo 48000 (Some \<lparr>a_sample_rate = 48000, a_n = 480, a_samples = Some (replicate 480 x)\<rparr>)" for x
    by (simp add: echo_def)
  have run: "run echo h (replicate 480 x) = Some \<lparr>a_sample_rate = 48000, a_n = 480, a_samples = Some (replicate 480 x)\<rparr>" for h x
    by (simp add: echo_def)
  have "worker_step echo s0 = s1" using s0 valid [of 0] by (simp add: worker_step_def s1_def run len Let_def)
  then have r1: "dp_reach echo (S0\<lparr>impl := s1\<rparr>)" using go [OF r0] by (simp add: S0_def)
  define S1 where "S1 = S0\<lparr>impl := s1\<lparr>requestedEpoch := 5\<rparr>, render := RSubmit 5 (replicate 480 7), streamEpoch := 5\<rparr>"
  have "dp_step echo (S0\<lparr>impl := s1\<rparr>) S1"
    using dp_step.block [of "S0\<lparr>impl := s1\<rparr>" 5 "replicate 480 7" echo] s0 by (simp add: S1_def S0_def s1_def len)
  then have r2: "dp_reach echo S1" using r1 by (rule dp_reach.step [rotated])
  define s2 where "s2 = s1\<lparr>requestedEpoch := 5, inputQueue := q1\<rparr>"
  define S2 where "S2 = S1\<lparr>impl := s2, render := RCollect 5, submitted := [B]\<rparr>"
  have "Dpdfnet_Processor.submit 5 (replicate 480 7) (s1\<lparr>requestedEpoch := 5\<rparr>) = s2"
    using s0 by (simp add: submit_def s2_def s1_def push signalWorker_def)
  then have "dp_step echo S1 S2"
    using dp_step.submit [of S1 5 "replicate 480 7" True q1 echo] push s0 by (simp add: S2_def S1_def S0_def s1_def len B_def)
  then have r3: "dp_reach echo S2" using r2 by (rule dp_reach.step [rotated])
  have I: "impl S2 = s2" "S2\<lparr>impl := t\<rparr>\<lparr>impl := t'\<rparr> = S2\<lparr>impl := t'\<rparr>" for t t' by (simp_all add: S2_def)
  define s3 where "s3 = s2\<lparr>denoiser := Some [], workerEpoch := 5, outputFifoCount := 0, w_pc := WPop\<rparr>"
  have "worker_step echo s2 = s3" using s0 by (simp add: worker_step_def s3_def s2_def s1_def resetWorkerState_def)
  then have r4: "dp_reach echo (S2\<lparr>impl := s3\<rparr>)" using go [OF r3] I by simp
  define s4 where "s4 = s3\<lparr>inputQueue := q2, w_pc := WGot B\<rparr>"
  have "worker_step echo s3 = s4" by (simp add: worker_step_def s4_def s3_def s2_def pop)
  then have r5: "dp_reach echo (S2\<lparr>impl := s4\<rparr>)" using go [OF r4] I by simp
  have "worker_step echo s4 = s4\<lparr>w_pc := WMatch B\<rparr>" using s0 by (simp add: worker_step_def s4_def s3_def s2_def s1_def B_def)
  then have r6: "dp_reach echo (S2\<lparr>impl := s4\<lparr>w_pc := WMatch B\<rparr>\<rparr>)" using go [OF r5] I by simp
  have "worker_step echo (s4\<lparr>w_pc := WMatch B\<rparr>) = s4\<lparr>w_pc := WRun B\<rparr>" using s0 by (simp add: worker_step_def s4_def s3_def s2_def s1_def B_def)
  then have r7: "dp_reach echo (S2\<lparr>impl := s4\<lparr>w_pc := WRun B\<rparr>\<rparr>)" using go [OF r6] I by simp
  let ?au = "\<lparr>a_sample_rate = 48000, a_n = 480, a_samples = Some (replicate 480 7)\<rparr>"
  define s5 where "s5 = s4\<lparr>denoiser := Some [replicate 480 7], w_pc := WRan (Some ?au)\<rparr>"
  have "worker_step echo (s4\<lparr>w_pc := WRun B\<rparr>) = s5"
    by (simp add: worker_step_def s5_def s4_def s3_def Let_def B_def run)
  then have r8: "dp_reach echo (S2\<lparr>impl := s5\<rparr>)" using go [OF r7] I by simp
  have au: "audio_samples ?au = replicate 480 7" by (simp add: audio_samples_def)
  have c5: "outputFifo s5 = f0" "outputFifoCount s5 = 0" "workerEpoch s5 = 5" "requestedEpoch s5 = 5" "expectedSampleRate s5 = 48000" "outputQueue s5 = q0"
    using s0 by (simp_all add: s5_def s4_def s3_def s2_def s1_def)
  have "append_copy (replicate 480 7) s5 = s5\<lparr>outputFifo := blit f0 0 (replicate 480 7), outputFifoCount := 480\<rparr>"
    using append_copy_fits [of "replicate 480 7" s5] c5 by (simp add: len)
  moreover define s6 where "s6 = s5\<lparr>outputFifo := blit f0 0 (replicate 480 7), outputFifoCount := 480, w_pc := WDrain\<rparr>"
  ultimately have "worker_step echo s5 = s6" using valid [of 7] c5 by (simp add: worker_step_def au s5_def)
  then have r9: "dp_reach echo (S2\<lparr>impl := s6\<rparr>)" using go [OF r8] I by simp
  have "outputQueue (worker_step echo s6) = q1"
    using c5 push by (simp add: worker_step_def s6_def drain_block_def len f(2) Let_def)
  moreover have "dp_reach echo (S2\<lparr>impl := worker_step echo s6\<rparr>)" using go [OF r9 refl] I by simp
  moreover define S3 where "S3 = S2\<lparr>impl := worker_step echo s6\<rparr>"
  ultimately have r10: "dp_reach echo S3" "tq_pop (outputQueue (impl S3)) = (Some B, q2)" "render S3 = RCollect 5" "handed S3 = []"
    using pop by (simp_all add: S2_def S1_def S0_def)
  define S4 where "S4 = S3\<lparr>impl := (impl S3)\<lparr>outputQueue := q2\<rparr>, render := RIdle, handed := [B]\<rparr>"
  have "dp_step echo S3 S4" using dp_step.collect_block [OF r10(3,2)] r10(4) by (simp add: S4_def B_def)
  then have r11: "dp_reach echo S4" using r10(1) by (rule dp_reach.step [rotated])
  have "B \<in> set (handed S4)" by (simp add: S4_def)
  with no_audio_crosses_epochs [OF r11 this] r11 show ?thesis
    by (intro exI [of _ S4] exI [of _ B]) (simp add: B_def)
qed

end
