(* ===== verification/App_State.thy ===== *)
theory App_State
  imports VM_Prelude
begin

text \<open>
  \<open>src/app_state.h\<close> and \<open>src/app_error.h\<close>: the state the threads share (\<open>g_appState\<close>), whose members are
  written here with the prefix \<open>g_\<close>, and the error values of the paths that are not real-time.
\<close>

section \<open>Shared state\<close>

datatype DenoiseBackendKind = Rnnoise | Dpdfnet | Off

fun backend_int :: "DenoiseBackendKind \<Rightarrow> int" where
  "backend_int Rnnoise = 0"
| "backend_int Dpdfnet = 1"
| "backend_int Off = 2"

datatype DpdfnetLoadState = NotLoaded | Loading | Ready | Failed

fun load_int :: "DpdfnetLoadState \<Rightarrow> int" where
  "load_int NotLoaded = 0"
| "load_int Loading = 1"
| "load_int Ready = 2"
| "load_int Failed = 3"

record 'a AppState =
  g_gain :: 'a
  g_eqEnabled :: bool
  g_eqPresence :: 'a
  g_eqBassCut :: 'a
  g_compressorEnabled :: bool
  g_nrEnabled :: bool
  g_nrStrength :: 'a
  g_denoiseBackend :: int
  g_denoiseResetEpoch :: u64
  g_dpdfnetAvailable :: bool
  g_dpdfnetDegraded :: bool
  g_dpdfnetLoadState :: int
  g_denoiseEffectiveBackend :: int
  g_running :: bool
  g_micRequested :: bool
  g_demandMode :: bool
  g_alwaysHot :: bool
  g_micOnTick :: u64

definition app_state_new :: "'a::{one,uminus,scaleR} AppState" where
  "app_state_new = \<lparr>g_gain = lit 1.5, g_eqEnabled = False, g_eqPresence = lit 3, g_eqBassCut = - lit 3,
     g_compressorEnabled = False, g_nrEnabled = True, g_nrStrength = lit 0.6, g_denoiseBackend = backend_int Dpdfnet,
     g_denoiseResetEpoch = 1, g_dpdfnetAvailable = False, g_dpdfnetDegraded = False,
     g_dpdfnetLoadState = load_int NotLoaded, g_denoiseEffectiveBackend = backend_int Rnnoise,
     g_running = True, g_micRequested = False, g_demandMode = True, g_alwaysHot = True, g_micOnTick = 0\<rparr>"

definition requestDenoiseReset :: "'a AppState \<Rightarrow> 'a AppState" where
  "requestDenoiseReset g = g\<lparr>g_denoiseResetEpoch := g_denoiseResetEpoch g + 1\<rparr>"

section \<open>Errors\<close>

datatype AppErrorCode = NoError | NotFound | InvalidArgument | Io | Unavailable | Protocol

record AppError =
  err_code :: AppErrorCode
  err_detail :: string

definition AppError_make :: "AppErrorCode \<Rightarrow> string \<Rightarrow> AppError" where
  "AppError_make c d = \<lparr>err_code = c, err_detail = d\<rparr>"

fun toString :: "AppErrorCode \<Rightarrow> string" where
  "toString NoError = ''none''"
| "toString NotFound = ''notFound''"
| "toString InvalidArgument = ''invalidArgument''"
| "toString Io = ''io''"
| "toString Unavailable = ''unavailable''"
| "toString Protocol = ''protocol''"

definition describe :: "AppError \<Rightarrow> string" where
  "describe e = (if err_detail e \<noteq> '''' then toString (err_code e) @ '': '' @ err_detail e else toString (err_code e))"

end
