(* ===== verification/Dsp_Biquad.thy ===== *)
theory Dsp_Biquad
  imports VM_Prelude
begin

text \<open>
  \<open>src/dsp/biquad.h\<close>: a second-order filter section in transposed direct form II, and the formulas of its
  coefficients. The functions of the mathematical library are an argument.
\<close>

record 'a fmath =
  cosf :: "'a \<Rightarrow> 'a"
  sinf :: "'a \<Rightarrow> 'a"
  powf :: "'a \<Rightarrow> 'a \<Rightarrow> 'a"
  sqrtf :: "'a \<Rightarrow> 'a"
  expf :: "'a \<Rightarrow> 'a"
  log10f :: "'a \<Rightarrow> 'a"

record 'a Biquad =
  b0 :: 'a
  b1 :: 'a
  b2 :: 'a
  a1 :: 'a
  a2 :: 'a
  z1 :: 'a
  z2 :: 'a

definition biquad_new :: "'a::{zero,one} Biquad" where
  "biquad_new = \<lparr>b0 = 1, b1 = 0, b2 = 0, a1 = 0, a2 = 0, z1 = 0, z2 = 0\<rparr>"

definition setHPF :: "'a fmath \<Rightarrow> 'a \<Rightarrow> 'a \<Rightarrow> 'a \<Rightarrow> 'a::{one,plus,minus,uminus,times,inverse,scaleR} Biquad \<Rightarrow> 'a Biquad" where
  "setHPF M freq q sr bq =
     (let w = lit 2 * lit 3.14159265 * freq / sr;
          cosW = cosf M w; sinW = sinf M w;
          alpha = sinW / (lit 2 * q);
          a0 = 1 + alpha;
          bh = (1 + cosW) / lit 2;
          b = bh / a0
      in bq\<lparr>b0 := b, b1 := - (1 + cosW) / a0, b2 := b, a1 := (- lit 2 * cosW) / a0, a2 := (1 - alpha) / a0\<rparr>)"

definition setLowShelf ::
  "'a fmath \<Rightarrow> 'a \<Rightarrow> 'a \<Rightarrow> 'a \<Rightarrow> 'a \<Rightarrow> 'a::{one,plus,minus,uminus,times,inverse,scaleR} Biquad \<Rightarrow> 'a Biquad" where
  "setLowShelf M freq dbGain q sr bq =
     (let a = powf M (lit 10) (dbGain / lit 40);
          w = lit 2 * lit 3.14159265 * freq / sr;
          cosW = cosf M w; sinW = sinf M w;
          beta = lit 2 * sqrtf M a * sinW / (lit 2 * q);
          a0 = (a + 1) + (a - 1) * cosW + beta
      in bq\<lparr>b0 := a * ((a + 1) - (a - 1) * cosW + beta) / a0,
            b1 := lit 2 * a * ((a - 1) - (a + 1) * cosW) / a0,
            b2 := a * ((a + 1) - (a - 1) * cosW - beta) / a0,
            a1 := - lit 2 * ((a - 1) + (a + 1) * cosW) / a0,
            a2 := ((a + 1) + (a - 1) * cosW - beta) / a0\<rparr>)"

definition setPeak ::
  "'a fmath \<Rightarrow> 'a \<Rightarrow> 'a \<Rightarrow> 'a \<Rightarrow> 'a \<Rightarrow> 'a::{one,plus,minus,uminus,times,inverse,scaleR} Biquad \<Rightarrow> 'a Biquad" where
  "setPeak M freq dbGain q sr bq =
     (let a = powf M (lit 10) (dbGain / lit 40);
          w = lit 2 * lit 3.14159265 * freq / sr;
          cosW = cosf M w; sinW = sinf M w;
          alpha = sinW / (lit 2 * q);
          a0 = 1 + alpha / a;
          b = (- lit 2 * cosW) / a0
      in bq\<lparr>b0 := (1 + alpha * a) / a0, b1 := b, b2 := (1 - alpha * a) / a0, a1 := b, a2 := (1 - alpha / a) / a0\<rparr>)"

definition setHighShelf ::
  "'a fmath \<Rightarrow> 'a \<Rightarrow> 'a \<Rightarrow> 'a \<Rightarrow> 'a \<Rightarrow> 'a::{one,plus,minus,uminus,times,inverse,scaleR} Biquad \<Rightarrow> 'a Biquad" where
  "setHighShelf M freq dbGain q sr bq =
     (let a = powf M (lit 10) (dbGain / lit 40);
          w = lit 2 * lit 3.14159265 * freq / sr;
          cosW = cosf M w; sinW = sinf M w;
          beta = lit 2 * sqrtf M a * sinW / (lit 2 * q);
          a0 = (a + 1) - (a - 1) * cosW + beta
      in bq\<lparr>b0 := a * ((a + 1) + (a - 1) * cosW + beta) / a0,
            b1 := - lit 2 * a * ((a - 1) + (a + 1) * cosW) / a0,
            b2 := a * ((a + 1) + (a - 1) * cosW - beta) / a0,
            a1 := lit 2 * ((a - 1) - (a + 1) * cosW) / a0,
            a2 := ((a + 1) - (a - 1) * cosW - beta) / a0\<rparr>)"

text \<open>\<open>Biquad::process\<close> and \<open>Biquad::reset\<close>.\<close>

definition bq_process :: "'a::{plus,minus,times} \<Rightarrow> 'a Biquad \<Rightarrow> 'a \<times> 'a Biquad" where
  "bq_process x bq =
     (let y = b0 bq * x + z1 bq
      in (y, bq\<lparr>z1 := b1 bq * x - a1 bq * y + z2 bq, z2 := b2 bq * x - a2 bq * y\<rparr>))"

definition bq_reset :: "'a::zero Biquad \<Rightarrow> 'a Biquad" where
  "bq_reset bq = bq\<lparr>z1 := 0, z2 := 0\<rparr>"

text \<open>A run of the section over a block.\<close>

fun bq_run :: "'a::{plus,minus,times} list \<Rightarrow> 'a Biquad \<Rightarrow> 'a list \<times> 'a Biquad" where
  "bq_run [] bq = ([], bq)"
| "bq_run (x # xs) bq = (let (y, bq') = bq_process x bq; (ys, bq'') = bq_run xs bq' in (y # ys, bq''))"

lemma bq_run_length: "length (fst (bq_run xs bq)) = length xs"
  by (induction xs arbitrary: bq) (auto simp: Let_def split: prod.split, metis fst_conv)

text \<open>
  The transposed form computes the recurrence of the transfer function, 
  \<open>y n = b0 x n + b1 x (n-1) + b2 x (n-2) - a1 y (n-1) - a2 y (n-2)\<close>, the delays standing for what was before the block.
\<close>

lemma bq_run_recurrence:
  fixes bq :: "real Biquad"
  assumes "n < length xs"
  shows "fst (bq_run xs bq) ! n = b0 bq * xs ! n +
    (if n = 0 then z1 bq else b1 bq * xs ! (n - 1) - a1 bq * fst (bq_run xs bq) ! (n - 1) +
      (if n = 1 then z2 bq else b2 bq * xs ! (n - 2) - a2 bq * fst (bq_run xs bq) ! (n - 2)))"
  using assms
proof (induction xs arbitrary: bq n)
  case (Cons x xs)
  let ?bq = "snd (bq_process x bq)"
  have coeffs: "b0 ?bq = b0 bq" "b1 ?bq = b1 bq" "b2 ?bq = b2 bq" "a1 ?bq = a1 bq" "a2 ?bq = a2 bq"
    "z1 ?bq = b1 bq * x - a1 bq * fst (bq_process x bq) + z2 bq" "z2 ?bq = b2 bq * x - a2 bq * fst (bq_process x bq)"
    by (simp_all add: bq_process_def Let_def)
  have run: "fst (bq_run (x # xs) bq) = fst (bq_process x bq) # fst (bq_run xs ?bq)"
    by (simp add: Let_def split: prod.split)
  show ?case
  proof (cases n)
    case 0
    then show ?thesis unfolding run by (simp add: bq_process_def Let_def)
  next
    case (Suc m)
    then show ?thesis using Cons.IH [of m ?bq] Cons.prems unfolding run coeffs
      by (cases m; cases "m - 1") (auto simp: nth_Cons')
  qed
qed simp

end
