(* ===== verification/Rnn_Arch.thy ===== *)
theory Rnn_Arch
  imports VM_Prelude
begin

text \<open>
  What the RNNoise files share: the macros of \<open>arch.h\<close> (in the floating-point build, the one
  compiled here, where the fixed-point shifts are the identity), the sizes of \<open>denoise.h\<close>, and
  the functions of the C library, which are parameters.

  A sample is of a type \<open>'a\<close> with the operations used and no laws. Intermediate results that C
  computes in \<open>double\<close> are of the same type.
\<close>

section \<open>Conversions and the C library\<close>

record 'a fops =
  f_of_int :: "int \<Rightarrow> 'a"
  f_floor :: "'a \<Rightarrow> int"
  f_bits :: "'a \<Rightarrow> u32"
  f_of_bits :: "u32 \<Rightarrow> 'a"

record 'a libm =
  c_sqrt :: "'a \<Rightarrow> 'a"
  c_log10 :: "'a \<Rightarrow> 'a"

section \<open>Macros\<close>

definition MIN32 :: "'a::ord \<Rightarrow> 'a \<Rightarrow> 'a" where "MIN32 a b = (if a < b then a else b)"
definition MAX32 :: "'a::ord \<Rightarrow> 'a \<Rightarrow> 'a" where "MAX32 a b = (if b < a then a else b)"

definition MAC16_16 :: "'a::{plus,times} \<Rightarrow> 'a \<Rightarrow> 'a \<Rightarrow> 'a" where "MAC16_16 c a b = c + a * b"

definition HALF32 :: "'a::{one,times,scaleR} \<Rightarrow> 'a" where "HALF32 x = lit 0.5 * x"

text \<open>\<open>!=\<close> on floats, by the comparisons, so that it also holds of NaN.\<close>

definition fneq :: "'a::ord \<Rightarrow> 'a \<Rightarrow> bool" where "fneq a b = (\<not> (a \<le> b \<and> b \<le> a))"

lemma fneq_real [simp]: "fneq a b = (a \<noteq> (b::real))"
  by (auto simp: fneq_def)

section \<open>Sizes\<close>

definition FRAME_SIZE :: nat where "FRAME_SIZE = 480"
definition WINDOW_SIZE :: nat where "WINDOW_SIZE = 2 * FRAME_SIZE"
definition FREQ_SIZE :: nat where "FREQ_SIZE = FRAME_SIZE + 1"
definition NB_BANDS :: nat where "NB_BANDS = 32"
definition NB_FEATURES :: nat where "NB_FEATURES = 2 * NB_BANDS + 1"
definition PITCH_MIN_PERIOD :: nat where "PITCH_MIN_PERIOD = 60"
definition PITCH_MAX_PERIOD :: nat where "PITCH_MAX_PERIOD = 768"
definition PITCH_FRAME_SIZE :: nat where "PITCH_FRAME_SIZE = 960"
definition PITCH_BUF_SIZE :: nat where "PITCH_BUF_SIZE = PITCH_MAX_PERIOD + PITCH_FRAME_SIZE"

lemmas denoise_sizes = FRAME_SIZE_def WINDOW_SIZE_def FREQ_SIZE_def NB_BANDS_def NB_FEATURES_def
  PITCH_MIN_PERIOD_def PITCH_MAX_PERIOD_def PITCH_FRAME_SIZE_def PITCH_BUF_SIZE_def

end
