(* ===== verification/Rnn_Fft.thy ===== *)
theory Rnn_Fft
  imports Rnn_Arch
begin

text \<open>
  The mixed-radix Fourier transform: \<open>kiss_fft.h\<close>, \<open>_kiss_fft_guts.h\<close> and \<open>kiss_fft.c\<close> in the
  floating-point build, with \<open>CUSTOM_MODES\<close> defined as the file itself does.

  The samples are of a type without laws; array accesses are checked. The cells of one butterfly
  are read before they are written; the C code interleaves this, on the same distinct cells.
\<close>

section \<open>Complex numbers\<close>

record 'a cpx =
  cr :: 'a
  ci :: 'a

definition C_MUL :: "'a::{plus,minus,times} cpx \<Rightarrow> 'a cpx \<Rightarrow> 'a cpx" where
  "C_MUL a b = \<lparr>cr = cr a * cr b - ci a * ci b, ci = cr a * ci b + ci a * cr b\<rparr>"

definition C_ADD :: "'a::plus cpx \<Rightarrow> 'a cpx \<Rightarrow> 'a cpx" where
  "C_ADD a b = \<lparr>cr = cr a + cr b, ci = ci a + ci b\<rparr>"

definition C_SUB :: "'a::minus cpx \<Rightarrow> 'a cpx \<Rightarrow> 'a cpx" where
  "C_SUB a b = \<lparr>cr = cr a - cr b, ci = ci a - ci b\<rparr>"

definition C_MULBYSCALAR :: "'a::times cpx \<Rightarrow> 'a \<Rightarrow> 'a cpx" where
  "C_MULBYSCALAR c s = \<lparr>cr = cr c * s, ci = ci c * s\<rparr>"

definition HALF_OF :: "'a::{one,times,scaleR} \<Rightarrow> 'a" where
  "HALF_OF x = x * lit 0.5"

section \<open>Butterflies\<close>

text \<open>The \<open>p\<close> cells of a butterfly are \<open>m\<close> apart, from \<open>base\<close> on.\<close>

definition cells :: "nat \<Rightarrow> nat \<Rightarrow> nat \<Rightarrow> 'a list \<Rightarrow> 'a list option" where
  "cells p m base F = those (map (\<lambda>j. rd F (int (base + j * m))) [0..<p])"

definition put_cells :: "nat \<Rightarrow> nat \<Rightarrow> 'a list \<Rightarrow> 'a list \<Rightarrow> 'a list option" where
  "put_cells m base ys F = ofold (\<lambda>j F. wr F (int (base + j * m)) (ys ! j)) [0..<length ys] F"

definition butterfly ::
  "nat \<Rightarrow> nat \<Rightarrow> ('a list \<Rightarrow> 'a list option) \<Rightarrow> nat \<Rightarrow> 'a list \<Rightarrow> 'a list option" where
  "butterfly p m point base F = do {
     xs \<leftarrow> cells p m base F;
     ys \<leftarrow> point xs;
     put_cells m base ys F
   }"

fun point2 :: "'a::{one,plus,minus,uminus,times,scaleR} cpx \<Rightarrow> 'a cpx list \<Rightarrow> 'a cpx list option" where
  "point2 t [f0, f1] = Some [C_ADD f0 t, C_SUB f0 t]"
| "point2 t _ = None"

text \<open>The four unrolled butterflies of radix 2 for \<open>m = 4\<close>.\<close>

definition turn2 :: "nat \<Rightarrow> 'a::{one,plus,minus,uminus,times,scaleR} cpx \<Rightarrow> 'a cpx" where
  "turn2 u f =
     (let tw = lit 0.7071067812
      in if u = 0 then f
         else if u = 1 then \<lparr>cr = (cr f + ci f) * tw, ci = (ci f - cr f) * tw\<rparr>
         else if u = 2 then \<lparr>cr = ci f, ci = - cr f\<rparr>
         else \<lparr>cr = (ci f - cr f) * tw, ci = (- (ci f + cr f)) * tw\<rparr>)"

definition kf_bfly2 ::
  "'a::{one,plus,minus,uminus,times,scaleR} cpx list \<Rightarrow> nat \<Rightarrow> nat \<Rightarrow> 'a cpx list option" where
  "kf_bfly2 Fout m N =
     (if m = 1 then
        ofold (\<lambda>i. butterfly 2 1 (\<lambda>xs. point2 (xs ! 1) xs) (2 * i)) [0..<N] Fout
      else
        ofold (\<lambda>i F. ofold (\<lambda>u. butterfly 2 4 (\<lambda>xs. point2 (turn2 u (xs ! 1)) xs) (8 * i + u)) [0..<4] F)
          [0..<N] Fout)"

text \<open>Radix 4, after the twiddles.\<close>

definition point4 ::
  "'a::{plus,minus} cpx \<Rightarrow> 'a cpx \<Rightarrow> 'a cpx \<Rightarrow> 'a cpx \<Rightarrow> 'a cpx list" where
  "point4 f0 s0 s1 s2 =
     (let s5 = C_SUB f0 s1;
          f0 = C_ADD f0 s1;
          s3 = C_ADD s0 s2;
          s4 = C_SUB s0 s2;
          f2 = C_SUB f0 s3;
          f0 = C_ADD f0 s3
      in [f0, \<lparr>cr = cr s5 + ci s4, ci = ci s5 - cr s4\<rparr>, f2, \<lparr>cr = cr s5 - ci s4, ci = ci s5 + cr s4\<rparr>])"

fun point4_plain :: "'a::{plus,minus} cpx list \<Rightarrow> 'a cpx list option" where
  "point4_plain [f0, f1, f2, f3] = Some (point4 f0 f1 f2 f3)"
| "point4_plain _ = None"

fun point4_twiddled ::
  "'a::{plus,minus,times} cpx list \<Rightarrow> nat \<Rightarrow> nat \<Rightarrow> 'a cpx list \<Rightarrow> 'a cpx list option" where
  "point4_twiddled tw fstride j [f0, f1, f2, f3] = do {
     tw1 \<leftarrow> rd tw (int (j * fstride));
     tw2 \<leftarrow> rd tw (int (j * (fstride * 2)));
     tw3 \<leftarrow> rd tw (int (j * (fstride * 3)));
     Some (point4 f0 (C_MUL f1 tw1) (C_MUL f2 tw2) (C_MUL f3 tw3))
   }"
| "point4_twiddled tw fstride j _ = None"

definition kf_bfly4 ::
  "'a::{plus,minus,times} cpx list \<Rightarrow> nat \<Rightarrow> 'a cpx list \<Rightarrow> nat \<Rightarrow> nat \<Rightarrow> nat \<Rightarrow> 'a cpx list option" where
  "kf_bfly4 Fout fstride tw m N mm =
     (if m = 1 then
        ofold (\<lambda>i. butterfly 4 1 point4_plain (4 * i)) [0..<N] Fout
      else
        ofold (\<lambda>i F. ofold (\<lambda>j. butterfly 4 m (point4_twiddled tw fstride j) (i * mm + j)) [0..<m] F) [0..<N] Fout)"

fun point3 ::
  "'a::{one,plus,minus,times,scaleR} cpx list \<Rightarrow> nat \<Rightarrow> 'a cpx \<Rightarrow> nat \<Rightarrow> 'a cpx list \<Rightarrow> 'a cpx list option" where
  "point3 tw fstride epi3 k [f0, f1, f2] = do {
     tw1 \<leftarrow> rd tw (int (k * fstride));
     tw2 \<leftarrow> rd tw (int (k * (fstride * 2)));
     let s1 = C_MUL f1 tw1;
     let s2 = C_MUL f2 tw2;
     let s3 = C_ADD s1 s2;
     let s0 = C_SUB s1 s2;
     let fm = \<lparr>cr = cr f0 - HALF_OF (cr s3), ci = ci f0 - HALF_OF (ci s3)\<rparr>;
     let s0 = C_MULBYSCALAR s0 (ci epi3);
     Some [C_ADD f0 s3, \<lparr>cr = cr fm - ci s0, ci = ci fm + cr s0\<rparr>, \<lparr>cr = cr fm + ci s0, ci = ci fm - cr s0\<rparr>]
   }"
| "point3 tw fstride epi3 k _ = None"

definition kf_bfly3 ::
  "'a::{one,plus,minus,times,scaleR} cpx list \<Rightarrow> nat \<Rightarrow> 'a cpx list \<Rightarrow> nat \<Rightarrow> nat \<Rightarrow> nat \<Rightarrow> 'a cpx list option" where
  "kf_bfly3 Fout fstride tw m N mm = do {
     epi3 \<leftarrow> rd tw (int (fstride * m));
     ofold (\<lambda>i F. ofold (\<lambda>k. butterfly 3 m (point3 tw fstride epi3 k) (i * mm + k)) [0..<m] F) [0..<N] Fout
   }"

fun point5 ::
  "'a::{plus,minus,uminus,times} cpx list \<Rightarrow> nat \<Rightarrow> 'a cpx \<Rightarrow> 'a cpx \<Rightarrow> nat \<Rightarrow> 'a cpx list \<Rightarrow> 'a cpx list option" where
  "point5 tw fstride ya yb u [f0, f1, f2, f3, f4] = do {
     t1 \<leftarrow> rd tw (int (u * fstride));
     t2 \<leftarrow> rd tw (int (2 * u * fstride));
     t3 \<leftarrow> rd tw (int (3 * u * fstride));
     t4 \<leftarrow> rd tw (int (4 * u * fstride));
     let s1 = C_MUL f1 t1;
     let s2 = C_MUL f2 t2;
     let s3 = C_MUL f3 t3;
     let s4 = C_MUL f4 t4;
     let s7 = C_ADD s1 s4;
     let s10 = C_SUB s1 s4;
     let s8 = C_ADD s2 s3;
     let s9 = C_SUB s2 s3;
     let s5 = \<lparr>cr = cr f0 + (cr s7 * cr ya + cr s8 * cr yb), ci = ci f0 + (ci s7 * cr ya + ci s8 * cr yb)\<rparr>;
     let s6 = \<lparr>cr = ci s10 * ci ya + ci s9 * ci yb, ci = - (cr s10 * ci ya + cr s9 * ci yb)\<rparr>;
     let s11 = \<lparr>cr = cr f0 + (cr s7 * cr yb + cr s8 * cr ya), ci = ci f0 + (ci s7 * cr yb + ci s8 * cr ya)\<rparr>;
     let s12 = \<lparr>cr = ci s9 * ci ya - ci s10 * ci yb, ci = cr s10 * ci yb - cr s9 * ci ya\<rparr>;
     Some [\<lparr>cr = cr f0 + (cr s7 + cr s8), ci = ci f0 + (ci s7 + ci s8)\<rparr>,
       C_SUB s5 s6, C_ADD s11 s12, C_SUB s11 s12, C_ADD s5 s6]
   }"
| "point5 tw fstride ya yb u _ = None"

definition kf_bfly5 ::
  "'a::{plus,minus,uminus,times} cpx list \<Rightarrow> nat \<Rightarrow> 'a cpx list \<Rightarrow> nat \<Rightarrow> nat \<Rightarrow> nat \<Rightarrow> 'a cpx list option" where
  "kf_bfly5 Fout fstride tw m N mm = do {
     ya \<leftarrow> rd tw (int (fstride * m));
     yb \<leftarrow> rd tw (int (fstride * 2 * m));
     ofold (\<lambda>i F. ofold (\<lambda>u. butterfly 5 m (point5 tw fstride ya yb u) (i * mm + u)) [0..<m] F) [0..<N] Fout
   }"

section \<open>The transform\<close>

definition MAXFACTORS :: nat where "MAXFACTORS = 8"

record 'a fft_state =
  nfft :: nat
  scale :: 'a
  shift :: int
  factors :: "nat list"
  bitrev :: "nat list"
  twiddles :: "'a cpx list"

text \<open>The strides: \<open>fstride[L+1]\<close> has to be a cell of the array, which has \<open>MAXFACTORS\<close>.\<close>

function fstrides :: "nat list \<Rightarrow> nat list \<Rightarrow> nat list option" where
  "fstrides facs fs =
     (let L = length fs - 1
      in if 2 * L + 1 < length facs \<and> L + 1 < MAXFACTORS
         then (let fs' = fs @ [last fs * facs ! (2 * L)]
               in if facs ! (2 * L + 1) = 1 then Some fs' else fstrides facs fs')
         else None)"
  by pat_completeness auto
termination
  by (relation "measure (\<lambda>(facs, fs). Suc MAXFACTORS - length fs)") (auto simp: MAXFACTORS_def)

declare fstrides.simps [simp del]

definition fft_stage ::
  "'a::{one,plus,minus,uminus,times,scaleR} fft_state \<Rightarrow> nat list \<Rightarrow> nat \<Rightarrow> 'a cpx list \<times> nat \<Rightarrow>
   ('a cpx list \<times> nat) option" where
  "fft_stage st fs i = (\<lambda>(fout, m). do {
     let sh = (if 0 < shift st then nat (shift st) else 0);
     m2 \<leftarrow> (if i \<noteq> 0 then rd (factors st) (2 * int i - 1) else Some 1);
     p \<leftarrow> rd (factors st) (2 * int i);
     fstr \<leftarrow> rd fs (int i);
     fout \<leftarrow>
       (if p = 2 then kf_bfly2 fout m fstr
        else if p = 4 then kf_bfly4 fout (push_bit sh fstr) (twiddles st) m fstr m2
        else if p = 3 then kf_bfly3 fout (push_bit sh fstr) (twiddles st) m fstr m2
        else if p = 5 then kf_bfly5 fout (push_bit sh fstr) (twiddles st) m fstr m2
        else Some fout);
     Some (fout, m2)
   })"

definition rnn_fft_impl ::
  "'a::{one,plus,minus,uminus,times,scaleR} fft_state \<Rightarrow> 'a cpx list \<Rightarrow> 'a cpx list option" where
  "rnn_fft_impl st fout = do {
     fs \<leftarrow> fstrides (factors st) [1];
     let L = length fs - 1;
     m \<leftarrow> rd (factors st) (2 * int L - 1);
     (fout, m) \<leftarrow> ofold (fft_stage st fs) (rev [0..<L]) (fout, m);
     Some fout
   }"

definition rnn_fft_c ::
  "'a::{one,plus,minus,uminus,times,scaleR} fft_state \<Rightarrow> 'a cpx list \<Rightarrow> 'a cpx list \<Rightarrow> 'a cpx list option" where
  "rnn_fft_c st fin fout = do {
     fout \<leftarrow> ofold (\<lambda>i fout. do {
         x \<leftarrow> rd fin (int i);
         b \<leftarrow> rd (bitrev st) (int i);
         wr fout (int b) \<lparr>cr = scale st * cr x, ci = scale st * ci x\<rparr>
       }) [0..<nfft st] fout;
     rnn_fft_impl st fout
   }"

definition neg_im :: "nat \<Rightarrow> 'a::uminus cpx list \<Rightarrow> 'a cpx list option" where
  "neg_im n fout = ofold (\<lambda>i fout. do {
     x \<leftarrow> rd fout (int i);
     wr fout (int i) (x\<lparr>ci := - ci x\<rparr>)
   }) [0..<n] fout"

definition rnn_ifft_c ::
  "'a::{one,plus,minus,uminus,times,scaleR} fft_state \<Rightarrow> 'a cpx list \<Rightarrow> 'a cpx list \<Rightarrow> 'a cpx list option" where
  "rnn_ifft_c st fin fout = do {
     fout \<leftarrow> ofold (\<lambda>i fout. do {
         x \<leftarrow> rd fin (int i);
         b \<leftarrow> rd (bitrev st) (int i);
         wr fout (int b) x
       }) [0..<nfft st] fout;
     fout \<leftarrow> neg_im (nfft st) fout;
     fout \<leftarrow> rnn_fft_impl st fout;
     neg_im (nfft st) fout
   }"

section \<open>What a stage of butterflies computes\<close>

lemma those_map_Some: "(\<And>x. x \<in> set xs \<Longrightarrow> f x = Some (g x)) \<Longrightarrow> those (map f xs) = Some (map g xs)"
  by (induction xs) auto

lemma cells_Some:
  assumes "\<forall>j<p. base + j * m < length F"
  shows "cells p m base F = Some (map (\<lambda>j. F ! (base + j * m)) [0..<p])"
  unfolding cells_def by (rule those_map_Some) (use assms in \<open>simp add: rd_nat del: of_nat_add of_nat_mult\<close>)

lemma put_cells_nth:
  assumes "0 < m" "\<forall>j<length ys. base + j * m < length F"
  shows "\<exists>F'. put_cells m base ys F = Some F' \<and> length F' = length F \<and>
    (\<forall>j<length ys. F' ! (base + j * m) = ys ! j) \<and>
    (\<forall>n. (\<forall>j<length ys. n \<noteq> base + j * m) \<longrightarrow> F' ! n = F ! n)"
proof -
  let ?P = "\<lambda>J F'. length F' = length F \<and> (\<forall>j<J. F' ! (base + j * m) = ys ! j) \<and>
    (\<forall>n. (\<forall>j<J. n \<noteq> base + j * m) \<longrightarrow> F' ! n = F ! n)"
  have "\<exists>F'. ofold (\<lambda>j F. wr F (int (base + j * m)) (ys ! j)) [0..<length ys] F = Some F' \<and> ?P (length ys) F'"
  proof (rule ofold_inv)
    fix J F' assume J: "J < length ys" "?P J F'"
    then have "wr F' (int (base + J * m)) (ys ! J) = Some (F'[base + J * m := ys ! J])"
      using assms(2) by (intro wr_nat) simp
    moreover have "?P (Suc J) (F'[base + J * m := ys ! J])"
      using J assms by (auto simp: nth_list_update less_Suc_eq)
    ultimately show "\<exists>s'. wr F' (int (base + J * m)) (ys ! J) = Some s' \<and> ?P (Suc J) s'" by blast
  qed simp
  then show ?thesis unfolding put_cells_def .
qed

text \<open>The number \<open>n\<close> of a cell tells the block, the position in it and the branch of the butterfly.\<close>

lemma cell_parts:
  assumes "u < m" "j < p"
  shows "(i * (p * m) + u + j * m) div (p * m) = i" "(i * (p * m) + u + j * m) mod (p * m) = j * m + u"
    "(j * m + u) mod m = u" "(j * m + u) div m = (j::nat)"
proof -
  have "(j + 1) * m \<le> p * m" using assms(2) by (intro mult_le_mono1) simp
  then have lt: "j * m + u < p * m" using assms(1) by simp
  have eq: "i * (p * m) + u + j * m = (j * m + u) + i * (p * m)" by simp
  show "(i * (p * m) + u + j * m) div (p * m) = i" unfolding eq using lt assms by (subst div_mult_self1) auto
  show "(i * (p * m) + u + j * m) mod (p * m) = j * m + u" unfolding eq using lt by (subst mod_mult_self1) simp
  show "(j * m + u) mod m = u" "(j * m + u) div m = j" using assms(1) by simp_all
qed

lemma cell_join:
  assumes "0 < m" "n div (p * m) = (i::nat)" "n mod (p * m) mod m = u"
  shows "n = i * (p * m) + u + (n mod (p * m) div m) * m"
proof -
  have "n = n div (p * m) * (p * m) + n mod (p * m)" by (rule div_mult_mod_eq [symmetric])
  moreover have "n mod (p * m) = n mod (p * m) div m * m + n mod (p * m) mod m" by simp
  ultimately show ?thesis unfolding assms(2,3) by linarith
qed

lemma branch_less: "0 < p \<Longrightarrow> 0 < m \<Longrightarrow> n mod (p * m) div m < (p::nat)"
  by (metis mod_less_divisor less_mult_imp_div_less nat_0_less_mult_iff)

definition stage_value ::
  "nat \<Rightarrow> nat \<Rightarrow> (nat \<Rightarrow> 'a list \<Rightarrow> 'a list) \<Rightarrow> 'a list \<Rightarrow> nat \<Rightarrow> 'a" where
  "stage_value p m pt F n =
     pt (n mod (p * m) mod m) (map (\<lambda>j. F ! (n div (p * m) * (p * m) + n mod (p * m) mod m + j * m)) [0..<p])
       ! (n mod (p * m) div m)"

lemma butterfly_step:
  assumes pm: "0 < p" "0 < m" and point: "\<And>xs. length xs = p \<Longrightarrow> point xs = Some (pt u xs) \<and> length (pt u xs) = p"
    and u: "u < m" and room: "Suc i * (p * m) \<le> length F"
    and G: "length G = length F" "\<forall>j<p. G ! (i * (p * m) + u + j * m) = F ! (i * (p * m) + u + j * m)"
  shows "\<exists>G'. butterfly p m point (i * (p * m) + u) G = Some G' \<and> length G' = length F \<and>
    (\<forall>n. G' ! n = (if n div (p * m) = i \<and> n mod (p * m) mod m = u then stage_value p m pt F n else G ! n))"
proof -
  let ?b = "i * (p * m) + u"
  have inside: "\<forall>j<p. ?b + j * m < length F"
  proof (intro allI impI)
    fix j assume "j < p"
    then have "j * m + u < p * m" using u mult_le_mono1 [of "j + 1" p m] by simp
    then show "?b + j * m < length F" using room by simp
  qed
  let ?xs = "map (\<lambda>j. F ! (?b + j * m)) [0..<p]"
  have "map (\<lambda>j. G ! (?b + j * m)) [0..<p] = ?xs" using G(2) by simp
  then have c: "cells p m ?b G = Some ?xs" using cells_Some [of p ?b m G] inside G(1) by simp
  have p: "point ?xs = Some (pt u ?xs)" "length (pt u ?xs) = p" using point [of ?xs] by simp_all
  obtain G' where G': "put_cells m ?b (pt u ?xs) G = Some G'" "length G' = length F"
    "\<forall>j<p. G' ! (?b + j * m) = pt u ?xs ! j" "\<forall>n. (\<forall>j<p. n \<noteq> ?b + j * m) \<longrightarrow> G' ! n = G ! n"
    using put_cells_nth [OF pm(2), of "pt u ?xs" ?b G] inside G(1) p(2) by auto
  have rest: "G' ! n = (if n div (p * m) = i \<and> n mod (p * m) mod m = u then stage_value p m pt F n else G ! n)" for n
  proof (cases "n div (p * m) = i \<and> n mod (p * m) mod m = u")
    case True
    then have "n = ?b + (n mod (p * m) div m) * m" using cell_join [OF pm(2)] by blast
    then have "G' ! n = pt u ?xs ! (n mod (p * m) div m)" using G'(3) branch_less [OF pm] by metis
    then show ?thesis using True by (simp add: stage_value_def)
  next
    case False
    then have "\<forall>j<p. n \<noteq> ?b + j * m" using cell_parts [OF u] by auto
    then show ?thesis using G'(4) False by auto
  qed
  then show ?thesis using G'(1,2) by (auto simp: butterfly_def c p(1))
qed

lemma butterfly_loop:
  assumes pm: "0 < p" "0 < m"
    and point: "\<And>u xs. u < m \<Longrightarrow> length xs = p \<Longrightarrow> point u xs = Some (pt u xs) \<and> length (pt u xs) = p"
    and room: "N * (p * m) \<le> length F"
  shows "ofold (\<lambda>i F. ofold (\<lambda>u. butterfly p m (point u) (i * (p * m) + u)) [0..<m] F) [0..<N] F =
    Some (map (\<lambda>n. if n div (p * m) < N then stage_value p m pt F n else F ! n) [0..<length F])"
proof -
  let ?P = "\<lambda>i G. length G = length F \<and> (\<forall>n. G ! n = (if n div (p * m) < i then stage_value p m pt F n else F ! n))"
  let ?Q = "\<lambda>i u G. length G = length F \<and>
    (\<forall>n. G ! n = (if n div (p * m) < i \<or> n div (p * m) = i \<and> n mod (p * m) mod m < u then stage_value p m pt F n else F ! n))"
  have "\<exists>G. ofold (\<lambda>i F. ofold (\<lambda>u. butterfly p m (point u) (i * (p * m) + u)) [0..<m] F) [0..<N] F = Some G \<and> ?P N G"
  proof (rule ofold_inv [where P = ?P])
    fix i G assume i: "i < N" "?P i G"
    have room_i: "Suc i * (p * m) \<le> length F" using i(1) room mult_le_mono1 [of "Suc i" N "p * m"] by linarith
    have "\<exists>G'. ofold (\<lambda>u. butterfly p m (point u) (i * (p * m) + u)) [0..<m] G = Some G' \<and> ?Q i m G'"
    proof (rule ofold_inv [where P = "?Q i"])
      fix u H assume u: "u < m" "?Q i u H"
      have "H ! (i * (p * m) + u + j * m) = F ! (i * (p * m) + u + j * m)" if "j < p" for j
        using u(2) cell_parts(1,2) [OF u(1) that, of i] cell_parts(3) [OF u(1) that] by simp
      then obtain H' where H': "butterfly p m (point u) (i * (p * m) + u) H = Some H'" "length H' = length F"
        "\<forall>n. H' ! n = (if n div (p * m) = i \<and> n mod (p * m) mod m = u then stage_value p m pt F n else H ! n)"
        using butterfly_step [OF pm, where point = "point u" and pt = pt and u = u and i = i and F = F and G = H]
          point u room_i by blast
      have "H' ! n = (if n div (p * m) < i \<or> n div (p * m) = i \<and> n mod (p * m) mod m < Suc u
          then stage_value p m pt F n else F ! n)" for n
        using H'(3) u(2) by (auto simp: less_Suc_eq)
      then show "\<exists>H'. butterfly p m (point u) (i * (p * m) + u) H = Some H' \<and> ?Q i (Suc u) H'"
        using H'(1,2) by blast
    qed (use i(2) in simp)
    then obtain G' where G': "ofold (\<lambda>u. butterfly p m (point u) (i * (p * m) + u)) [0..<m] G = Some G'" "?Q i m G'"
      by blast
    have "n mod (p * m) mod m < m" for n using pm(2) by simp
    then have "?P (Suc i) G'" using G'(2) by (simp add: less_Suc_eq)
    then show "\<exists>G'. ofold (\<lambda>u. butterfly p m (point u) (i * (p * m) + u)) [0..<m] G = Some G' \<and> ?P (Suc i) G'"
      using G'(1) by blast
  qed simp
  then obtain G where G: "ofold (\<lambda>i F. ofold (\<lambda>u. butterfly p m (point u) (i * (p * m) + u)) [0..<m] F) [0..<N] F = Some G"
    "?P N G" by blast
  have "G = map (\<lambda>n. if n div (p * m) < N then stage_value p m pt F n else F ! n) [0..<length F]"
    by (rule nth_equalityI) (use G(2) in auto)
  then show ?thesis using G(1) by simp
qed

section \<open>The butterflies in exact arithmetic\<close>

definition to_c :: "real cpx \<Rightarrow> complex" where "to_c z = Complex (cr z) (ci z)"

lemma to_c_simps [simp]:
  "to_c (C_ADD a b) = to_c a + to_c b" "to_c (C_SUB a b) = to_c a - to_c b" "to_c (C_MUL a b) = to_c a * to_c b"
  by (simp_all add: to_c_def C_ADD_def C_SUB_def C_MUL_def complex_eq_iff algebra_simps)

lemma to_c_parts [simp]: "Re (to_c z) = cr z" "Im (to_c z) = ci z"
  by (simp_all add: to_c_def)

text \<open>The powers of the principal root of unity.\<close>

definition wn :: "nat \<Rightarrow> nat \<Rightarrow> complex" where
  "wn N k = cis (- (2 * pi * real k / real N))"

lemma wn_0 [simp]: "wn N 0 = 1"
  by (simp add: wn_def)

lemma wn_add: "wn N (j + k) = wn N j * wn N k"
  by (simp add: wn_def cis_mult add_divide_distrib algebra_simps)

lemma wn_cancel: "0 < F \<Longrightarrow> wn (F * M) (F * k) = wn M k"
  by (simp add: wn_def mult.assoc)

lemma wn_period: "wn N (k * N) = 1"
proof (cases "N = 0")
  case False
  then have "wn N (k * N) = cis (2 * pi * - real k)" by (simp add: wn_def mult.assoc)
  also have "\<dots> = 1" by (rule cis_multiple_2pi) simp
  finally show ?thesis .
qed (simp add: wn_def)

lemma wn_cnj: "k \<le> N \<Longrightarrow> 0 < N \<Longrightarrow> wn N (N - k) = cnj (wn N k)"
proof -
  assume k: "k \<le> N" "0 < N"
  have "wn N (N - k) * wn N k = 1"
    using k wn_period [of N 1] wn_add [of N "N - k" k] by simp
  moreover have "cnj (wn N k) * wn N k = 1" by (simp add: wn_def cis_cnj cis_mult)
  moreover have "wn N k \<noteq> 0" by (simp add: wn_def)
  ultimately show ?thesis by (metis mult_right_cancel)
qed

lemma wn_twiddle: "0 < m \<Longrightarrow> wn (p * m) (j * (u + q * m)) = wn (p * m) (j * u) * wn p (j * q)"
proof -
  assume "0 < m"
  then have "wn (p * m) (m * (j * q)) = wn p (j * q)" using wn_cancel [of m p "j * q"] by (simp add: mult.commute)
  moreover have "j * (u + q * m) = j * u + m * (j * q)" by (simp add: algebra_simps)
  ultimately show ?thesis by (simp add: wn_add)
qed

lemma wn_4: "wn 4 k = (- \<i>) ^ k"
proof -
  have "- (2 * pi * real k / real 4) = real k * - (pi / 2)" by simp
  then have "wn 4 k = cis (- (pi / 2)) ^ k" unfolding wn_def by (simp only: DeMoivre)
  also have "cis (- (pi / 2)) = - \<i>" by (simp add: complex_eq_iff)
  finally show ?thesis .
qed

lemma wn_mod: "wn N (k mod N) = wn N k"
proof -
  have "wn N k = wn N (k mod N + k div N * N)" by simp
  then show ?thesis by (simp only: wn_add wn_period mult_1_right)
qed

text \<open>What a butterfly of radix \<open>p\<close> is to compute of its inputs, at position \<open>u\<close>.\<close>

definition radix_value :: "nat \<Rightarrow> nat \<Rightarrow> nat \<Rightarrow> real cpx list \<Rightarrow> nat \<Rightarrow> complex" where
  "radix_value p m u xs q = (\<Sum>j<p. wn (p * m) (j * (u + q * m)) * to_c (xs ! j))"

definition radix_ok :: "nat \<Rightarrow> nat \<Rightarrow> (nat \<Rightarrow> real cpx list \<Rightarrow> real cpx list option) \<Rightarrow> bool" where
  "radix_ok p m point \<longleftrightarrow> (\<forall>u<m. \<forall>xs. length xs = p \<longrightarrow>
     (\<exists>ys. point u xs = Some ys \<and> length ys = p \<and> (\<forall>q<p. to_c (ys ! q) = radix_value p m u xs q)))"

definition twiddles_ok :: "nat \<Rightarrow> real cpx list \<Rightarrow> bool" where
  "twiddles_ok N tw \<longleftrightarrow> length tw = N \<and> (\<forall>k<N. to_c (tw ! k) = wn N k)"

lemma twiddle_rd:
  assumes "twiddles_ok (F * M) tw" "0 < F" "k < M" "i = F * k"
  obtains t where "rd tw (int i) = Some t" "to_c t = wn M k"
proof -
  have "i < F * M" using assms by (auto simp: twiddles_ok_def rd_def) 
  then show ?thesis using that [of "tw ! i"] assms wn_cancel [of F M k] by (auto simp: twiddles_ok_def rd_nat simp del: of_nat_mult)
qed

lemma sum_lt:
  fixes f :: "nat \<Rightarrow> 'a::comm_monoid_add"
  shows "(\<Sum>j<2. f j) = f 0 + f 1" "(\<Sum>j<3. f j) = f 0 + f 1 + f 2" "(\<Sum>j<4. f j) = f 0 + f 1 + f 2 + f 3"
    "(\<Sum>j<5. f j) = f 0 + f 1 + f 2 + f 3 + f 4"
  by (simp_all add: numeral_eq_Suc lessThan_Suc ac_simps)

lemma all_lt:
  "(\<forall>q<(2::nat). P q) \<longleftrightarrow> P 0 \<and> P 1" "(\<forall>q<(3::nat). P q) \<longleftrightarrow> P 0 \<and> P 1 \<and> P 2"
  "(\<forall>q<(4::nat). P q) \<longleftrightarrow> P 0 \<and> P 1 \<and> P 2 \<and> P 3"
  "(\<forall>q<(5::nat). P q) \<longleftrightarrow> P 0 \<and> P 1 \<and> P 2 \<and> P 3 \<and> P 4"
  by (auto simp: numeral_eq_Suc less_Suc_eq)

lemma length_cases:
  "length xs = 2 \<Longrightarrow> \<exists>a b. xs = [a, b]" "length xs = 3 \<Longrightarrow> \<exists>a b c. xs = [a, b, c]"
  "length xs = 4 \<Longrightarrow> \<exists>a b c d. xs = [a, b, c, d]" "length xs = 5 \<Longrightarrow> \<exists>a b c d e. xs = [a, b, c, d, e]"
  by (auto simp: length_Suc_conv numeral_eq_Suc)

text \<open>The values of \<open>wn\<close> come out of the sum as soon as the inputs are twiddled.\<close>

lemma radix_value_twiddled:
  assumes "0 < m"
  shows "radix_value p m u xs q = (\<Sum>j<p. wn p (j * q) * (wn (p * m) (j * u) * to_c (xs ! j)))"
  unfolding radix_value_def by (simp only: wn_twiddle [OF assms]) (simp only: mult_ac)

lemma point4_values:
  assumes "p4 = point4 f0 s0 s1 s2"
  shows "to_c (p4 ! 0) = to_c f0 + to_c s0 + to_c s1 + to_c s2"
    "to_c (p4 ! 1) = to_c f0 - \<i> * to_c s0 - to_c s1 + \<i> * to_c s2"
    "to_c (p4 ! 2) = to_c f0 - to_c s0 + to_c s1 - to_c s2"
    "to_c (p4 ! 3) = to_c f0 + \<i> * to_c s0 - to_c s1 - \<i> * to_c s2"
  unfolding assms
  by (simp_all add: point4_def Let_def numeral_2_eq_2 numeral_3_eq_3)
     (simp_all add: complex_eq_iff C_ADD_def C_SUB_def)

lemma wn_4_values:
  "wn 4 0 = 1" "wn 4 1 = - \<i>" "wn 4 (Suc 0) = - \<i>" "wn 4 2 = - 1" "wn 4 3 = \<i>" "wn 4 4 = 1" "wn 4 6 = - 1" "wn 4 9 = - \<i>"
  unfolding wn_4 by (simp_all add: eval_nat_numeral)

lemma point4_radix:
  assumes "\<And>j. j < 4 \<Longrightarrow> to_c (s j) = wn (4 * m) (j * u) * to_c (xs ! j)" "0 < m" "q < 4"
  shows "to_c (point4 (s 0) (s 1) (s 2) (s 3) ! q) = radix_value 4 m u xs q"
proof -
  have "radix_value 4 m u xs q = (\<Sum>j<4. wn 4 (j * q) * to_c (s j))"
    unfolding radix_value_twiddled [OF assms(2)] using assms(1) by simp
  moreover have "\<forall>q<4. to_c (point4 (s 0) (s 1) (s 2) (s 3) ! q) = (\<Sum>j<4. wn 4 (j * q) * to_c (s j))"
    unfolding all_lt sum_lt point4_values [OF refl] by (simp add: wn_4_values)
  ultimately show ?thesis using assms(3) by simp
qed

lemma radix4_plain_ok: "radix_ok 4 1 (\<lambda>u. point4_plain)"
  unfolding radix_ok_def
proof (intro allI impI)
  fix u :: nat and xs :: "real cpx list"
  assume u: "u < 1" "length xs = 4"
  then obtain a b c d where xs: "xs = [a, b, c, d]" using length_cases(3) by blast
  have "to_c (point4 (xs ! 0) (xs ! 1) (xs ! 2) (xs ! 3) ! q) = radix_value 4 1 u xs q" if "q < 4" for q
    using point4_radix [of "(!) xs" 1 u xs q] that u(1) by simp
  then show "\<exists>ys. point4_plain xs = Some ys \<and> length ys = 4 \<and> (\<forall>q<4. to_c (ys ! q) = radix_value 4 1 u xs q)"
    unfolding xs by (simp add: point4_def Let_def)
qed

lemma twiddle_at:
  assumes "twiddles_ok (F * (p * m)) tw" "0 < F" "k < p" "u < m" "i = k * u * F"
  shows "\<exists>t. rd tw (int i) = Some t \<and> to_c t = wn (p * m) (k * u)"
proof -
  have "k * u < p * m" using assms(3,4) by (intro mult_strict_mono') auto
  then show ?thesis using twiddle_rd [OF assms(1,2), of "k * u" i] assms(5) by (metis mult.commute)
qed

lemma radix4_ok:
  assumes "twiddles_ok (F * (4 * m)) tw" "0 < F" "0 < m"
  shows "radix_ok 4 m (point4_twiddled tw F)"
  unfolding radix_ok_def
proof (intro allI impI)
  fix u :: nat and xs :: "real cpx list"
  assume u: "u < m" "length xs = 4"
  then obtain a b c d where xs: "xs = [a, b, c, d]" using length_cases(3) by blast
  note at = twiddle_at [OF assms(1,2) _ u(1)]
  obtain t1 t2 t3 where t: "rd tw (int (u * F)) = Some t1" "to_c t1 = wn (4 * m) (1 * u)"
    "rd tw (int (u * (F * 2))) = Some t2" "to_c t2 = wn (4 * m) (2 * u)"
    "rd tw (int (u * (F * 3))) = Some t3" "to_c t3 = wn (4 * m) (3 * u)"
    using at [of 1 "u * F"] at [of 2 "u * (F * 2)"] at [of 3 "u * (F * 3)"] by auto
  let ?v = "[a, C_MUL b t1, C_MUL c t2, C_MUL d t3]" and ?y = "point4 a (C_MUL b t1) (C_MUL c t2) (C_MUL d t3)"
  have "\<forall>j<4. to_c (?v ! j) = wn (4 * m) (j * u) * to_c (xs ! j)"
    unfolding all_lt xs using t by (simp add: numeral_2_eq_2 numeral_3_eq_3)
  then have "to_c (?y ! q) = radix_value 4 m u xs q" if "q < 4" for q
    using point4_radix [OF _ assms(3) that, of "(!) ?v" u xs] by (simp add: numeral_2_eq_2 numeral_3_eq_3)
  moreover have "point4_twiddled tw F u xs = Some ?y"
    unfolding xs using t by simp
  moreover have "length ?y = 4" by (simp add: point4_def Let_def)
  ultimately show "\<exists>ys. point4_twiddled tw F u xs = Some ys \<and> length ys = 4 \<and>
      (\<forall>q<4. to_c (ys ! q) = radix_value 4 m u xs q)" by blast
qed

lemma radix2_plain_ok: "radix_ok 2 1 (\<lambda>u xs. point2 (xs ! 1) xs)"
  unfolding radix_ok_def
proof (intro allI impI)
  fix u :: nat and xs :: "real cpx list"
  assume u: "u < 1" "length xs = 2"
  then obtain a b where xs: "xs = [a, b]" using length_cases(1) by blast
  have "wn 2 1 = - 1" by (simp add: wn_def complex_eq_iff)
  then have "\<forall>q<2. to_c ([C_ADD a b, C_SUB a b] ! q) = radix_value 2 1 u xs q"
    unfolding all_lt radix_value_def sum_lt using u(1) xs by simp
  then show "\<exists>ys. point2 (xs ! 1) xs = Some ys \<and> length ys = 2 \<and> (\<forall>q<2. to_c (ys ! q) = radix_value 2 1 u xs q)"
    unfolding xs by simp
qed

lemma wn_3_values:
  assumes "wn 3 1 = e"
  shows "wn 3 (Suc 0) = e" "wn 3 2 = cnj e" "wn 3 4 = e" "Re e = - 1 / 2"
proof -
  show "wn 3 (Suc 0) = e" using assms by simp
  show "wn 3 2 = cnj e" using wn_cnj [of 1 3] assms by simp
  show "wn 3 4 = e" using wn_mod [of 3 4] assms by simp
  show "Re e = - 1 / 2" using cos_120 unfolding assms [symmetric] by (simp add: wn_def)
qed

lemma radix3_ok:
  assumes "twiddles_ok (F * (3 * m)) tw" "0 < F" "0 < m" "to_c epi3 = wn 3 1"
  shows "radix_ok 3 m (point3 tw F epi3)"
  unfolding radix_ok_def
proof (intro allI impI)
  fix u :: nat and xs :: "real cpx list"
  assume u: "u < m" "length xs = 3"
  then obtain f0 f1 f2 where xs: "xs = [f0, f1, f2]" using length_cases(2) by blast
  note at = twiddle_at [OF assms(1,2) _ u(1)]
  obtain t1 t2 where t: "rd tw (int (u * F)) = Some t1" "to_c t1 = wn (3 * m) (1 * u)"
    "rd tw (int (u * (F * 2))) = Some t2" "to_c t2 = wn (3 * m) (2 * u)"
    using at [of 1 "u * F"] at [of 2 "u * (F * 2)"] by auto
  define s1 s2 where s: "s1 = C_MUL f1 t1" "s2 = C_MUL f2 t2"
  let ?fm = "\<lparr>cr = cr f0 - HALF_OF (cr (C_ADD s1 s2)), ci = ci f0 - HALF_OF (ci (C_ADD s1 s2))\<rparr>"
  let ?s0 = "C_MULBYSCALAR (C_SUB s1 s2) (ci epi3)"
  let ?y = "[C_ADD f0 (C_ADD s1 s2), \<lparr>cr = cr ?fm - ci ?s0, ci = ci ?fm + cr ?s0\<rparr>,
    \<lparr>cr = cr ?fm + ci ?s0, ci = ci ?fm - cr ?s0\<rparr>]"
  note w = wn_3_values [OF assms(4) [symmetric]]
  have v: "wn (3 * m) (1 * u) * to_c f1 = to_c s1" "wn (3 * m) (2 * u) * to_c f2 = to_c s2"
    using t by (simp_all add: mult.commute s)
  have x: "xs ! 0 = f0" "xs ! 1 = f1" "xs ! 2 = f2" by (simp_all add: xs)
  have re: "cr epi3 = - 1 / 2" using w(4) by simp
  have val: "radix_value 3 m u xs q = to_c f0 + wn 3 q * to_c s1 + wn 3 (2 * q) * to_c s2" for q
    unfolding radix_value_twiddled [OF assms(3)] sum_lt x v by simp
  have "\<forall>q<3. to_c (?y ! q) = to_c f0 + wn 3 q * to_c s1 + wn 3 (2 * q) * to_c s2"
    unfolding all_lt
  proof (intro conjI)
    show "to_c (?y ! 0) = to_c f0 + wn 3 0 * to_c s1 + wn 3 (2 * 0) * to_c s2" by simp
    have "to_c (?y ! 1) = to_c f0 + to_c epi3 * to_c s1 + cnj (to_c epi3) * to_c s2"
      by (simp add: complex_eq_iff re C_ADD_def C_SUB_def C_MULBYSCALAR_def HALF_OF_def algebra_simps)
    then show "to_c (?y ! 1) = to_c f0 + wn 3 1 * to_c s1 + wn 3 (2 * 1) * to_c s2" using w by simp
    have "to_c (?y ! 2) = to_c f0 + cnj (to_c epi3) * to_c s1 + to_c epi3 * to_c s2"
      by (simp add: numeral_2_eq_2 complex_eq_iff re C_ADD_def C_SUB_def C_MULBYSCALAR_def HALF_OF_def algebra_simps)
    then show "to_c (?y ! 2) = to_c f0 + wn 3 2 * to_c s1 + wn 3 (2 * 2) * to_c s2" using w by simp
  qed
  moreover have "point3 tw F epi3 u xs = Some ?y" unfolding xs s using t by (simp add: Let_def)
  ultimately show "\<exists>ys. point3 tw F epi3 u xs = Some ys \<and> length ys = 3 \<and>
      (\<forall>q<3. to_c (ys ! q) = radix_value 3 m u xs q)" unfolding val by force
qed

lemma wn_5_values:
  assumes "wn 5 1 = a" "wn 5 2 = b"
  shows "wn 5 (Suc 0) = a" "wn 5 3 = cnj b" "wn 5 4 = cnj a" "wn 5 6 = a" "wn 5 8 = cnj b" "wn 5 9 = cnj a"
    "wn 5 12 = b" "wn 5 16 = a"
proof -
  show "wn 5 (Suc 0) = a" using assms by simp
  show 3: "wn 5 3 = cnj b" using wn_cnj [of 2 5] assms by simp
  show 4: "wn 5 4 = cnj a" using wn_cnj [of 1 5] assms by simp
  show "wn 5 6 = a" "wn 5 16 = a" "wn 5 12 = b" "wn 5 8 = cnj b" "wn 5 9 = cnj a"
    using wn_mod [of 5 6] wn_mod [of 5 16] wn_mod [of 5 12] wn_mod [of 5 8] wn_mod [of 5 9] 3 4 assms by simp_all
qed

text \<open>The outputs 1 to 4 come in pairs that share their real and imaginary combinations.\<close>

lemma point5_pair:
  "to_c (C_SUB \<lparr>cr = cr f0 + (cr s7 * a + cr s8 * c), ci = ci f0 + (ci s7 * a + ci s8 * c)\<rparr>
      \<lparr>cr = ci s10 * b + ci s9 * d, ci = - (cr s10 * b + cr s9 * d)\<rparr>) =
    to_c f0 + a * to_c s7 + c * to_c s8 + \<i> * (b * to_c s10 + d * to_c s9)"
  "to_c (C_ADD \<lparr>cr = cr f0 + (cr s7 * a + cr s8 * c), ci = ci f0 + (ci s7 * a + ci s8 * c)\<rparr>
      \<lparr>cr = ci s10 * b + ci s9 * d, ci = - (cr s10 * b + cr s9 * d)\<rparr>) =
    to_c f0 + a * to_c s7 + c * to_c s8 - \<i> * (b * to_c s10 + d * to_c s9)"
  "to_c (C_ADD \<lparr>cr = cr f0 + (cr s7 * c + cr s8 * a), ci = ci f0 + (ci s7 * c + ci s8 * a)\<rparr>
      \<lparr>cr = ci s9 * b - ci s10 * d, ci = cr s10 * d - cr s9 * b\<rparr>) =
    to_c f0 + c * to_c s7 + a * to_c s8 + \<i> * (d * to_c s10 - b * to_c s9)"
  "to_c (C_SUB \<lparr>cr = cr f0 + (cr s7 * c + cr s8 * a), ci = ci f0 + (ci s7 * c + ci s8 * a)\<rparr>
      \<lparr>cr = ci s9 * b - ci s10 * d, ci = cr s10 * d - cr s9 * b\<rparr>) =
    to_c f0 + c * to_c s7 + a * to_c s8 - \<i> * (d * to_c s10 - b * to_c s9)"
  by (simp_all add: complex_eq_iff C_ADD_def C_SUB_def algebra_simps)

lemma root_mult: "z * s = complex_of_real (Re z) * s + \<i> * (complex_of_real (Im z) * s)"
  by (simp add: complex_eq_iff)

lemma radix5_ok:
  assumes "twiddles_ok (F * (5 * m)) tw" "0 < F" "0 < m" "to_c ya = wn 5 1" "to_c yb = wn 5 2"
  shows "radix_ok 5 m (point5 tw F ya yb)"
  unfolding radix_ok_def
proof (intro allI impI)
  fix u :: nat and xs :: "real cpx list"
  assume u: "u < m" "length xs = 5"
  then obtain f0 f1 f2 f3 f4 where xs: "xs = [f0, f1, f2, f3, f4]" using length_cases(4) by blast
  note at = twiddle_at [OF assms(1,2) _ u(1)]
  obtain t1 t2 t3 t4 where t: "rd tw (int (u * F)) = Some t1" "to_c t1 = wn (5 * m) (1 * u)"
    "rd tw (int (2 * u * F)) = Some t2" "to_c t2 = wn (5 * m) (2 * u)"
    "rd tw (int (3 * u * F)) = Some t3" "to_c t3 = wn (5 * m) (3 * u)"
    "rd tw (int (4 * u * F)) = Some t4" "to_c t4 = wn (5 * m) (4 * u)"
    using at [of 1 "u * F"] at [of 2 "2 * u * F"] at [of 3 "3 * u * F"] at [of 4 "4 * u * F"] by auto
  define s1 s2 s3 s4 where s: "s1 = C_MUL f1 t1" "s2 = C_MUL f2 t2" "s3 = C_MUL f3 t3" "s4 = C_MUL f4 t4"
  have v: "wn (5 * m) (1 * u) * to_c f1 = to_c s1" "wn (5 * m) (2 * u) * to_c f2 = to_c s2"
    "wn (5 * m) (3 * u) * to_c f3 = to_c s3" "wn (5 * m) (4 * u) * to_c f4 = to_c s4"
    using t by (simp_all add: mult.commute s)
  have x: "xs ! 0 = f0" "xs ! 1 = f1" "xs ! 2 = f2" "xs ! 3 = f3" "xs ! 4 = f4"
    by (simp_all add: xs numeral_2_eq_2 numeral_3_eq_3 eval_nat_numeral)
  define S where "S = (\<lambda>q. to_c f0 + wn 5 q * to_c s1 + wn 5 (2 * q) * to_c s2 + wn 5 (3 * q) * to_c s3 + wn 5 (4 * q) * to_c s4)"
  have val: "radix_value 5 m u xs q = S q" for q
    unfolding radix_value_twiddled [OF assms(3)] sum_lt x v S_def by simp
  note w = wn_5_values [OF assms(4) [symmetric] assms(5) [symmetric]] assms(4,5) [symmetric]
  let ?s7 = "C_ADD s1 s4" and ?s10 = "C_SUB s1 s4" and ?s8 = "C_ADD s2 s3" and ?s9 = "C_SUB s2 s3"
  let ?a = "cr ya" and ?b = "ci ya" and ?c = "cr yb" and ?d = "ci yb"
  let ?s5 = "\<lparr>cr = cr f0 + (cr ?s7 * ?a + cr ?s8 * ?c), ci = ci f0 + (ci ?s7 * ?a + ci ?s8 * ?c)\<rparr>"
    and ?s6 = "\<lparr>cr = ci ?s10 * ?b + ci ?s9 * ?d, ci = - (cr ?s10 * ?b + cr ?s9 * ?d)\<rparr>"
    and ?s11 = "\<lparr>cr = cr f0 + (cr ?s7 * ?c + cr ?s8 * ?a), ci = ci f0 + (ci ?s7 * ?c + ci ?s8 * ?a)\<rparr>"
    and ?s12 = "\<lparr>cr = ci ?s9 * ?b - ci ?s10 * ?d, ci = cr ?s10 * ?d - cr ?s9 * ?b\<rparr>"
    and ?s0 = "\<lparr>cr = cr f0 + (cr (C_ADD s1 s4) + cr (C_ADD s2 s3)), ci = ci f0 + (ci (C_ADD s1 s4) + ci (C_ADD s2 s3))\<rparr>"
  have run: "point5 tw F ya yb u xs = Some [?s0, C_SUB ?s5 ?s6, C_ADD ?s11 ?s12, C_SUB ?s11 ?s12, C_ADD ?s5 ?s6]"
    unfolding xs point5.simps t Option.bind.simps(2) Let_def s ..
  have "to_c ?s0 = S 0" by (simp add: S_def complex_eq_iff C_ADD_def)
  moreover have "to_c (C_SUB ?s5 ?s6) = S 1"
    unfolding S_def point5_pair by (simp add: w) (simp add: complex_eq_iff algebra_simps)
  moreover have "to_c (C_ADD ?s11 ?s12) = S 2"
    unfolding S_def point5_pair by (simp add: w) (simp add: complex_eq_iff algebra_simps)
  moreover have "to_c (C_SUB ?s11 ?s12) = S 3"
    unfolding S_def point5_pair by (simp add: w) (simp add: complex_eq_iff algebra_simps)
  moreover have "to_c (C_ADD ?s5 ?s6) = S 4"
    unfolding S_def point5_pair by (simp add: w) (simp add: complex_eq_iff algebra_simps)
  ultimately have "\<forall>q<5. to_c ([?s0, C_SUB ?s5 ?s6, C_ADD ?s11 ?s12, C_SUB ?s11 ?s12, C_ADD ?s5 ?s6] ! q) = S q"
    unfolding all_lt by (simp add: numeral_2_eq_2 numeral_3_eq_3 eval_nat_numeral)
  then show "\<exists>ys. point5 tw F ya yb u xs = Some ys \<and> length ys = 5 \<and> (\<forall>q<5. to_c (ys ! q) = radix_value 5 m u xs q)"
    unfolding run val by (intro exI conjI) simp_all
qed

section \<open>The discrete Fourier transform and its decomposition\<close>

definition dft :: "nat \<Rightarrow> (nat \<Rightarrow> complex) \<Rightarrow> nat \<Rightarrow> complex" where
  "dft N x k = (\<Sum>n<N. wn N (n * k) * x n)"

lemma dft_period: "0 < N \<Longrightarrow> dft N x (k + q * N) = dft N x k"
proof -
  have "wn N (n * (k + q * N)) = wn N (n * k)" for n
    using wn_add [of N "n * k" "(n * q) * N"] wn_period [of N "n * q"] by (simp add: algebra_simps)
  then show ?thesis by (simp add: dft_def)
qed

lemma sum_split: "(\<Sum>n<p * m. f n) = (\<Sum>j<p. \<Sum>n<m. f (j + p * n :: nat) :: complex)"
proof -
  have "(\<Sum>n<p * m. f n) = (\<Sum>n<m. \<Sum>i\<in>{n * p..<n * p + p}. f i)"
    using sum.nat_group [of f p m] by (simp add: mult.commute)
  also have "\<dots> = (\<Sum>n<m. \<Sum>j<p. f (j + p * n))"
  proof (rule sum.cong [OF refl])
    fix n
    show "(\<Sum>i\<in>{n * p..<n * p + p}. f i) = (\<Sum>j<p. f (j + p * n))"
      by (rule sum.reindex_bij_witness [of _ "\<lambda>j. j + p * n" "\<lambda>i. i - p * n"]) (auto simp: mult.commute)
  qed
  also have "\<dots> = (\<Sum>j<p. \<Sum>n<m. f (j + p * n))" by (rule sum.swap)
  finally show ?thesis .
qed

lemma dft_split:
  assumes "0 < p"
  shows "dft (p * m) x k = (\<Sum>j<p. wn (p * m) (j * k) * dft m (\<lambda>n. x (j + p * n)) k)"
proof -
  have "wn (p * m) ((j + p * n) * k) = wn (p * m) (j * k) * wn m (n * k)" for j n
    using wn_add [of "p * m" "j * k" "p * (n * k)"] wn_cancel [OF assms, of m "n * k"] by (simp add: algebra_simps)
  then show ?thesis
    unfolding dft_def sum_split by (simp add: sum_distrib_left mult.assoc)
qed

text \<open>Where the input \<open>n\<close> is put: its digits to the bases \<open>ps\<close>, the lowest first, in reverse.\<close>

fun rev_pos :: "nat list \<Rightarrow> nat \<Rightarrow> nat" where
  "rev_pos [] n = 0"
| "rev_pos (p # ps) n = n mod p * prod_list ps + rev_pos ps (n div p)"

lemma rev_pos_less: "0 < prod_list ps \<Longrightarrow> rev_pos ps n < prod_list ps"
proof (induction ps arbitrary: n)
  case (Cons p ps)
  then have p: "0 < p" "0 < prod_list ps" by simp_all
  have "(n mod p + 1) * prod_list ps \<le> p * prod_list ps"
    using p(1) by (intro mult_le_mono1) (simp add: Suc_leI)
  then show ?case using Cons.IH [OF p(2), of "n div p"] by simp
qed simp

lemma rev_pos_append:
  "0 < prod_list qs \<Longrightarrow> r < prod_list qs \<Longrightarrow>
   rev_pos (qs @ ps) (r + prod_list qs * n) = rev_pos qs r * prod_list ps + rev_pos ps n"
proof (induction qs arbitrary: r)
  case (Cons q qs)
  then have q: "0 < q" "0 < prod_list qs" by simp_all
  have "r div q < prod_list qs" using Cons.prems(2) by (simp add: less_mult_imp_div_less mult.commute)
  then have "rev_pos (qs @ ps) (r div q + prod_list qs * n) = rev_pos qs (r div q) * prod_list ps + rev_pos ps n"
    by (rule Cons.IH [OF q(2)])
  moreover have "(r + q * prod_list qs * n) mod q = r mod q" by (simp add: mult.assoc)
  moreover have "(r + q * prod_list qs * n) div q = r div q + prod_list qs * n"
    using q(1) by (simp add: mult.assoc)
  ultimately show ?case by (simp add: algebra_simps)
qed simp

lemma rev_pos_inj:
  "0 < prod_list ps \<Longrightarrow> a < prod_list ps \<Longrightarrow> b < prod_list ps \<Longrightarrow> rev_pos ps a = rev_pos ps b \<Longrightarrow> a = b"
proof (induction ps arbitrary: a b)
  case (Cons p ps)
  then have p: "0 < p" "0 < prod_list ps" by simp_all
  let ?m = "prod_list ps"
  have less: "rev_pos ps (a div p) < ?m" "rev_pos ps (b div p) < ?m" using rev_pos_less [OF p(2)] by blast+
  have eq: "a mod p * ?m + rev_pos ps (a div p) = b mod p * ?m + rev_pos ps (b div p)" using Cons.prems(4) by simp
  have "(a mod p * ?m + rev_pos ps (a div p)) div ?m = a mod p" "(b mod p * ?m + rev_pos ps (b div p)) div ?m = b mod p"
    using less p(2) by simp_all
  then have 1: "a mod p = b mod p" using eq by simp
  then have "rev_pos ps (a div p) = rev_pos ps (b div p)" using eq by simp
  moreover have "a div p < ?m" "b div p < ?m"
    using Cons.prems(2,3) by (simp_all add: less_mult_imp_div_less mult.commute)
  ultimately have "a div p = b div p" using Cons.IH [OF p(2)] by blast
  then show ?case using 1 by (metis div_mult_mod_eq)
qed simp

section \<open>The stages together\<close>

text \<open>After the stages for \<open>ps\<close>, each block holds the transform of its part of the input.\<close>

definition blocks_done :: "nat list \<Rightarrow> nat list \<Rightarrow> (nat \<Rightarrow> complex) \<Rightarrow> real cpx list \<Rightarrow> bool" where
  "blocks_done qs ps x A \<longleftrightarrow> length A = prod_list qs * prod_list ps \<and>
     (\<forall>r<prod_list qs. \<forall>k<prod_list ps.
        to_c (A ! (rev_pos qs r * prod_list ps + k)) = dft (prod_list ps) (\<lambda>n. x (r + prod_list qs * n)) k)"

text \<open>What a stage does to the array.\<close>

definition stage_spec :: "nat \<Rightarrow> nat \<Rightarrow> nat \<Rightarrow> real cpx list \<Rightarrow> real cpx list \<Rightarrow> bool" where
  "stage_spec p m F A A' \<longleftrightarrow> length A' = length A \<and>
     (\<forall>b<F. \<forall>u<m. \<forall>q<p. to_c (A' ! (b * (p * m) + u + q * m)) =
        (\<Sum>j<p. wn (p * m) (j * (u + q * m)) * to_c (A ! (b * (p * m) + u + j * m))))"

lemma stage_combines:
  assumes pos: "0 < prod_list qs" "0 < p" "0 < prod_list ps"
    and before: "blocks_done (qs @ [p]) ps x A" and step: "stage_spec p (prod_list ps) (prod_list qs) A A'"
  shows "blocks_done qs (p # ps) x A'"
  unfolding blocks_done_def
proof (intro conjI allI impI)
  let ?F = "prod_list qs" and ?m = "prod_list ps"
  show "length A' = ?F * prod_list (p # ps)" using before step by (simp add: blocks_done_def stage_spec_def mult.assoc)
  fix r k assume r: "r < ?F" and k: "k < prod_list (p # ps)"
  let ?b = "rev_pos qs r" and ?u = "k mod ?m" and ?q = "k div ?m"
  have b: "?b < ?F" by (rule rev_pos_less [OF pos(1)])
  have uq: "?u < ?m" "?q < p" "k = ?u + ?q * ?m" using pos(3) k by (simp_all add: less_mult_imp_div_less)
  have X: "to_c (A ! (?b * (p * ?m) + ?u + j * ?m)) = dft ?m (\<lambda>n. x (r + ?F * (j + p * n))) k" if "j < p" for j
  proof -
    have "rev_pos (qs @ [p]) (r + ?F * j) = ?b * p + j"
      using rev_pos_append [OF pos(1) r, of "[p]" j] that by simp
    moreover have "r + ?F * j < prod_list (qs @ [p])"
      using r that mult_le_mono2 [of "j + 1" p ?F] by simp
    ultimately have "to_c (A ! ((?b * p + j) * ?m + ?u)) = dft ?m (\<lambda>n. x (r + ?F * j + ?F * p * n)) ?u"
      using before uq(1) unfolding blocks_done_def by fastforce
    moreover have "dft ?m z k = dft ?m z ?u" for z using dft_period [OF pos(3), of z ?u ?q] uq(3) by simp
    ultimately show ?thesis by (simp add: algebra_simps)
  qed
  have "to_c (A' ! (?b * (p * ?m) + ?u + ?q * ?m)) =
      (\<Sum>j<p. wn (p * ?m) (j * (?u + ?q * ?m)) * to_c (A ! (?b * (p * ?m) + ?u + j * ?m)))"
    using step b uq(1,2) unfolding stage_spec_def by blast
  also have "\<dots> = (\<Sum>j<p. wn (p * ?m) (j * k) * dft ?m (\<lambda>n. x (r + ?F * (j + p * n))) k)"
    using X uq(3) by (intro sum.cong) auto
  also have "\<dots> = dft (p * ?m) (\<lambda>n. x (r + ?F * n)) k" by (rule dft_split [OF pos(2), symmetric])
  finally show "to_c (A' ! (?b * prod_list (p # ps) + k)) = dft (prod_list (p # ps)) (\<lambda>n. x (r + ?F * n)) k"
    using uq(3) by (simp add: add.assoc)
qed

lemma radix_stage:
  assumes ok: "radix_ok p m point" and pm: "0 < p" "0 < m" and A: "length A = F * (p * m)"
  shows "\<exists>A'. ofold (\<lambda>i F. ofold (\<lambda>u. butterfly p m (point u) (i * (p * m) + u)) [0..<m] F) [0..<F] A = Some A' \<and>
    stage_spec p m F A A'"
proof -
  let ?pt = "\<lambda>u xs. the (point u xs)"
  let ?A = "map (\<lambda>n. if n div (p * m) < F then stage_value p m ?pt A n else A ! n) [0..<length A]"
  have point: "point u xs = Some (?pt u xs) \<and> length (?pt u xs) = p" if "u < m" "length xs = p" for u xs
    using ok that unfolding radix_ok_def by fastforce
  have run: "ofold (\<lambda>i F. ofold (\<lambda>u. butterfly p m (point u) (i * (p * m) + u)) [0..<m] F) [0..<F] A = Some ?A"
    by (rule butterfly_loop [OF pm, where pt = ?pt]) (use point A in auto)
  have "to_c (?A ! (b * (p * m) + u + q * m)) =
      (\<Sum>j<p. wn (p * m) (j * (u + q * m)) * to_c (A ! (b * (p * m) + u + j * m)))"
    if buq: "b < F" "u < m" "q < p" for b u q
  proof -
    let ?n = "b * (p * m) + u + q * m"
    let ?xs = "map (\<lambda>j. A ! (b * (p * m) + u + j * m)) [0..<p]"
    note parts = cell_parts [OF buq(2,3)]
    have "?n div (p * m) < F" using parts(1) buq(1) by simp
    moreover have "q * m + u < p * m" using buq(2,3) mult_le_mono1 [of "q + 1" p m] by simp
    then have "?n < length A" using buq(1) A mult_le_mono1 [of "b + 1" F "p * m"] by simp
    ultimately have "?A ! ?n = stage_value p m ?pt A ?n" by simp
    also have "\<dots> = ?pt u ?xs ! q" unfolding stage_value_def parts ..
    finally have val: "?A ! ?n = ?pt u ?xs ! q" .
    obtain ys where "point u ?xs = Some ys" "\<forall>q<p. to_c (ys ! q) = radix_value p m u ?xs q"
      using ok buq(2) unfolding radix_ok_def by (metis (no_types, lifting) diff_zero length_map length_upt)
    then have "to_c (?A ! ?n) = radix_value p m u ?xs q" unfolding val using buq(3) by simp
    then show ?thesis by (simp add: radix_value_def)
  qed
  then have "stage_spec p m F A ?A" by (simp add: stage_spec_def del: map_eq_conv)
  then show ?thesis using run by blast
qed

lemma ofold_one: "ofold f [0..<1] s = f 0 s"
  by (simp split: option.split)

lemma ofold_cong: "(\<And>x s. x \<in> set xs \<Longrightarrow> f x s = g x s) \<Longrightarrow> ofold f xs s = ofold g xs s"
  by (induction xs arbitrary: s) (auto split: option.splits)

lemma block_stride: "mm = p * m \<or> F = Suc 0 \<Longrightarrow> i < F \<Longrightarrow> i * mm = i * (p * m)"
  by (cases i) auto

text \<open>Each butterfly routine runs one stage, given the stride between blocks or a single block.\<close>

lemma kf_bfly_stage:
  assumes tw: "twiddles_ok (F * (p * m)) tw" and pos: "0 < F" "0 < m" and mm: "mm = p * m \<or> F = Suc 0"
    and A: "length A = F * (p * m)"
  shows "p = 2 \<Longrightarrow> m = 1 \<Longrightarrow> \<exists>A'. kf_bfly2 A m F = Some A' \<and> stage_spec p m F A A'"
    "p = 4 \<Longrightarrow> \<exists>A'. kf_bfly4 A F tw m F mm = Some A' \<and> stage_spec p m F A A'"
    "p = 3 \<Longrightarrow> \<exists>A'. kf_bfly3 A F tw m F mm = Some A' \<and> stage_spec p m F A A'"
    "p = 5 \<Longrightarrow> \<exists>A'. kf_bfly5 A F tw m F mm = Some A' \<and> stage_spec p m F A A'"
proof -
  have fix_stride: "ofold (\<lambda>i F. ofold (\<lambda>u. butterfly p m (point u) (i * mm + u)) [0..<m] F) [0..<F] A =
      ofold (\<lambda>i F. ofold (\<lambda>u. butterfly p m (point u) (i * (p * m) + u)) [0..<m] F) [0..<F] A" for point
  proof (rule ofold_cong)
    fix i and s :: "real cpx list" assume "i \<in> set [0..<F]"
    then have "i * mm = i * (p * m)" using block_stride [OF mm] by simp
    then show "ofold (\<lambda>u. butterfly p m (point u) (i * mm + u)) [0..<m] s =
        ofold (\<lambda>u. butterfly p m (point u) (i * (p * m) + u)) [0..<m] s" by presburger
  qed
  note run = radix_stage [OF _ _ pos(2) A]
  have single: "(\<lambda>i F. ofold (\<lambda>u. butterfly p m point (i * (p * m) + u)) [0..<m] F) = (\<lambda>i. butterfly p 1 point (p * i))"
    if "m = 1" for point :: "real cpx list \<Rightarrow> real cpx list option"
    unfolding that ofold_one by (simp add: mult.commute)
  show "\<exists>A'. kf_bfly2 A m F = Some A' \<and> stage_spec p m F A A'" if "p = 2" "m = 1"
  proof -
    have "radix_ok p m (\<lambda>u xs. point2 (xs ! 1) xs)" using radix2_plain_ok that by simp
    from run [OF this] show ?thesis using that unfolding single [OF that(2)] by (simp add: kf_bfly2_def)
  qed
  show "\<exists>A'. kf_bfly4 A F tw m F mm = Some A' \<and> stage_spec p m F A A'" if p: "p = 4"
  proof (cases "m = 1")
    case True
    have "radix_ok p m (\<lambda>u. point4_plain)" using radix4_plain_ok p True by simp
    from run [OF this] show ?thesis using p True unfolding single [OF True] by (simp add: kf_bfly4_def)
  next
    case False
    have "radix_ok p m (point4_twiddled tw F)" unfolding p by (rule radix4_ok) (use tw pos p in auto)
    from run [OF this] show ?thesis unfolding kf_bfly4_def using False p fix_stride by simp
  qed
  have root: "\<exists>t. rd tw (int i) = Some t \<and> to_c t = wn p k" if "k < p" "i = F * (m * k)" for i k
  proof -
    have "m * k < p * m" using that(1) pos(2) by (simp add: mult.commute)
    from twiddle_rd [OF tw pos(1) this that(2)]
    obtain t where "rd tw (int i) = Some t" "to_c t = wn (p * m) (m * k)" by blast
    moreover have "wn (p * m) (m * k) = wn p k" using wn_cancel [OF pos(2), of p k] by (simp add: mult.commute)
    ultimately show ?thesis by auto
  qed
  show "\<exists>A'. kf_bfly3 A F tw m F mm = Some A' \<and> stage_spec p m F A A'" if p: "p = 3"
  proof -
    obtain e where e: "rd tw (int (F * m)) = Some e" "to_c e = wn 3 1" using root [of 1 "F * m"] p by auto
    have "radix_ok p m (point3 tw F e)" unfolding p by (rule radix3_ok) (use tw pos p e in auto)
    from run [OF this] show ?thesis
      unfolding kf_bfly3_def e(1) Option.bind.simps(2) using p fix_stride by simp
  qed
  show "\<exists>A'. kf_bfly5 A F tw m F mm = Some A' \<and> stage_spec p m F A A'" if p: "p = 5"
  proof -
    obtain ya yb where y: "rd tw (int (F * m)) = Some ya" "to_c ya = wn 5 1"
      "rd tw (int (F * 2 * m)) = Some yb" "to_c yb = wn 5 2"
      using root [of 1 "F * m"] root [of 2 "F * 2 * m"] p by auto
    have "radix_ok p m (point5 tw F ya yb)" unfolding p by (rule radix5_ok) (use tw pos p y in auto)
    from run [OF this] show ?thesis
      unfolding kf_bfly5_def y(1,3) Option.bind.simps(2) using p fix_stride by simp
  qed
qed

text \<open>
  A state whose table of factors is the list of radices \<open>ps\<close>, each followed by the product of the ones
  after it, with a table of twiddle factors of its own.
\<close>

definition factor_table :: "nat list \<Rightarrow> nat list \<Rightarrow> bool" where
  "factor_table ps fs \<longleftrightarrow> 0 < length ps \<and> length ps < MAXFACTORS \<and> 2 * length ps \<le> length fs \<and>
     (\<forall>i<length ps. fs ! (2 * i) = ps ! i \<and> fs ! (2 * i + 1) = prod_list (drop (Suc i) ps)) \<and>
     (\<forall>i<length ps. ps ! i \<in> {3, 4, 5} \<or> ps ! i = 2 \<and> Suc i = length ps)"

definition fft_state_ok :: "nat list \<Rightarrow> real fft_state \<Rightarrow> bool" where
  "fft_state_ok ps st \<longleftrightarrow> factor_table ps (factors st) \<and> nfft st = prod_list ps \<and> shift st \<le> 0 \<and>
     length (bitrev st) = nfft st \<and> (\<forall>i<nfft st. bitrev st ! i = rev_pos ps i) \<and>
     twiddles_ok (nfft st) (twiddles st)"

lemma factor_table_radix: "factor_table ps fs \<Longrightarrow> p \<in> set ps \<Longrightarrow> p = 2 \<or> p = 3 \<or> p = 4 \<or> p = 5"
  by (auto simp: factor_table_def in_set_conv_nth)

lemma prod_list_pos: "(\<And>p. p \<in> set ps \<Longrightarrow> 0 < p) \<Longrightarrow> 0 < prod_list (ps :: nat list)"
  by (induction ps) auto

lemma factor_table_pos:
  assumes "factor_table ps fs"
  shows "0 < prod_list (take i ps)" "0 < prod_list (drop i ps)" "0 < prod_list ps"
  using factor_table_radix [OF assms] by (fastforce intro: prod_list_pos dest: in_set_takeD in_set_dropD)+

lemma prod_list_ge: "(\<And>p. p \<in> set ps \<Longrightarrow> 2 \<le> p) \<Longrightarrow> ps \<noteq> [] \<Longrightarrow> 2 \<le> prod_list (ps :: nat list)"
proof (induction ps)
  case (Cons p ps)
  have "1 \<le> prod_list ps" using prod_list_pos [of ps] Cons.prems(1) by force
  then show ?case using Cons.prems(1) [of p] mult_le_mono [of 2 p 1 "prod_list ps"] by simp
qed simp

lemma factor_table_one:
  assumes "factor_table ps fs" "i < length ps"
  shows "prod_list (drop (Suc i) ps) = 1 \<longleftrightarrow> Suc i = length ps"
proof -
  have "2 \<le> prod_list (drop (Suc i) ps)" if "Suc i \<noteq> length ps"
  proof (rule prod_list_ge)
    show "2 \<le> p" if "p \<in> set (drop (Suc i) ps)" for p
      using factor_table_radix [OF assms(1) in_set_dropD [OF that]] by auto
    show "drop (Suc i) ps \<noteq> []" using that assms(2) by simp
  qed
  then show ?thesis by (cases "Suc i = length ps") auto
qed

lemma fstrides_run:
  assumes tab: "factor_table ps facs" and i: "i < length ps"
  shows "fstrides facs (map (\<lambda>i. prod_list (take i ps)) [0..<Suc i]) =
    Some (map (\<lambda>i. prod_list (take i ps)) [0..<Suc (length ps)])"
  using i
proof (induction "length ps - i" arbitrary: i)
  case (Suc k)
  let ?g = "\<lambda>i. prod_list (take i ps)"
  have cells: "facs ! (2 * i) = ps ! i" "facs ! (2 * i + 1) = prod_list (drop (Suc i) ps)"
    "2 * i + 1 < length facs" "i + 1 < MAXFACTORS"
    using tab Suc.prems by (auto simp: factor_table_def)
  have step: "map ?g [0..<Suc i] @ [last (map ?g [0..<Suc i]) * ps ! i] = map ?g [0..<Suc (Suc i)]"
    using Suc.prems by (simp add: take_Suc_conv_app_nth)
  have len: "length (map ?g [0..<Suc i]) - 1 = i" by simp
  have run: "fstrides facs (map ?g [0..<Suc i]) =
      (if Suc i = length ps then Some (map ?g [0..<Suc (Suc i)]) else fstrides facs (map ?g [0..<Suc (Suc i)]))"
    using cells factor_table_one [OF tab Suc.prems]
    by (subst fstrides.simps) (simp only: Let_def len cells(1) step if_True simp_thms)
  show ?case
  proof (cases "Suc i = length ps")
    case False
    then show ?thesis unfolding run using Suc.hyps(1) [of "Suc i"] Suc.hyps(2) Suc.prems by simp
  next
    case True
    then show ?thesis unfolding run by (simp only: simp_thms if_True)
  qed
qed simp

text \<open>The routine a stage runs.\<close>

definition stage_kernel ::
  "nat \<Rightarrow> 'a::{one,plus,minus,uminus,times,scaleR} cpx list \<Rightarrow> 'a cpx list \<Rightarrow> nat \<Rightarrow> nat \<Rightarrow> nat \<Rightarrow> 'a cpx list option" where
  "stage_kernel p A tw m F mm =
     (if p = 2 then kf_bfly2 A m F else if p = 4 then kf_bfly4 A F tw m F mm
      else if p = 3 then kf_bfly3 A F tw m F mm else if p = 5 then kf_bfly5 A F tw m F mm else Some A)"

lemma fft_stage_kernel:
  assumes tab: "factor_table ps (factors st)" and sh: "shift st \<le> 0" and i: "i < length ps"
  shows "fft_stage st (map (\<lambda>i. prod_list (take i ps)) [0..<Suc (length ps)]) i (A, m) =
    (case stage_kernel (ps ! i) A (twiddles st) m (prod_list (take i ps)) (if i = 0 then 1 else prod_list (drop i ps)) of
       None \<Rightarrow> None | Some A' \<Rightarrow> Some (A', if i = 0 then 1 else prod_list (drop i ps)))"
proof -
  let ?p = "ps ! i" and ?F = "prod_list (take i ps)" and ?m2 = "if i = 0 then 1 else prod_list (drop i ps)"
  have m2: "(if i \<noteq> 0 then rd (factors st) (2 * int i - 1) else Some 1) = Some ?m2"
  proof (cases "i = 0")
    case False
    then obtain j where j: "i = Suc j" by (cases i) auto
    then have "2 * int i - 1 = int (2 * j + 1)" by simp
    moreover have "2 * j + 1 < length (factors st)" "factors st ! (2 * j + 1) = prod_list (drop i ps)"
      using tab i j by (auto simp: factor_table_def)
    ultimately show ?thesis using False rd_nat [of "2 * j + 1" "factors st"] by (simp only: simp_thms if_True if_False)
  qed simp
  have p: "rd (factors st) (2 * int i) = Some ?p"
    using tab i rd_nat [of "2 * i" "factors st"] by (auto simp: factor_table_def)
  have fstr: "rd (map (\<lambda>i. prod_list (take i ps)) [0..<Suc (length ps)]) (int i) = Some ?F"
    using i by (subst rd_nat) (auto simp del: upt_Suc)
  have sh0: "(if 0 < shift st then nat (shift st) else 0) = 0" using sh by simp
  show ?thesis
    unfolding fft_stage_def case_prod_conv Let_def sh0 m2 p fstr Option.bind.simps(2) push_bit_0_id id_apply
      stage_kernel_def [symmetric]
    by (simp split: option.split)
qed

lemma plan_products:
  assumes i: "i < length ps"
  shows "drop i ps = ps ! i # drop (Suc i) ps" "take (Suc i) ps = take i ps @ [ps ! i]"
    "prod_list (take i ps) * (ps ! i * prod_list (drop (Suc i) ps)) = prod_list ps"
    "(if i = 0 then 1 else prod_list (drop i ps)) = ps ! i * prod_list (drop (Suc i) ps) \<or> prod_list (take i ps) = Suc 0"
proof -
  show drop: "drop i ps = ps ! i # drop (Suc i) ps" using i by (simp add: Cons_nth_drop_Suc)
  show "take (Suc i) ps = take i ps @ [ps ! i]" using i by (simp add: take_Suc_conv_app_nth)
  show "prod_list (take i ps) * (ps ! i * prod_list (drop (Suc i) ps)) = prod_list ps"
    using arg_cong [OF append_take_drop_id [of i ps], of prod_list] drop by simp
  show "(if i = 0 then 1 else prod_list (drop i ps)) = ps ! i * prod_list (drop (Suc i) ps) \<or> prod_list (take i ps) = Suc 0"
    by (simp add: drop)
qed

lemma fft_stage_run:
  assumes st: "fft_state_ok ps st" and i: "i < length ps"
    and A: "blocks_done (take (Suc i) ps) (drop (Suc i) ps) x A"
  shows "\<exists>A'. fft_stage st (map (\<lambda>i. prod_list (take i ps)) [0..<Suc (length ps)]) i (A, prod_list (drop (Suc i) ps)) =
      Some (A', if i = 0 then 1 else prod_list (drop i ps)) \<and> blocks_done (take i ps) (drop i ps) x A'"
proof -
  have tab: "factor_table ps (factors st)" and sh: "shift st \<le> 0"
    and tw: "twiddles_ok (prod_list ps) (twiddles st)" using st by (auto simp: fft_state_ok_def)
  let ?p = "ps ! i" and ?m = "prod_list (drop (Suc i) ps)" and ?F = "prod_list (take i ps)"
  let ?m2 = "if i = 0 then 1 else prod_list (drop i ps)"
  note pp = plan_products [OF i]
  note pos = factor_table_pos [OF tab]
  have radix: "?p \<in> {3, 4, 5} \<or> ?p = 2 \<and> Suc i = length ps" using tab i by (auto simp: factor_table_def)
  have len: "length A = ?F * (?p * ?m)" using A unfolding blocks_done_def pp(2) by (simp add: mult.assoc)
  have tw': "twiddles_ok (?F * (?p * ?m)) (twiddles st)" using tw by (simp only: pp(3))
  note stage = kf_bfly_stage [OF tw' pos(1) pos(2) pp(4) len]
  have "\<exists>A'. stage_kernel ?p A (twiddles st) ?m ?F ?m2 = Some A' \<and> stage_spec ?p ?m ?F A A'"
  proof -
    consider "?p = 2" "?m = 1" | "?p = 3" | "?p = 4" | "?p = 5" using radix by auto
    then show ?thesis unfolding stage_kernel_def by cases (use stage in simp_all)
  qed
  then obtain A' where run: "stage_kernel ?p A (twiddles st) ?m ?F ?m2 = Some A'" and spec: "stage_spec ?p ?m ?F A A'"
    by blast
  have "blocks_done (take i ps) (drop i ps) x A'"
    unfolding pp(1) using A spec radix pos by (intro stage_combines) (auto simp: pp(2))
  then show ?thesis unfolding fft_stage_kernel [OF tab sh i] run by simp
qed

lemma rnn_fft_impl_dft:
  assumes st: "fft_state_ok ps st" and A: "blocks_done ps [] x A"
  shows "\<exists>A'. rnn_fft_impl st A = Some A' \<and> blocks_done [] ps x A'"
proof -
  let ?fs = "map (\<lambda>i. prod_list (take i ps)) [0..<Suc (length ps)]"
  have tab: "factor_table ps (factors st)" using st by (simp add: fft_state_ok_def)
  have ne: "0 < length ps" using tab by (simp add: factor_table_def)
  have fs: "fstrides (factors st) [1] = Some ?fs" using fstrides_run [OF tab ne] by simp
  have stages: "\<exists>A' m. ofold (fft_stage st ?fs) (rev [0..<i]) (A, m0) = Some (A', m) \<and> blocks_done [] ps x A'"
    if "i \<le> length ps" "blocks_done (take i ps) (drop i ps) x A" "i \<noteq> 0 \<Longrightarrow> m0 = prod_list (drop i ps)" for i A m0
    using that
  proof (induction i arbitrary: A m0)
    case (Suc i)
    have i: "i < length ps" using Suc.prems(1) by simp
    have m0: "m0 = prod_list (drop (Suc i) ps)" using Suc.prems(3) by simp
    obtain A1 where A1: "fft_stage st ?fs i (A, m0) = Some (A1, if i = 0 then 1 else prod_list (drop i ps))"
      "blocks_done (take i ps) (drop i ps) x A1"
      using fft_stage_run [OF st i Suc.prems(2)] unfolding m0 by blast
    obtain A' m where "ofold (fft_stage st ?fs) (rev [0..<i]) (A1, if i = 0 then 1 else prod_list (drop i ps)) = Some (A', m)"
      "blocks_done [] ps x A'"
      using Suc.IH [of A1 "if i = 0 then 1 else prod_list (drop i ps)"] A1(2) i by auto
    then show ?case using A1(1) by (simp del: upt_Suc add: upt_Suc_append)
  qed simp
  have m: "rd (factors st) (2 * int (length ps) - 1) = Some 1"
  proof -
    obtain j where j: "length ps = Suc j" using ne by (cases "length ps") auto
    then have "2 * int (length ps) - 1 = int (2 * j + 1)" by simp
    moreover have "2 * j + 1 < length (factors st)" "factors st ! (2 * j + 1) = 1"
      using tab j by (auto simp: factor_table_def)
    ultimately show ?thesis using rd_nat [of "2 * j + 1" "factors st"] by (simp only:)
  qed
  have L: "length ?fs - 1 = length ps" by simp
  obtain A' mm where "ofold (fft_stage st ?fs) (rev [0..<length ps]) (A, 1) = Some (A', mm)" "blocks_done [] ps x A'"
    using stages [of "length ps" A 1] A by auto
  then show ?thesis
    unfolding rnn_fft_impl_def fs Option.bind.simps(2) Let_def L m by (simp del: upt_Suc)
qed

section \<open>The two transforms\<close>

lemma scatter_run:
  fixes h :: "'a \<Rightarrow> 'b"
  assumes st: "length br = N" "\<forall>i<N. br ! i = rev_pos ps i" and N: "N = prod_list ps" "0 < N"
    and len: "N \<le> length xs" "length F = N"
  shows "\<exists>F'. ofold (\<lambda>i F. do { x \<leftarrow> rd xs (int i); b \<leftarrow> rd br (int i); wr F (int b) (h x) }) [0..<N] F = Some F' \<and>
    length F' = N \<and> (\<forall>i<N. F' ! rev_pos ps i = h (xs ! i))"
proof (rule ofold_inv [where P = "\<lambda>n F. length F = N \<and> (\<forall>i<n. F ! rev_pos ps i = h (xs ! i))"])
  fix i and F :: "'b list" assume i: "i < N" and F: "length F = N \<and> (\<forall>j<i. F ! rev_pos ps j = h (xs ! j))"
  have pos: "0 < prod_list ps" using N by simp
  have less: "rev_pos ps j < N" for j using rev_pos_less [OF pos] N(1) by simp
  have other: "rev_pos ps j \<noteq> rev_pos ps i" if "j < i" for j
    using rev_pos_inj [OF pos, of j i] that i N(1) by auto
  have "(\<forall>j<Suc i. F[rev_pos ps i := h (xs ! i)] ! rev_pos ps j = h (xs ! j))"
    using F less other other [symmetric] by (fastforce simp: less_Suc_eq nth_list_update)
  then show "\<exists>s'. (do { x \<leftarrow> rd xs (int i); b \<leftarrow> rd br (int i); wr F (int b) (h x) }) = Some s' \<and>
      length s' = N \<and> (\<forall>j<Suc i. s' ! rev_pos ps j = h (xs ! j))"
    using i F st len less [of i] by (simp add: rd_nat wr_nat)
qed (use len in simp)

lemma blocks_done_start:
  "length A = prod_list ps \<Longrightarrow> (\<And>i. i < prod_list ps \<Longrightarrow> to_c (A ! rev_pos ps i) = x i) \<Longrightarrow> blocks_done ps [] x A"
  by (simp add: blocks_done_def dft_def)

lemma blocks_done_end:
  "blocks_done [] ps x A \<longleftrightarrow> length A = prod_list ps \<and> (\<forall>k<prod_list ps. to_c (A ! k) = dft (prod_list ps) x k)"
  by (simp add: blocks_done_def)

lemma rnn_fft_run:
  assumes st: "fft_state_ok ps st" and len: "nfft st \<le> length fin" "length fout = nfft st"
  shows "\<exists>out. rnn_fft_c st fin fout = Some out \<and> length out = nfft st \<and>
    (\<forall>k<nfft st. to_c (out ! k) = complex_of_real (scale st) * (\<Sum>n<nfft st. wn (nfft st) (n * k) * to_c (fin ! n)))"
proof -
  have N: "nfft st = prod_list ps" "0 < nfft st" and br: "length (bitrev st) = nfft st" "\<forall>i<nfft st. bitrev st ! i = rev_pos ps i"
    using st factor_table_pos(3) by (auto simp: fft_state_ok_def)
  let ?h = "\<lambda>x. \<lparr>cr = scale st * cr x, ci = scale st * ci x\<rparr>"
  obtain F where F: "ofold (\<lambda>i F. do { x \<leftarrow> rd fin (int i); b \<leftarrow> rd (bitrev st) (int i); wr F (int b) (?h x) }) [0..<nfft st] fout = Some F"
    "length F = nfft st" "\<forall>i<nfft st. F ! rev_pos ps i = ?h (fin ! i)"
    using scatter_run [OF br N len, of ?h] by blast
  have "to_c (F ! rev_pos ps i) = scale st * to_c (fin ! i)" if "i < prod_list ps" for i
    using F(3) that N(1) by (simp add: to_c_def complex_eq_iff)
  then have "blocks_done ps [] (\<lambda>n. scale st * to_c (fin ! n)) F"
    using F(2) N(1) by (intro blocks_done_start) auto
  then obtain out where out: "rnn_fft_impl st F = Some out" "blocks_done [] ps (\<lambda>n. scale st * to_c (fin ! n)) out"
    using rnn_fft_impl_dft [OF st] by blast
  have "rnn_fft_c st fin fout = Some out"
    unfolding rnn_fft_c_def F(1) Option.bind.simps(2) out(1) ..
  moreover have "dft N (\<lambda>n. c * x n) k = c * (\<Sum>n<N. wn N (n * k) * x n)" for N x k and c :: complex
    by (simp add: dft_def sum_distrib_left algebra_simps)
  ultimately show ?thesis using out(2) by (auto simp: blocks_done_end N(1))
qed

text \<open>C27. With the tables of the plan, the transform returns and the output cell \<open>k\<close> is \<open>scale\<close> times
  the sum over the inputs \<open>x n\<close> times \<open>exp (- 2 pi i n k / N)\<close>: the discrete Fourier transform, for every
  size whose radices are 3, 4 and 5 with at most a last 2.\<close>

theorem rnn_fft_is_dft:
  assumes "fft_state_ok ps st" "nfft st \<le> length fin" "length fout = nfft st"
  shows "\<exists>out. rnn_fft_c st fin fout = Some out \<and> length out = nfft st \<and>
    (\<forall>k<nfft st. to_c (out ! k) = complex_of_real (scale st) * (\<Sum>n<nfft st. wn (nfft st) (n * k) * to_c (fin ! n)))"
  by (rule rnn_fft_run [OF assms])

lemma neg_im_run:
  assumes "length xs = n"
  shows "neg_im n xs = Some (map (\<lambda>x. x\<lparr>ci := - ci x\<rparr>) xs)"
proof -
  have "neg_im n xs = Some (seg_upd xs 0 n (\<lambda>i. (xs ! i)\<lparr>ci := - ci (xs ! i)\<rparr>))"
    unfolding neg_im_def by (rule ofold_seg) (use assms in \<open>auto simp: rd_nat wr_nat\<close>)
  moreover have "seg_upd xs 0 n (\<lambda>i. (xs ! i)\<lparr>ci := - ci (xs ! i)\<rparr>) = map (\<lambda>x. x\<lparr>ci := - ci x\<rparr>) xs"
    using assms by (intro nth_equalityI) auto
  ultimately show ?thesis by simp
qed

lemma to_c_cnj: "to_c (x\<lparr>ci := - ci x\<rparr>) = cnj (to_c x)"
  by (simp add: to_c_def complex_eq_iff)

lemma rnn_ifft_run:
  assumes st: "fft_state_ok ps st" and len: "nfft st \<le> length fin" "length fout = nfft st"
  shows "\<exists>out. rnn_ifft_c st fin fout = Some out \<and> length out = nfft st \<and>
    (\<forall>k<nfft st. to_c (out ! k) = (\<Sum>n<nfft st. cnj (wn (nfft st) (n * k)) * to_c (fin ! n)))"
proof -
  have N: "nfft st = prod_list ps" "0 < nfft st" and br: "length (bitrev st) = nfft st" "\<forall>i<nfft st. bitrev st ! i = rev_pos ps i"
    using st factor_table_pos(3) by (auto simp: fft_state_ok_def)
  obtain F where F: "ofold (\<lambda>i F. do { x \<leftarrow> rd fin (int i); b \<leftarrow> rd (bitrev st) (int i); wr F (int b) x }) [0..<nfft st] fout = Some F"
    "length F = nfft st" "\<forall>i<nfft st. F ! rev_pos ps i = fin ! i"
    using scatter_run [OF br N len, of "\<lambda>x. x"] by blast
  have less: "rev_pos ps i < nfft st" for i using rev_pos_less [of ps] N by simp
  let ?G = "map (\<lambda>x. x\<lparr>ci := - ci x\<rparr>) F"
  have "blocks_done ps [] (\<lambda>n. cnj (to_c (fin ! n))) ?G"
    using F(2,3) N(1) less by (intro blocks_done_start) (auto simp: to_c_cnj)
  then obtain out where out: "rnn_fft_impl st ?G = Some out" "blocks_done [] ps (\<lambda>n. cnj (to_c (fin ! n))) out"
    using rnn_fft_impl_dft [OF st] by blast
  have len': "length out = nfft st" using out(2) by (simp add: blocks_done_end N(1))
  have "rnn_ifft_c st fin fout = Some (map (\<lambda>x. x\<lparr>ci := - ci x\<rparr>) out)"
    unfolding rnn_ifft_c_def F(1) Option.bind.simps(2) neg_im_run [OF F(2)] out(1) neg_im_run [OF len'] ..
  then show ?thesis using out(2) len' by (auto simp: blocks_done_end N(1) to_c_cnj dft_def)
qed

lemma wn_one: "0 < N \<Longrightarrow> n < N \<Longrightarrow> wn N n = 1 \<Longrightarrow> n = 0"
proof -
  assume N: "0 < N" "n < N" and "wn N n = 1"
  then have "cis (- (2 * pi * real n / real N)) = 1" by (simp add: wn_def)
  then have "cos (2 * pi * real n / real N) = 1" by (simp add: complex_eq_iff)
  then obtain k :: int where "2 * pi * real n / real N = of_int k * (2 * pi)"
    by (auto simp: cos_one_2pi_int)
  then have "real n = real_of_int k * real N" using N(1) pi_gt_zero by (simp add: field_simps)
  then have "int n = k * int N" by (metis of_int_eq_iff of_int_mult of_int_of_nat_eq)
  then show "n = 0" using N by (metis dvd_triv_right int_dvd_int_iff nat_dvd_not_less neq0_conv)
qed

lemma wn_pow: "wn N (k * n) = wn N n ^ k"
  by (induction k) (simp_all add: wn_add)

lemma wn_orthogonal:
  assumes "n < N" "m < N"
  shows "(\<Sum>k<N. cnj (wn N (k * m)) * wn N (k * n)) = (if n = m then of_nat N else 0)"
proof -
  have N: "0 < N" using assms by simp
  let ?d = "N - m + n"
  have d: "wn N ?d = cnj (wn N m) * wn N n"
    using wn_add [of N "N - m" n] wn_cnj [of m N] N assms by simp
  have "cnj (wn N (k * m)) * wn N (k * n) = wn N ?d ^ k" for k
    by (simp add: wn_pow d power_mult_distrib)
  then have eq: "(\<Sum>k<N. cnj (wn N (k * m)) * wn N (k * n)) = (\<Sum>k<N. wn N ?d ^ k)" by simp
  have dm: "wn N ?d = wn N (?d mod N)" by (simp add: wn_mod)
  show ?thesis
  proof (cases "n = m")
    case True
    then have "?d = N" using assms by simp
    then show ?thesis unfolding eq using True wn_period [of N 1] by simp
  next
    case False
    have "?d mod N \<noteq> 0" using False assms by (cases "m < n") (auto simp: mod_if)
    then have ne: "wn N ?d \<noteq> 1" unfolding dm using wn_one [OF N, of "?d mod N"] N by auto
    have "wn N ?d ^ N = 1" using wn_pow [of N N ?d] wn_period [of N ?d] by (simp add: mult.commute)
    then show ?thesis unfolding eq using False ne by (simp add: geometric_sum)
  qed
qed

lemma fft_pair:
  assumes st: "fft_state_ok ps st" and len: "length fin = nfft st" "length f1 = nfft st" "length f2 = nfft st"
  shows "\<exists>spec out. rnn_fft_c st fin f1 = Some spec \<and> rnn_ifft_c st spec f2 = Some out \<and>
    length out = nfft st \<and> (\<forall>n<nfft st. to_c (out ! n) = complex_of_real (scale st * nfft st) * to_c (fin ! n))"
proof -
  let ?N = "nfft st"
  obtain spec where spec: "rnn_fft_c st fin f1 = Some spec" "length spec = ?N"
    "\<And>k. k < ?N \<Longrightarrow> to_c (spec ! k) = scale st * (\<Sum>n<?N. wn ?N (n * k) * to_c (fin ! n))"
    using rnn_fft_run [OF st _ len(2), of fin] len(1) by auto
  obtain out where out: "rnn_ifft_c st spec f2 = Some out" "length out = ?N"
    "\<And>n. n < ?N \<Longrightarrow> to_c (out ! n) = (\<Sum>k<?N. cnj (wn ?N (k * n)) * to_c (spec ! k))"
    using rnn_ifft_run [OF st _ len(3), of spec] spec(2) by auto
  have "to_c (out ! m) = scale st * ?N * to_c (fin ! m)" if m: "m < ?N" for m
  proof -
    have "to_c (out ! m) = (\<Sum>k<?N. \<Sum>n<?N. scale st * (cnj (wn ?N (k * m)) * wn ?N (k * n)) * to_c (fin ! n))"
      unfolding out(3) [OF m] by (intro sum.cong) (auto simp: spec(3) sum_distrib_left algebra_simps)
    also have "\<dots> = (\<Sum>n<?N. scale st * (\<Sum>k<?N. cnj (wn ?N (k * m)) * wn ?N (k * n)) * to_c (fin ! n))"
      by (subst sum.swap) (simp add: sum_distrib_left sum_distrib_right)
    also have "\<dots> = (\<Sum>n<?N. if n = m then scale st * ?N * to_c (fin ! m) else 0)"
      by (intro sum.cong) (use m in \<open>auto simp: wn_orthogonal\<close>)
    also have "\<dots> = scale st * ?N * to_c (fin ! m)" using m by simp
    finally show ?thesis .
  qed
  then show ?thesis using spec(1) out(1,2) by auto
qed

text \<open>C28. The inverse transform of the transform of an array of \<open>N\<close> values, both run on the same plan,
  returns each value times \<open>scale * N\<close>; with the plan's \<open>scale = 1 / N\<close> the round trip is the identity.\<close>

theorem rnn_fft_roundtrip:
  assumes st: "fft_state_ok ps st" and len: "length fin = nfft st" "length f1 = nfft st" "length f2 = nfft st"
  shows "\<exists>spec out. rnn_fft_c st fin f1 = Some spec \<and> rnn_ifft_c st spec f2 = Some out \<and>
    length out = nfft st \<and> (\<forall>n<nfft st. to_c (out ! n) = complex_of_real (scale st * nfft st) * to_c (fin ! n))"
  by (rule fft_pair [OF assms])

section \<open>Planning a transform\<close>

text \<open>
  \<open>kf_factor\<close>. A run that stores outside the sixteen cells of \<open>facbuf\<close>, or a value that does not fit in
  \<open>opus_int16\<close> (whose conversion C leaves to the implementation), is \<open>None\<close>; otherwise the value is the
  C function's result and the buffer. Sizes are not negative.
\<close>

definition i16_cell :: "nat list \<Rightarrow> int \<Rightarrow> nat \<Rightarrow> nat list option" where
  "i16_cell buf i v = (if v < 2 ^ 15 then wr buf i v else None)"

lemma square_le: "p * p \<le> n \<Longrightarrow> p \<le> (n::nat)"
  by (meson le_square le_trans)

definition factor_measure :: "nat \<times> nat \<Rightarrow> nat" where
  "factor_measure = (\<lambda>(n, p). if n mod p = 0 then 0 else if p = 4 then n + 3 else if p = 2 then n + 2 else 1 + (n - p))"

lemma factor_measure_next:
  fixes n p p' :: nat
  assumes p: "p \<noteq> 0" "n mod p \<noteq> 0" and p': "p' = (if p = 4 then 2 else if p = 2 then 3 else p + 2)"
  shows "factor_measure (n, if 32000 < p' \<or> n < p' * p' then n else p') < factor_measure (n, p)"
proof (cases "32000 < p' \<or> n < p' * p'")
  case True
  then show ?thesis using p by (simp add: factor_measure_def)
next
  case False
  then have le: "p' \<le> n" using square_le [of p' n] by simp
  consider "p = 4" "p' = 2" | "p = 2" "p' = 3" | "p \<noteq> 4" "p \<noteq> 2" "p' = p + 2" using p' by (auto split: if_splits)
  then have "factor_measure (n, p') < factor_measure (n, p)"
    using p le by cases (simp_all add: factor_measure_def, arith+)
  then show ?thesis by (simp only: False if_False)
qed

function next_factor :: "nat \<Rightarrow> nat \<Rightarrow> nat option" where
  "next_factor n p =
     (if p = 0 then None
      else if n mod p = 0 then Some p
      else (let p = (if p = 4 then 2 else if p = 2 then 3 else p + 2)
            in next_factor n (if 32000 < p \<or> n < p * p then n else p)))"
  by pat_completeness auto

termination
  by (relation "measure factor_measure") (simp_all only: wf_measure in_measure factor_measure_next not_False_eq_True)

declare next_factor.simps [simp del]

lemma i16_cell_length: "i16_cell buf i v = Some buf' \<Longrightarrow> length buf' = length buf \<and> 0 \<le> i \<and> i < int (length buf)"
  by (auto simp: i16_cell_def wr_def split: if_splits)

function factor_loop :: "nat \<Rightarrow> nat \<Rightarrow> nat \<Rightarrow> nat list \<Rightarrow> (int \<times> nat \<times> nat list) option" where
  "factor_loop n p stages facbuf = (case next_factor n p of None \<Rightarrow> None | Some p \<Rightarrow>
     (let n = n div p
      in if 5 < p then Some (0, stages, facbuf)
         else (case i16_cell facbuf (2 * int stages) p of None \<Rightarrow> None | Some facbuf \<Rightarrow>
           (case (if p = 2 \<and> 1 < stages
                  then (case i16_cell facbuf (2 * int stages) 4 of None \<Rightarrow> None | Some facbuf \<Rightarrow> i16_cell facbuf 2 2)
                  else Some facbuf) of None \<Rightarrow> None | Some facbuf \<Rightarrow>
             (if 1 < n then factor_loop n p (stages + 1) facbuf else Some (1, stages + 1, facbuf))))))"
  by pat_completeness auto

termination
proof (relation "measure (\<lambda>(n, p, stages, facbuf). length facbuf - 2 * stages)")
  fix n p stages facbuf p' n' buf1 buf2
  assume 1: "i16_cell facbuf (2 * int stages) p' = Some buf1"
    and 2: "(if p' = 2 \<and> 1 < stages
      then (case i16_cell buf1 (2 * int stages) 4 of None \<Rightarrow> None | Some facbuf \<Rightarrow> i16_cell facbuf 2 2)
      else Some buf1) = Some buf2"
  have "length buf2 = length facbuf" "2 * int stages < length facbuf"
    using i16_cell_length [OF 1] 2 by (auto split: if_splits option.splits dest!: i16_cell_length)
  then show "((n', p', stages + 1, buf2), n, p, stages, facbuf) \<in> measure (\<lambda>(n, p, stages, facbuf). length facbuf - 2 * stages)"
    by auto
qed simp

declare factor_loop.simps [simp del]

definition kf_factor :: "nat \<Rightarrow> nat list \<Rightarrow> (int \<times> nat list) option" where
  "kf_factor n facbuf = do {
     let nbak = n;
     (r, stages, facbuf) \<leftarrow> factor_loop n 4 0 facbuf;
     if r = 0 then Some (0, facbuf)
     else do {
       let n = nbak;
       facbuf \<leftarrow> ofold (\<lambda>i facbuf. do {
           tmp \<leftarrow> rd facbuf (2 * int i);
           x \<leftarrow> rd facbuf (2 * (int stages - int i - 1));
           facbuf \<leftarrow> wr facbuf (2 * int i) x;
           wr facbuf (2 * (int stages - int i - 1)) tmp
         }) [0..<stages div 2] facbuf;
       (n, facbuf) \<leftarrow> ofold (\<lambda>i (n, facbuf). do {
           d \<leftarrow> rd facbuf (2 * int i);
           let n = n div d;
           facbuf \<leftarrow> i16_cell facbuf (2 * int i + 1) n;
           Some (n, facbuf)
         }) [0..<stages] (n, facbuf);
       Some (1, facbuf)
     }
   }"

text \<open>The output pointer \<open>f\<close> is an offset into the table.\<close>

lemma ofold_fundef_cong [fundef_cong]:
  "xs = ys \<Longrightarrow> s = t \<Longrightarrow> (\<And>x s. x \<in> set ys \<Longrightarrow> f x s = g x s) \<Longrightarrow> ofold f xs s = ofold g ys t"
  using ofold_cong by metis

fun compute_bitrev_table :: "nat \<Rightarrow> nat list \<Rightarrow> nat \<Rightarrow> nat \<Rightarrow> nat \<Rightarrow> nat list \<Rightarrow> nat list option" where
  "compute_bitrev_table Fout tab f fstride in_stride (p # m # facs) =
     (if m = 1 then
        map_option fst (ofold (\<lambda>j (tab, f). case wr tab (int f) (Fout + j) of None \<Rightarrow> None
          | Some tab \<Rightarrow> Some (tab, f + fstride * in_stride)) [0..<p] (tab, f))
      else
        map_option fst (ofold (\<lambda>j (tab, f, Fout).
          case compute_bitrev_table Fout tab f (fstride * p) in_stride facs of None \<Rightarrow> None
          | Some tab \<Rightarrow> Some (tab, f + fstride * in_stride, Fout + m)) [0..<p] (tab, f, Fout)))"
| "compute_bitrev_table Fout tab f fstride in_stride _ = None"

text \<open>
  The trigonometric functions of the C library, and the constant \<open>pi\<close>, whose literal has more digits than
  a \<open>double\<close>: its value depends on the format of the numbers.
\<close>

record 'a trig =
  c_pi :: 'a
  c_cos :: "'a \<Rightarrow> 'a"
  c_sin :: "'a \<Rightarrow> 'a"

definition kf_cexp :: "'a trig \<Rightarrow> 'a \<Rightarrow> 'a cpx" where
  "kf_cexp T phase = \<lparr>cr = c_cos T phase, ci = c_sin T phase\<rparr>"

definition compute_twiddles ::
  "'a fops \<Rightarrow> 'a::{uminus,one,plus,times,inverse,scaleR} trig \<Rightarrow> nat \<Rightarrow> 'a cpx list" where
  "compute_twiddles P T n = map (\<lambda>i. kf_cexp T ((- (f_of_int P 2) * c_pi T / f_of_int P (int n)) * f_of_int P (int i))) [0..<n]"

section \<open>What the plan is\<close>

text \<open>The next radix, and what is known of the number still to be factored.\<close>

definition radix_state :: "nat \<Rightarrow> nat \<Rightarrow> bool" where
  "radix_state n p \<longleftrightarrow> p = 4 \<or> p = 2 \<and> \<not> 4 dvd n \<or> p = 3 \<and> \<not> 2 dvd n \<or> p = 5 \<and> \<not> 2 dvd n \<and> \<not> 3 dvd n \<or>
     5 < p \<and> \<not> 2 dvd n \<and> \<not> 3 dvd n \<and> \<not> 5 dvd n \<or> n = 1 \<and> p = 1"

lemma radix_state_next:
  assumes "radix_state n p" "0 < n" "n mod p \<noteq> 0" "p' = (if p = 4 then 2 else if p = 2 then 3 else p + 2)"
  shows "radix_state n (if 32000 < p' \<or> n < p' * p' then n else p')"
proof -
  have nd: "\<not> p dvd n" using assms(3) by (simp add: dvd_eq_mod_eq_0)
  consider "p = 4" | "p = 2" | "p = 3" "\<not> 2 dvd n" | "p = 5" "\<not> 2 dvd n" "\<not> 3 dvd n"
    | "5 < p" "\<not> 2 dvd n" "\<not> 3 dvd n" "\<not> 5 dvd n" | "n = 1" "p = 1"
    using assms(1) unfolding radix_state_def by blast
  then show ?thesis
  proof cases
    case 1
    then have p': "p' = 2" using assms(4) by simp
    show ?thesis unfolding p' radix_state_def using nd 1 assms(2) by (simp; presburger)
  next
    case 2
    then have p': "p' = 3" using assms(4) by simp
    show ?thesis unfolding p' radix_state_def using nd 2 assms(2) by (simp; presburger)
  next
    case 3
    then have p': "p' = 5" using assms(4) by simp
    show ?thesis unfolding p' radix_state_def using nd 3 assms(2) by (simp; presburger)
  next
    case 4
    then have p': "p' = 7" using assms(4) by simp
    show ?thesis unfolding p' radix_state_def using nd 4 assms(2) by (simp; presburger)
  next
    case 5
    then have p': "5 < p'" using assms(4) by simp
    have "n = 1 \<or> 5 < n" using 5 assms(2) by presburger
    then show ?thesis unfolding radix_state_def using p' 5 by auto
  next
    case 6
    then show ?thesis using assms(3) by simp
  qed
qed

lemma next_factor_state:
  "radix_state n p \<Longrightarrow> 0 < n \<Longrightarrow> \<exists>q. next_factor n p = Some q \<and> q dvd n \<and> radix_state n q"
proof (induction n p rule: next_factor.induct)
  case (1 n p)
  have p: "p \<noteq> 0" using "1.prems"(1) by (auto simp: radix_state_def)
  show ?case
  proof (cases "n mod p = 0")
    case True
    then have "next_factor n p = Some p" using p by (subst next_factor.simps) simp
    then show ?thesis using True "1.prems"(1) by auto
  next
    case False
    let ?p' = "if p = 4 then 2 else if p = 2 then 3 else p + 2"
    let ?q = "if 32000 < ?p' \<or> n < ?p' * ?p' then n else ?p'"
    have "next_factor n p = next_factor n ?q" using p False by (subst next_factor.simps) (simp only: Let_def if_False)
    moreover have "radix_state n ?q" using radix_state_next [OF "1.prems" False refl] .
    ultimately show ?thesis using "1.IH" [OF p False refl] "1.prems"(2) by simp
  qed
qed

text \<open>The radices found so far: a 2 comes first, or second after a 4.\<close>

definition two_early :: "nat list \<Rightarrow> bool" where
  "two_early qs \<longleftrightarrow> (\<forall>i<length qs. qs ! i = 2 \<longrightarrow> i = 0 \<or> i = 1 \<and> qs ! 0 = 4)"

definition radices :: "nat list \<Rightarrow> bool" where
  "radices qs \<longleftrightarrow> set qs \<subseteq> {2, 3, 4, 5} \<and> two_early qs"

lemma two_early_tail: "two_early (a # b # qs) \<Longrightarrow> 2 \<notin> set qs"
  by (fastforce simp: two_early_def in_set_conv_nth)

lemma prod_list_lower: "(\<And>q. q \<in> set qs \<Longrightarrow> (3::nat) \<le> q) \<Longrightarrow> 3 ^ length qs \<le> prod_list qs"
  by (induction qs) (auto intro!: mult_le_mono)

lemma radices_lower:
  assumes "radices qs" "qs \<noteq> []"
  shows "2 * 3 ^ (length qs - 1) \<le> prod_list qs"
proof (cases qs)
  case (Cons a rest)
  then show ?thesis
  proof (cases rest)
    case Nil
    then show ?thesis using Cons assms by (auto simp: radices_def)
  next
    case (Cons b tl)
    note qs = \<open>qs = a # rest\<close> Cons
    have "3 ^ length tl \<le> prod_list tl"
    proof (rule prod_list_lower)
      fix q assume "q \<in> set tl"
      then show "3 \<le> q" using assms(1) two_early_tail [of a b tl] unfolding qs radices_def by fastforce
    qed
    moreover have "a = 2 \<longrightarrow> b \<noteq> 2"
    proof
      assume "a = 2"
      then show "b \<noteq> 2" using assms(1) unfolding qs radices_def two_early_def by (auto dest: spec [of _ "1::nat"])
    qed
    then have "6 \<le> a * b" using assms(1) unfolding qs radices_def by auto
    ultimately have "6 * 3 ^ length tl \<le> a * b * prod_list tl" by (rule mult_le_mono [rotated])
    then show ?thesis unfolding qs by (simp add: mult.assoc)
  qed
qed (use assms in simp)

definition factored :: "nat \<Rightarrow> nat \<Rightarrow> nat \<Rightarrow> nat \<Rightarrow> nat list \<Rightarrow> nat list \<Rightarrow> bool" where
  "factored N n p s buf qs \<longleftrightarrow> length qs = s \<and> length buf = 16 \<and> 2 * s \<le> 16 \<and> (\<forall>i < s. buf ! (2 * i) = qs ! i) \<and>
     prod_list qs * n = N \<and> radices qs \<and> radix_state n p \<and> 0 < n \<and> (if p = 4 then set qs \<subseteq> {4} else \<not> 2 dvd n)"

lemma factored_room:
  assumes "factored N n p s buf qs" "1 < n" "N < 8748"
  shows "s < 8"
proof (rule ccontr)
  assume "\<not> s < 8"
  then have s: "length qs = 8" using assms(1) by (auto simp: factored_def)
  then have "2 * 3 ^ 7 \<le> prod_list qs" using radices_lower [of qs] assms(1) by (force simp: factored_def)
  then have "4374 * 2 \<le> prod_list qs * n" using assms(2) by (intro mult_le_mono) auto
  then show False using assms(1,3) by (simp add: factored_def)
qed

lemma radix_dvd:
  assumes "radix_state n q" "q dvd n" "1 < n" "q \<le> 5"
  shows "q \<in> {2, 3, 4, 5}" "0 < n div q" "n = q * (n div q)" "n div q < n"
    "radix_state (n div q) q" "q \<noteq> 4 \<Longrightarrow> \<not> 2 dvd n div q"
proof -
  show q: "q \<in> {2, 3, 4, 5}" using assms by (auto simp: radix_state_def)
  obtain k where k: "n = q * k" using assms(2) by blast
  have div: "n div q = k" using q k by auto
  show "0 < n div q" "n = q * (n div q)" "n div q < n" using assms(3) q k div by auto
  show "radix_state (n div q) q" using assms(1) q unfolding div k radix_state_def by auto
  show "\<not> 2 dvd n div q" if "q \<noteq> 4" using assms(1) q that unfolding div k radix_state_def by auto
qed

lemma nat_cell [simp]: "nat (2 * int s) = 2 * s"
  by simp

lemma i16_cell_nat: "i < length buf \<Longrightarrow> v < 2 ^ 15 \<Longrightarrow> i16_cell buf (int i) v = Some (buf[i := v])"
  by (simp add: i16_cell_def wr_nat)

lemma factored_step:
  assumes inv: "factored N n p s buf qs" and n: "1 < n" and N: "N < 8748"
    and q: "q dvd n" "radix_state n q" "q \<le> 5" and prev: "p \<noteq> 4 \<Longrightarrow> q \<noteq> 2 \<and> q \<noteq> 4"
  shows "\<exists>buf1 buf2 qs'. i16_cell buf (2 * int s) q = Some buf1 \<and>
    (if q = 2 \<and> 1 < s then (case i16_cell buf1 (2 * int s) 4 of None \<Rightarrow> None | Some b \<Rightarrow> i16_cell b 2 2) else Some buf1) = Some buf2 \<and>
    factored N (n div q) q (s + 1) buf2 qs'"
proof -
  note dv = radix_dvd [OF q(2,1) n q(3)]
  note inv' = inv [unfolded factored_def]
  have s: "s < 8" by (rule factored_room [OF inv n N])
  have len: "length buf = 16" "length qs = s" using inv' by auto
  have cells: "buf ! (2 * i) = qs ! i" if "i < s" for i using inv' that by blast
  have w1: "i16_cell buf (2 * int s) q = Some (buf[2 * s := q])"
    using i16_cell_nat [of "2 * s" buf q] s len dv(1) by auto
  have rad: "set qs \<subseteq> {2, 3, 4, 5}" "two_early qs" using inv' by (auto simp: radices_def)
  show ?thesis
  proof (cases "q = 2 \<and> 1 < s")
    case True
    then have "p = 4" using prev by auto
    then have p4: "set qs \<subseteq> {4}" using inv' by simp
    let ?b2 = "buf[2 * s := 4, 2 := 2]" and ?qs = "qs[1 := 2] @ [4]"
    have w2: "i16_cell (buf[2 * s := q]) (2 * int s) 4 = Some (buf[2 * s := 4])"
      using i16_cell_nat [of "2 * s" "buf[2 * s := q]" 4] s len by simp
    have w3: "i16_cell (buf[2 * s := 4]) 2 2 = Some ?b2"
      using i16_cell_nat [of 2 "buf[2 * s := 4]" 2] len by simp
    have prod: "prod_list (qs[1 := 2] @ [4]) * (n div 2) = N"
    proof -
      obtain a b tl where qs: "qs = a # b # tl" using True len(2) by (cases qs; cases "tl qs") auto
      then have "b = 4" using p4 by simp
      moreover have "prod_list qs * n = N" using inv' by blast
      moreover obtain k where "n = 2 * k" using q(1) True by blast
      ultimately show ?thesis unfolding qs by (simp add: algebra_simps)
    qed
    have "two_early ?qs" unfolding two_early_def
    proof (intro allI impI)
      fix i assume i: "i < length ?qs" "?qs ! i = 2"
      have "qs ! j = 4" if "j < s" for j using p4 that len(2) nth_mem [of j qs] by blast
      then show "i = 0 \<or> i = 1 \<and> ?qs ! 0 = 4" using i True len(2)
        by (auto simp: nth_append nth_list_update split: if_splits)
    qed
    moreover have "set ?qs \<subseteq> {2, 3, 4, 5}" using p4 set_update_subset_insert [of qs 1 2] by auto
    moreover have "?b2 ! (2 * i) = ?qs ! i" if "i < s + 1" for i
      using that cells True len s by (auto simp: nth_append nth_list_update less_Suc_eq)
    ultimately have "factored N (n div q) q (s + 1) ?b2 ?qs"
      using len s True prod dv by (simp add: factored_def radices_def)
    then show ?thesis using w1 w2 w3 True by auto
  next
    case False
    let ?b = "buf[2 * s := q]"
    have "two_early (qs @ [q])" unfolding two_early_def
    proof (intro allI impI)
      fix i assume i: "i < length (qs @ [q])" "(qs @ [q]) ! i = 2"
      show "i = 0 \<or> i = 1 \<and> (qs @ [q]) ! 0 = 4"
      proof (cases "i < s")
        case True
        then show ?thesis using i rad(2) len(2) unfolding two_early_def by (auto simp: nth_append)
      next
        case ge: False
        then have "i = s" "q = 2" using i len(2) by (auto simp: nth_append less_Suc_eq)
        moreover from this have "p = 4" using prev by auto
        then have "set qs \<subseteq> {4}" using inv' by simp
        moreover have "s \<le> 1" using False \<open>q = 2\<close> by simp
        moreover have "qs ! 0 = 4" if "s \<noteq> 0" using that \<open>set qs \<subseteq> {4}\<close> len(2) nth_mem [of 0 qs] by blast
        ultimately show ?thesis using len(2) by (cases "s = 0") (auto simp: nth_append)
      qed
    qed
    moreover have "set (qs @ [q]) \<subseteq> {2, 3, 4, 5}" using rad dv(1) by auto
    moreover have "prod_list (qs @ [q]) * (n div q) = N" using inv' dv(3) by (auto simp: mult.assoc)
    moreover have "?b ! (2 * i) = (qs @ [q]) ! i" if "i < s + 1" for i
      using that cells len s by (auto simp: nth_append nth_list_update less_Suc_eq)
    moreover have "set qs \<subseteq> {4}" if "q = 4" using inv' prev that by (auto split: if_splits)
    ultimately have "factored N (n div q) q (s + 1) ?b (qs @ [q])"
      using len s dv by (auto simp: factored_def radices_def)
    then show ?thesis using w1 False by auto
  qed
qed

text \<open>A divisor without the radices as its own divisors.\<close>

definition rough :: "nat \<Rightarrow> bool" where
  "rough d \<longleftrightarrow> 1 < d \<and> \<not> 2 dvd d \<and> \<not> 3 dvd d \<and> \<not> 5 dvd d"

lemma factor_loop_run:
  assumes "factored N n p s buf qs" "1 < n" "N < 8748"
  shows "\<exists>r s' buf'. factor_loop n p s buf = Some (r, s', buf') \<and> length buf' = 16 \<and>
    (r = 0 \<and> (\<exists>d. rough d \<and> d dvd N) \<or> r = 1 \<and> (\<exists>p' qs'. s' \<noteq> 0 \<and> factored N 1 p' s' buf' qs'))"
  using assms
proof (induction n arbitrary: p s buf qs rule: less_induct)
  case (less n)
  have inv: "radix_state n p" "0 < n" "length buf = 16" "prod_list qs * n = N" "p \<noteq> 4 \<Longrightarrow> \<not> 2 dvd n"
    using less.prems(1) by (auto simp: factored_def)
  obtain q where q: "next_factor n p = Some q" "q dvd n" "radix_state n q"
    using next_factor_state [OF inv(1,2)] by blast
  show ?case
  proof (cases "5 < q")
    case True
    then have "factor_loop n p s buf = Some (0, s, buf)" by (subst factor_loop.simps) (simp add: q(1) Let_def)
    moreover have "rough n" using q(3) True less.prems(2) by (auto simp: radix_state_def rough_def)
    moreover have "n dvd N" using inv(4) by (metis dvd_triv_right)
    ultimately show ?thesis using inv(3) by blast
  next
    case False
    then have le: "q \<le> 5" by simp
    have prev: "q \<noteq> 2 \<and> q \<noteq> 4" if "p \<noteq> 4"
    proof -
      have "\<not> 2 dvd q" using inv(5) [OF that] q(2) by (meson dvd_trans)
      then show ?thesis by auto
    qed
    obtain buf1 buf2 qs' where b: "i16_cell buf (2 * int s) q = Some buf1"
      "(if q = 2 \<and> 1 < s then (case i16_cell buf1 (2 * int s) 4 of None \<Rightarrow> None | Some b \<Rightarrow> i16_cell b 2 2) else Some buf1) = Some buf2"
      "factored N (n div q) q (s + 1) buf2 qs'"
      using factored_step [OF less.prems(1,2,3) q(2,3) le prev] by blast
    note dv = radix_dvd [OF q(3,2) less.prems(2) le]
    have run: "factor_loop n p s buf =
        (if 1 < n div q then factor_loop (n div q) q (s + 1) buf2 else Some (1, s + 1, buf2))"
      using False b by (subst factor_loop.simps) (simp only: q(1) Let_def option.case if_False)
    show ?thesis
    proof (cases "1 < n div q")
      case True
      show ?thesis unfolding run using less.IH [OF dv(4) b(3) True less.prems(3)] True by simp
    next
      case last: False
      then have "n div q = 1" using dv(2) by simp
      then have "factored N 1 q (s + 1) buf2 qs'" using b(3) by simp
      moreover from this have "length buf2 = 16" by (simp add: factored_def)
      moreover have "factor_loop n p s buf = Some (1, s + 1, buf2)" unfolding run using last by simp
      ultimately show ?thesis by fastforce
    qed
  qed
qed

lemma rough_prod_list: "set qs \<subseteq> {2, 3, 4, 5} \<Longrightarrow> rough d \<Longrightarrow> \<not> d dvd prod_list qs"
proof (induction qs)
  case (Cons q qs)
  have cop: "coprime d r" if "r \<in> {2, 3, 5}" for r
  proof (rule coprimeI)
    fix c assume c: "c dvd d" "c dvd r"
    then have "c \<noteq> 0" using that by (cases "c = 0") auto
    moreover have "c \<le> 5" "c \<noteq> r" using c that Cons.prems(2) dvd_imp_le [OF c(2)] by (auto simp: rough_def)
    ultimately have "c \<noteq> 0" "c \<le> 5" "c \<noteq> r" by blast+
    then have "c \<in> {1, 2, 3, 4, 5}" by auto
    then show "is_unit c" using c that \<open>c \<noteq> r\<close> by auto
  qed
  have "coprime d 2" "coprime d 3" "coprime d 5" by (rule cop, simp)+
  moreover from this have "coprime d 4" using coprime_mult_right_iff [of d 2 2] by simp
  ultimately have "coprime d q" using Cons.prems(1) by auto
  then show ?case using Cons by (simp add: coprime_dvd_mult_right_iff)
qed (auto simp: rough_def)

lemma swap_loop:
  assumes buf: "length buf = 16" "2 * s \<le> 16" "\<forall>i < s. buf ! (2 * i) = qs ! i" and qs: "length qs = s"
  shows "\<exists>buf'. ofold (\<lambda>i facbuf. do {
        tmp \<leftarrow> rd facbuf (2 * int i);
        x \<leftarrow> rd facbuf (2 * (int s - int i - 1));
        facbuf \<leftarrow> wr facbuf (2 * int i) x;
        wr facbuf (2 * (int s - int i - 1)) tmp
      }) [0..<s div 2] buf = Some buf' \<and> length buf' = 16 \<and> (\<forall>i < s. buf' ! (2 * i) = rev qs ! i)"
proof -
  let ?f = "\<lambda>i facbuf. do {
        tmp \<leftarrow> rd facbuf (2 * int i);
        x \<leftarrow> rd facbuf (2 * (int s - int i - 1));
        facbuf \<leftarrow> wr facbuf (2 * int i) x;
        wr facbuf (2 * (int s - int i - 1)) tmp
      }"
  let ?P = "\<lambda>k b. length b = 16 \<and> (\<forall>i < s. b ! (2 * i) = (if i < k \<or> s - k \<le> i then qs ! (s - 1 - i) else qs ! i))"
  have step: "\<exists>b'. ?f k b = Some b' \<and> ?P (Suc k) b'" if k: "k < s div 2" and P: "?P k b" for k b
  proof -
    let ?j = "s - 1 - k"
    have jk: "?j < s" "k < ?j" using k by auto
    then have "int ?j = int s - int k - 1" by linarith
    then have j: "2 * (int s - int k - 1) = int (2 * ?j)" "2 * int k = int (2 * k)" by simp_all
    have len: "length b = 16" by (rule conjunct1 [OF P])
    have cell: "b ! (2 * i) = (if i < k \<or> s - k \<le> i then qs ! (s - 1 - i) else qs ! i)" if "i < s" for i
      by (rule mp [OF spec [OF conjunct2 [OF P], of i] that])
    have room: "2 * k < length b" "2 * ?j < length b" using len jk buf(2) by auto
    have cells: "b ! (2 * k) = qs ! k" "b ! (2 * ?j) = qs ! ?j"
      using cell [of k] cell [of ?j] k jk by auto
    let ?b = "b[2 * k := qs ! ?j, 2 * ?j := qs ! k]"
    have "?b ! (2 * i) = (if i < Suc k \<or> s - Suc k \<le> i then qs ! (s - 1 - i) else qs ! i)" if i: "i < s" for i
    proof -
      consider "i = k" | "i = ?j" | "i \<noteq> k" "i \<noteq> ?j" by blast
      then show ?thesis
      proof cases
        case 1
        then have "s - 1 - i = ?j" "i < Suc k" by auto
        then show ?thesis using 1 len jk room by (simp add: nth_list_update)
      next
        case 2
        then have "s - 1 - i = k" "s - Suc k \<le> i" using i jk by auto
        then show ?thesis using 2 len jk room by (simp add: nth_list_update)
      next
        case 3
        then have "i < Suc k \<longleftrightarrow> i < k" "s - Suc k \<le> i \<longleftrightarrow> s - k \<le> i" using i k by auto
        moreover have "?b ! (2 * i) = b ! (2 * i)" using 3 by (simp add: nth_list_update)
        ultimately show ?thesis using cell [OF i] by simp
      qed
    qed
    then have P': "?P (Suc k) ?b" using len by simp
    have "?f k b = Some ?b" unfolding j using cells room by (simp add: rd_nat wr_nat del: of_nat_mult)
    then show ?thesis using P' by blast
  qed
  have start: "?P 0 buf" using buf by simp
  have "\<exists>b'. ofold ?f [0..<s div 2] buf = Some b' \<and> ?P (s div 2) b'"
  proof (rule ofold_inv [where P = ?P])
    fix k and b :: "'a list" assume "k < s div 2" "?P k b"
    then show "\<exists>b'. ?f k b = Some b' \<and> ?P (Suc k) b'" by (rule step)
  qed (rule start)
  then obtain b' where run: "ofold ?f [0..<s div 2] buf = Some b' \<and> ?P (s div 2) b'" by (rule exE)
  note b' = conjunct1 [OF run] conjunct2 [OF run]
  have eq: "(if i < s div 2 \<or> s - s div 2 \<le> i then qs ! (s - 1 - i) else qs ! i) = rev qs ! i" if "i < s" for i
  proof (cases "i < s div 2 \<or> s - s div 2 \<le> i")
    case False
    then have "s div 2 \<le> i" "i < s - s div 2" by auto
    moreover have "s = 2 * (s div 2) + s mod 2" "s mod 2 < 2" by simp_all
    ultimately have "s - 1 - i = i" using that by linarith
    then show ?thesis using False that qs by (simp add: rev_nth)
  qed (use that qs in \<open>simp add: rev_nth\<close>)
  have "b' ! (2 * i) = rev qs ! i" if "i < s" for i
    using mp [OF spec [OF conjunct2 [OF b'(2)], of i] that] eq [OF that] by (rule trans)
  then show ?thesis using b'(1) conjunct1 [OF b'(2)] by blast
qed

text \<open>The table holds the radices, each followed by the product of those after it.\<close>

definition factor_cells :: "nat list \<Rightarrow> nat list \<Rightarrow> bool" where
  "factor_cells ps fs \<longleftrightarrow> 2 * length ps \<le> length fs \<and>
     (\<forall>i<length ps. fs ! (2 * i) = ps ! i \<and> fs ! (2 * i + 1) = prod_list (drop (Suc i) ps))"

lemma rests_loop:
  assumes buf: "length buf = 16" "2 * s \<le> 16" "\<forall>i < s. buf ! (2 * i) = ps ! i" and ps: "length ps = s"
    and pos: "\<And>p. p \<in> set ps \<Longrightarrow> 0 < p" and n: "n = prod_list ps" "n < 2 ^ 15"
  shows "\<exists>n' buf'. ofold (\<lambda>i (n, facbuf). do {
        d \<leftarrow> rd facbuf (2 * int i);
        let n = n div d;
        facbuf \<leftarrow> i16_cell facbuf (2 * int i + 1) n;
        Some (n, facbuf)
      }) [0..<s] (n, buf) = Some (n', buf') \<and> length buf' = 16 \<and> factor_cells ps buf'"
proof -
  let ?P = "\<lambda>k (n, b). length b = 16 \<and> n = prod_list (drop k ps) \<and> (\<forall>i < s. b ! (2 * i) = ps ! i) \<and>
    (\<forall>i<k. b ! (2 * i + 1) = prod_list (drop (Suc i) ps))"
  let ?f = "\<lambda>i (n, facbuf). do {
        d \<leftarrow> rd facbuf (2 * int i);
        let n = n div d;
        facbuf \<leftarrow> i16_cell facbuf (2 * int i + 1) n;
        Some (n, facbuf)
      }"
  have step: "\<exists>st'. ?f k st = Some st' \<and> ?P (Suc k) st'" if k: "k < s" and P: "?P k st" for k st
  proof -
    obtain m b where st: "st = (m, b)" by (cases st)
    have b: "length b = 16" "m = prod_list (drop k ps)" "\<forall>i < s. b ! (2 * i) = ps ! i"
      "\<forall>i<k. b ! (2 * i + 1) = prod_list (drop (Suc i) ps)" using P by (auto simp: st)
    let ?m = "prod_list (drop (Suc k) ps)"
    have drop: "drop k ps = ps ! k # drop (Suc k) ps" using k ps by (simp add: Cons_nth_drop_Suc)
    have m: "m div ps ! k = ?m" using pos [of "ps ! k"] k ps unfolding b(2) drop by simp
    have "prod_list ps = prod_list (take (Suc k) ps) * ?m"
      using prod_list.append [of "take (Suc k) ps" "drop (Suc k) ps"] by simp
    moreover have "0 < prod_list (take (Suc k) ps)" using pos by (meson in_set_takeD prod_list_pos)
    ultimately have small: "?m < 2 ^ 15" using n by (cases "prod_list (take (Suc k) ps)") auto
    have idx: "2 * int k = int (2 * k)" "int (2 * k) + 1 = int (2 * k + 1)" by auto
    have "?f k st = Some (?m, b[2 * k + 1 := ?m])"
      unfolding st case_prod_conv idx
      using b(1,3) k buf(2) m i16_cell_nat [of "2 * k + 1" b ?m, OF _ small]
      by (simp add: rd_nat Let_def del: of_nat_mult of_nat_add)
    moreover have "?P (Suc k) (?m, b[2 * k + 1 := ?m])"
      using b k buf(2) by (auto simp: nth_list_update less_Suc_eq) presburger+
    ultimately show ?thesis by blast
  qed
  have "\<exists>st'. ofold ?f [0..<s] (n, buf) = Some st' \<and> ?P s st'"
    by (rule ofold_inv [where P = ?P, OF step]) (assumption | simp add: buf n)+
  then show ?thesis using buf(2) ps by (auto simp: factor_cells_def)
qed

text \<open>What a table of radices has to be for the butterflies: a 2 has 1 or 4 after it.\<close>

definition two_last :: "nat list \<Rightarrow> bool" where
  "two_last ps \<longleftrightarrow> (\<forall>i<length ps. ps ! i = 2 \<longrightarrow> prod_list (drop (Suc i) ps) \<in> {1, 4})"

lemma two_early_rev:
  assumes "two_early qs"
  shows "two_last (rev qs)"
  unfolding two_last_def
proof (intro allI impI)
  fix i assume i: "i < length (rev qs)" "rev qs ! i = 2"
  let ?j = "length qs - 1 - i"
  have j: "?j < length qs" "qs ! ?j = 2" using i by (auto simp: rev_nth)
  have drop: "drop (Suc i) (rev qs) = rev (take ?j qs)" by (simp add: drop_rev)
  have "?j = 0 \<or> ?j = 1 \<and> qs ! 0 = 4" using assms j unfolding two_early_def by blast
  then show "prod_list (drop (Suc i) (rev qs)) \<in> {1, 4}"
  proof
    assume "?j = 0"
    then show ?thesis unfolding drop by simp
  next
    assume "?j = 1 \<and> qs ! 0 = 4"
    then have "take ?j qs = [4]" using j(1) by (cases qs) auto
    then show ?thesis unfolding drop by simp
  qed
qed

lemma prod_list_rev: "prod_list (rev (qs :: nat list)) = prod_list qs"
  by (induction qs) simp_all

lemma kf_factor_run:
  assumes N: "1 < N" "N < 8748" and buf: "length buf = 16"
  shows "(\<exists>d. rough d \<and> d dvd N) \<and> (\<exists>buf'. kf_factor N buf = Some (0, buf')) \<or>
    \<not> (\<exists>d. rough d \<and> d dvd N) \<and> (\<exists>buf' ps. kf_factor N buf = Some (1, buf') \<and> length buf' = 16 \<and>
      0 < length ps \<and> factor_cells ps buf' \<and> prod_list ps = N \<and> set ps \<subseteq> {2, 3, 4, 5} \<and> two_last ps \<and> radices (rev ps))"
proof -
  have "factored N N 4 0 buf []" using N buf by (auto simp: factored_def radices_def two_early_def radix_state_def)
  from factor_loop_run [OF this N] obtain r s' buf' where loop: "factor_loop N 4 0 buf = Some (r, s', buf')"
    and res: "r = 0 \<and> (\<exists>d. rough d \<and> d dvd N) \<or> r = 1 \<and> (\<exists>p' qs'. s' \<noteq> 0 \<and> factored N 1 p' s' buf' qs')"
    by blast
  show ?thesis
    using res
  proof
    assume "r = 0 \<and> (\<exists>d. rough d \<and> d dvd N)"
    then show ?thesis using loop by (simp add: kf_factor_def)
  next
    assume r: "r = 1 \<and> (\<exists>p' qs'. s' \<noteq> 0 \<and> factored N 1 p' s' buf' qs')"
    then obtain p' qs where qs: "length qs = s'" "length buf' = 16" "2 * s' \<le> 16" "\<forall>i < s'. buf' ! (2 * i) = qs ! i"
      "prod_list qs = N" "radices qs" and s: "s' \<noteq> 0" by (auto simp: factored_def)
    have set: "set (rev qs) \<subseteq> {2, 3, 4, 5}" using qs(6) by (simp add: radices_def)
    obtain buf1 where b1: "ofold (\<lambda>i facbuf. do {
        tmp \<leftarrow> rd facbuf (2 * int i);
        x \<leftarrow> rd facbuf (2 * (int s' - int i - 1));
        facbuf \<leftarrow> wr facbuf (2 * int i) x;
        wr facbuf (2 * (int s' - int i - 1)) tmp
      }) [0..<s' div 2] buf' = Some buf1" "length buf1 = 16" "\<forall>i < s'. buf1 ! (2 * i) = rev qs ! i"
      using swap_loop [OF qs(2,3,4,1)] by blast
    have "0 < p" if "p \<in> set (rev qs)" for p using set that by auto
    moreover have "N = prod_list (rev qs)" "N < 2 ^ 15" using qs(5) N by (simp_all add: prod_list_rev)
    ultimately obtain n' buf2 where b2: "ofold (\<lambda>i (n, facbuf). do {
        d \<leftarrow> rd facbuf (2 * int i);
        let n = n div d;
        facbuf \<leftarrow> i16_cell facbuf (2 * int i + 1) n;
        Some (n, facbuf)
      }) [0..<s'] (N, buf1) = Some (n', buf2)" "length buf2 = 16" "factor_cells (rev qs) buf2"
      using rests_loop [OF b1(2) qs(3) b1(3)] qs(1) by auto
    have "kf_factor N buf = Some (1, buf2)"
      unfolding kf_factor_def Let_def loop Option.bind.simps(2) case_prod_conv
      using r b1(1) b2(1) [unfolded Let_def] by simp
    moreover have "\<not> (\<exists>d. rough d \<and> d dvd N)"
      using rough_prod_list [of qs] qs(5,6) by (auto simp: radices_def)
    moreover have "two_last (rev qs)" using two_early_rev qs(6) by (simp add: radices_def)
    moreover have "0 < length (rev qs)" using qs(1) s by simp
    ultimately have "kf_factor N buf = Some (1, buf2) \<and> length buf2 = 16 \<and> 0 < length (rev qs) \<and>
        factor_cells (rev qs) buf2 \<and> prod_list (rev qs) = N \<and> set (rev qs) \<subseteq> {2, 3, 4, 5} \<and>
        two_last (rev qs) \<and> radices (rev (rev qs))" "\<not> (\<exists>d. rough d \<and> d dvd N)"
      using b2(2,3) set qs(5,6) by (simp_all add: prod_list_rev)
    then show ?thesis by blast
  qed
qed



lemma prod_list_cut: "prod_list ps = prod_list (take i ps) * prod_list (drop i ps)" for ps :: "nat list"
  using prod_list.append [of "take i ps" "drop i ps"] by simp

section \<open>The table of positions\<close>

text \<open>
  A table that differs from another in the cells \<open>f + d n\<close> with \<open>n\<close> in a set, where it holds \<open>F n\<close>.
\<close>

definition filled :: "nat list \<Rightarrow> nat list \<Rightarrow> nat \<Rightarrow> nat \<Rightarrow> nat set \<Rightarrow> (nat \<Rightarrow> nat) \<Rightarrow> bool" where
  "filled t0 t f d D F \<longleftrightarrow> length t = length t0 \<and> (\<forall>n\<in>D. t ! (f + d * n) = F n) \<and>
     (\<forall>i<length t0. i \<notin> (\<lambda>n. f + d * n) ` D \<longrightarrow> t ! i = t0 ! i)"

lemma filled_start [simp]: "filled t t f d {} F"
  by (simp add: filled_def)

lemma filled_write:
  assumes "filled t0 t f d D F" "f + d * n < length t0" "0 < d" "n \<notin> D"
  shows "filled t0 (t[f + d * n := F n]) f d (insert n D) F"
proof -
  have "f + d * k \<noteq> f + d * n" if "k \<in> D" for k using assms(3,4) that by auto
  then show ?thesis using assms by (auto simp: filled_def nth_list_update)
qed

lemma filled_residue:
  assumes t: "filled t0 t f d {n. n < p * m \<and> n mod p < j} F" and t': "filled t t' (f + d * j) (d * p) {..<m} F'"
    and pos: "0 < d" "j < p" and room: "\<And>n. n < p * m \<Longrightarrow> f + d * n < length t0" and F: "\<And>n. n < m \<Longrightarrow> F (j + p * n) = F' n"
  shows "filled t0 t' f d {n. n < p * m \<and> n mod p < Suc j} F"
  unfolding filled_def
proof (intro conjI ballI allI impI)
  show "length t' = length t0" using t t' by (simp add: filled_def)
  have shift: "f + d * (j + p * k) = f + d * j + d * p * k" for k by (simp add: algebra_simps)
  have new: "j + p * k < p * m" if "k < m" for k
    using mult_le_mono2 [of "k + 1" m p] that pos(2) by simp
  { fix n assume n: "n \<in> {n. n < p * m \<and> n mod p < Suc j}"
    show "t' ! (f + d * n) = F n"
    proof (cases "n mod p = j")
      case True
      then have eq: "n = j + p * (n div p)" by (metis add.commute mult_div_mod_eq)
      have less: "n div p < m" using n by (simp add: less_mult_imp_div_less mult.commute)
      then have "t' ! (f + d * j + d * p * (n div p)) = F' (n div p)" using t' by (simp add: filled_def)
      then show ?thesis using F [OF less] eq shift by metis
    next
      case False
      have "f + d * n \<notin> (\<lambda>n. f + d * j + d * p * n) ` {..<m}"
      proof
        assume "f + d * n \<in> (\<lambda>n. f + d * j + d * p * n) ` {..<m}"
        then obtain k where "f + d * n = f + d * (j + p * k)" unfolding shift by blast
        then have "n = j + p * k" using pos(1) by simp
        then show False using False pos(2) by simp
      qed
      moreover have "t ! (f + d * n) = F n" using t n False by (simp add: filled_def)
      ultimately show ?thesis
        using t t' room [of n] n by (auto simp: filled_def)
    qed }
  fix i assume i: "i < length t0" "i \<notin> (\<lambda>n. f + d * n) ` {n. n < p * m \<and> n mod p < Suc j}"
  have "i \<notin> (\<lambda>n. f + d * n) ` {n. n < p * m \<and> n mod p < j}" using i(2) by auto
  then have "t ! i = t0 ! i" using t i(1) by (auto simp: filled_def)
  moreover have "i \<notin> (\<lambda>n. f + d * j + d * p * n) ` {..<m}"
  proof
    assume "i \<in> (\<lambda>n. f + d * j + d * p * n) ` {..<m}"
    then obtain k where "k < m" "i = f + d * (j + p * k)" unfolding shift by blast
    then show False using i(2) new pos(2) by auto
  qed
  then have "t' ! i = t ! i" using t' t i(1) by (auto simp: filled_def)
  ultimately show "t' ! i = t0 ! i" by simp
qed

lemma factor_cells_Cons:
  assumes "factor_cells (p # ps) fs"
  obtains fs' where "fs = p # prod_list ps # fs'" "factor_cells ps fs'"
proof -
  have len: "2 + 2 * length ps \<le> length fs" and c: "\<And>i. i < Suc (length ps) \<Longrightarrow> fs ! (2 * i) = (p # ps) ! i \<and>
      fs ! (2 * i + 1) = prod_list (drop (Suc i) (p # ps))"
    using assms by (auto simp: factor_cells_def)
  obtain a b fs' where fs: "fs = a # b # fs'" using len by (cases fs; cases "tl fs") auto
  have "a = p" "b = prod_list ps" using c [of 0] by (auto simp: fs)
  moreover have "fs' ! (2 * i) = ps ! i \<and> fs' ! (2 * i + 1) = prod_list (drop (Suc i) ps)" if "i < length ps" for i
    using c [of "Suc i"] that by (simp add: fs)
  then have "factor_cells ps fs'" using len by (simp add: factor_cells_def fs)
  ultimately show ?thesis using that fs by blast
qed

text \<open>The table after a call: cell \<open>f + fstride n\<close> holds where the input \<open>n\<close> of the sub-transform goes.\<close>

lemma bitrev_run:
  assumes "factor_cells ps fs" "ps \<noteq> []" "set ps \<subseteq> {2, 3, 4, 5}" "0 < d" "f + d * (prod_list ps - 1) < length t"
  shows "\<exists>t'. compute_bitrev_table Fout t f d 1 fs = Some t' \<and>
    filled t t' f d {..<prod_list ps} (\<lambda>n. Fout + rev_pos ps n)"
  using assms
proof (induction ps arbitrary: fs Fout t f d)
  case (Cons p ps)
  obtain fs' where fs: "fs = p # prod_list ps # fs'" "factor_cells ps fs'" by (rule factor_cells_Cons [OF Cons.prems(1)])
  have p: "0 < p" using Cons.prems(3) by auto
  let ?m = "prod_list ps" and ?F = "\<lambda>n. Fout + rev_pos (p # ps) n"
  have m: "0 < ?m" using Cons.prems(3) by (intro prod_list_pos) auto
  have len: "f + d * n < length t" if "n < p * ?m" for n
  proof -
    have "d * n \<le> d * (p * ?m - 1)" using that by (intro mult_le_mono2) simp
    then show ?thesis using Cons.prems(5) unfolding prod_list.Cons by linarith
  qed
  show ?case
  proof (cases "?m = 1")
    case True
    have ps: "ps = []"
    proof (rule ccontr)
      assume "ps \<noteq> []"
      then have "2 \<le> ?m" using Cons.prems(3) by (intro prod_list_ge) auto
      then show False using True by simp
    qed
    let ?f = "\<lambda>j (tab, f). case wr tab (int f) (Fout + j) of None \<Rightarrow> None | Some tab \<Rightarrow> Some (tab, f + d * 1)"
    have "\<exists>st. ofold ?f [0..<p] (t, f) = Some st \<and> (\<lambda>(t', g). g = f + d * p \<and> filled t t' f d {..<p} ?F) st"
    proof (rule ofold_inv [where P = "\<lambda>j (t', g). g = f + d * j \<and> filled t t' f d {..<j} ?F"])
      fix j st assume j: "j < p" and P: "(\<lambda>(t', g). g = f + d * j \<and> filled t t' f d {..<j} ?F) st"
      obtain t' where st: "st = (t', f + d * j)" "filled t t' f d {..<j} ?F" using P by (cases st) auto
      have "f + d * j < length t" using len [of j] j True by simp
      moreover from this have "f + d * j < length t'" using st(2) by (simp add: filled_def)
      moreover have "?F j = Fout + j" using j ps by simp
      ultimately have "filled t (t'[f + d * j := Fout + j]) f d {..<Suc j} ?F"
        using filled_write [OF st(2), of j] Cons.prems(4) by (simp add: lessThan_Suc)
      then show "\<exists>s'. ?f j st = Some s' \<and> (\<lambda>(t', g). g = f + d * Suc j \<and> filled t t' f d {..<Suc j} ?F) s'"
        using \<open>f + d * j < length t'\<close> by (simp add: st(1) wr_nat del: of_nat_add of_nat_mult)
    qed simp
    then obtain t' g where "ofold ?f [0..<p] (t, f) = Some (t', g)" "filled t t' f d {..<p} ?F" by auto
    moreover have "compute_bitrev_table Fout t f d 1 fs = map_option fst (ofold ?f [0..<p] (t, f))"
      unfolding fs(1) compute_bitrev_table.simps(1) using True by (simp only: simp_thms if_True)
    ultimately show ?thesis using True by auto
  next
    case False
    let ?f = "\<lambda>j (tab, f, Fout). case compute_bitrev_table Fout tab f (d * p) 1 fs' of None \<Rightarrow> None
        | Some tab \<Rightarrow> Some (tab, f + d * 1, Fout + ?m)"
    let ?P = "\<lambda>j (t', g, F). g = f + d * j \<and> F = Fout + ?m * j \<and> filled t t' f d {n. n < p * ?m \<and> n mod p < j} ?F"
    have "\<exists>st. ofold ?f [0..<p] (t, f, Fout) = Some st \<and> ?P p st"
    proof (rule ofold_inv [where P = ?P])
      fix j st assume j: "j < p" and P: "?P j st"
      obtain t1 where st: "st = (t1, f + d * j, Fout + ?m * j)" "filled t t1 f d {n. n < p * ?m \<and> n mod p < j} ?F"
        using P by (cases st) auto
      have "j + p * (?m - 1) < p * ?m" using j m by (cases ?m) simp_all
      from len [OF this] have room: "f + d * j + d * p * (?m - 1) < length t1"
        using st(2) by (simp add: filled_def algebra_simps)
      have "ps \<noteq> []" using False by auto
      then obtain t2 where t2: "compute_bitrev_table (Fout + ?m * j) t1 (f + d * j) (d * p) 1 fs' = Some t2"
        "filled t1 t2 (f + d * j) (d * p) {..<?m} (\<lambda>n. Fout + ?m * j + rev_pos ps n)"
        using Cons.IH [OF fs(2) _ _ _ room, of "Fout + ?m * j"] Cons.prems(3,4) p by auto
      have "filled t t2 f d {n. n < p * ?m \<and> n mod p < Suc j} ?F"
        by (rule filled_residue [OF st(2) t2(2) Cons.prems(4) j len]) (use j in simp_all)
      moreover have "?f j st = Some (t2, f + d * Suc j, Fout + ?m * Suc j)"
        unfolding st(1) case_prod_conv t2(1) option.case by simp
      ultimately show "\<exists>s'. ?f j st = Some s' \<and> ?P (Suc j) s'" by (simp only: case_prod_conv simp_thms ex_simps option.inject)
    qed simp
    then obtain t' g F where r: "ofold ?f [0..<p] (t, f, Fout) = Some (t', g, F)"
      "filled t t' f d {n. n < p * ?m \<and> n mod p < p} ?F" by auto
    have "{n. n < p * ?m \<and> n mod p < p} = {..<p * ?m}" using p by auto
    moreover have "compute_bitrev_table Fout t f d 1 fs = map_option fst (ofold ?f [0..<p] (t, f, Fout))"
      unfolding fs(1) compute_bitrev_table.simps(1) using False by (simp only: simp_thms if_False)
    ultimately show ?thesis using r by simp
  qed
qed simp

lemma bitrev_table:
  assumes "factor_cells ps fs" "ps \<noteq> []" "set ps \<subseteq> {2, 3, 4, 5}" "length t = prod_list ps"
  shows "compute_bitrev_table 0 t 0 1 1 fs = Some (map (rev_pos ps) [0..<prod_list ps])"
proof -
  have "0 < prod_list ps" using assms(3) by (intro prod_list_pos) auto
  then obtain t' where t': "compute_bitrev_table 0 t 0 1 1 fs = Some t'" "filled t t' 0 1 {..<prod_list ps} (rev_pos ps)"
    using bitrev_run [OF assms(1-3), of 1 0 t 0] assms(4) by auto
  have "t' = map (rev_pos ps) [0..<prod_list ps]"
    using t'(2) assms(4) by (intro nth_equalityI) (auto simp: filled_def)
  then show ?thesis using t'(1) by simp
qed

section \<open>Allocation\<close>

text \<open>
  What \<open>rnn_fft_alloc_twiddles\<close> is given: whether each of its three allocations succeeds, the size of the
  state, and the indeterminate contents of the fresh blocks. The value is \<open>None\<close> where C is undefined: a
  store through a null pointer, a shift out of the range of \<open>int\<close>, and the \<open>fail\<close> branches before the table
  of positions is allocated, which free the pointer \<open>bitrev\<close> of a fresh block; otherwise it is the state, if
  any, and the size left in \<open>*lenmem\<close>.
\<close>

record alloc_env =
  state_ok :: bool
  twiddles_mem_ok :: bool
  bitrev_ok :: bool
  state_size :: nat
  fresh_factors :: "nat list"
  fresh_bitrev :: "nat list"

definition base_shift :: "nat \<Rightarrow> nat \<Rightarrow> nat option" where
  "base_shift n bn = do {
     sh \<leftarrow> ofold (\<lambda>_ sh.
         if n * 2 ^ sh < 2 ^ 31 then Some (if n * 2 ^ sh \<noteq> bn then sh + 1 else sh) else None) [0..<32] 0;
     if 32 \<le> sh then None else Some sh
   }"

datatype fft_block = Bitrev | Twiddles | State

definition rnn_fft_free :: "'a fft_state option \<Rightarrow> fft_block list" where
  "rnn_fft_free cfg = (case cfg of None \<Rightarrow> []
     | Some st \<Rightarrow> [Bitrev] @ (if shift st < 0 then [Twiddles] else []) @ [State])"

definition rnn_fft_alloc_twiddles ::
  "'a fops \<Rightarrow> 'a::{uminus,one,plus,times,inverse,scaleR} trig \<Rightarrow> alloc_env \<Rightarrow> nat \<Rightarrow> bool \<Rightarrow> nat option \<Rightarrow>
   'a fft_state option \<Rightarrow> ('a fft_state option \<times> nat option) option" where
  "rnn_fft_alloc_twiddles P T env n mem lenmem base = do {
     let have_st = (case lenmem of None \<Rightarrow> state_ok env | Some len \<Rightarrow> mem \<and> state_size env \<le> len);
     let lenmem' = map_option (\<lambda>_. state_size env) lenmem;
     if \<not> have_st then Some (None, lenmem')
     else do {
       (tw, sh) \<leftarrow> (case base of
           Some b \<Rightarrow> do { sh \<leftarrow> base_shift n (nfft b); Some (twiddles b, int sh) }
         | None \<Rightarrow> if twiddles_mem_ok env then Some (compute_twiddles P T n, - 1) else None);
       (ok, facs) \<leftarrow> kf_factor n (fresh_factors env);
       if ok = 0 then None
       else if \<not> bitrev_ok env then (if lenmem = None then Some (None, lenmem') else None)
       else do {
         br \<leftarrow> compute_bitrev_table 0 (fresh_bitrev env) 0 1 1 facs;
         Some (Some \<lparr>nfft = n, scale = 1 / f_of_int P (int n), shift = sh, factors = facs, bitrev = br,
           twiddles = tw\<rparr>, lenmem')
       }
     }
   }"

definition rnn_fft_alloc ::
  "'a fops \<Rightarrow> 'a::{uminus,one,plus,times,inverse,scaleR} trig \<Rightarrow> alloc_env \<Rightarrow> nat \<Rightarrow> bool \<Rightarrow> nat option \<Rightarrow>
   ('a fft_state option \<times> nat option) option" where
  "rnn_fft_alloc P T env n mem lenmem = rnn_fft_alloc_twiddles P T env n mem lenmem None"

text \<open>The operations on exact numbers.\<close>

definition real_ops :: "real fops" where
  "real_ops = \<lparr>f_of_int = of_int, f_floor = floor, f_bits = \<lambda>_. 0, f_of_bits = \<lambda>_. 0\<rparr>"

definition real_trig :: "real trig" where "real_trig = \<lparr>c_pi = pi, c_cos = cos, c_sin = sin\<rparr>"

lemma exact_twiddles: "twiddles_ok n (compute_twiddles real_ops real_trig n)"
proof -
  have "to_c (compute_twiddles real_ops real_trig n ! k) = wn n k" if "k < n" for k
    using that by (simp add: compute_twiddles_def kf_cexp_def real_ops_def real_trig_def to_c_def wn_def cis.ctr)
  then show ?thesis by (simp add: twiddles_ok_def compute_twiddles_def)
qed

text \<open>
  The sizes the exact theorems cover: a power of 4 times an odd number, or twice an odd number. The others
  have a stage of radix 2 over blocks of 4, whose constant \<open>.7071067812\<close> is a rounded one.
\<close>

definition exact_size :: "nat \<Rightarrow> bool" where
  "exact_size n \<longleftrightarrow> (\<exists>a r. n = 4 ^ a * r \<and> odd r) \<or> (\<exists>r. n = 2 * r \<and> odd r)"

lemma prod_list_345: "set qs \<subseteq> {3, 4, 5} \<Longrightarrow> \<exists>b r. prod_list qs = 4 ^ b * r \<and> odd (r::nat)"
proof (induction qs)
  case (Cons q qs)
  then obtain b r where br: "prod_list qs = 4 ^ b * r" "odd r" by auto
  show ?case
  proof (cases "q = 4")
    case True
    then have "prod_list (q # qs) = 4 ^ Suc b * r" using br by simp
    then show ?thesis using br(2) by blast
  next
    case False
    then have "odd q" using Cons.prems by auto
    then have "prod_list (q # qs) = 4 ^ b * (q * r)" "odd (q * r)" using br by simp_all
    then show ?thesis by blast
  qed
qed (auto intro: exI [of _ 0])

lemma four_powers: "odd r \<Longrightarrow> odd s \<Longrightarrow> 4 ^ a * r \<noteq> 2 * (4 ^ b * s :: nat)"
proof (induction a arbitrary: b)
  case (Suc a)
  show ?case
  proof (cases b)
    case 0
    have "4 ^ Suc a * r = 2 * (2 * 4 ^ a * r)" by simp
    then show ?thesis using Suc.prems(2) 0 by (metis dvd_triv_left even_mult_iff mult.assoc mult_1 mult_left_cancel power_0 zero_neq_numeral)
  next
    case (Suc c)
    have "4 ^ Suc a * r = 4 * (4 ^ a * r)" "2 * (4 ^ b * s) = 4 * (2 * (4 ^ c * s))" using Suc by simp_all
    then show ?thesis using Suc.IH [OF Suc.prems, of c] by presburger
  qed
qed auto

lemma exact_radices:
  assumes rad: "radices qs" and n: "exact_size (prod_list qs)" and i: "i < length qs" "qs ! i = 2"
  shows "i = 0"
proof (rule ccontr)
  assume "i \<noteq> 0"
  then have i1: "i = 1" "qs ! 0 = 4" using rad i unfolding radices_def two_early_def by auto
  then obtain tl where qs: "qs = 4 # 2 # tl" using i by (cases qs; cases "List.tl qs") auto
  have "2 \<notin> set tl" using two_early_tail rad unfolding qs radices_def by blast
  then have "set tl \<subseteq> {3, 4, 5}" using rad unfolding qs radices_def by auto
  then obtain b s where s: "prod_list tl = 4 ^ b * s" "odd s" using prod_list_345 by blast
  have prod: "prod_list qs = 2 * (4 ^ Suc b * s)" by (simp add: qs s(1))
  from n show False unfolding exact_size_def prod
  proof
    assume "\<exists>a r. 2 * (4 ^ Suc b * s) = 4 ^ a * r \<and> odd r"
    then show False using four_powers s(2) by metis
  next
    assume "\<exists>r. 2 * (4 ^ Suc b * s) = 2 * r \<and> odd r"
    then show False by auto
  qed
qed

lemma plan_table:
  assumes rad: "radices (rev ps)" "ps \<noteq> []" and fs: "factor_cells ps fs" "length fs = 16"
    and n: "prod_list ps < 4374" "exact_size (prod_list ps)"
  shows "factor_table ps fs"
proof -
  have len: "length ps < 8"
  proof (rule ccontr)
    assume "\<not> length ps < 8"
    then have "3 ^ 7 \<le> (3::nat) ^ (length ps - 1)" by (intro power_increasing) auto
    then show False using radices_lower [OF rad(1)] rad(2) n(1) by (simp add: prod_list_rev)
  qed
  have "ps ! i \<in> {3, 4, 5} \<or> ps ! i = 2 \<and> Suc i = length ps" if i: "i < length ps" for i
  proof -
    have "set ps \<subseteq> {2, 3, 4, 5}" using rad(1) by (simp add: radices_def)
    then have "ps ! i \<in> {2, 3, 4, 5}" using nth_mem [OF i] by blast
    moreover have "Suc i = length ps" if "ps ! i = 2"
    proof -
      have j: "length ps - Suc i < length (rev ps)" using i by simp
      then have "rev ps ! (length ps - Suc i) = 2" using i that by (subst rev_nth) simp_all
      then have "length ps - Suc i = 0" using exact_radices [OF rad(1) _ j] n(2) by (simp add: prod_list_rev)
      then show ?thesis using i by simp
    qed
    ultimately show ?thesis by auto
  qed
  then show ?thesis using len fs rad(2) by (simp add: factor_table_def factor_cells_def MAXFACTORS_def)
qed


lemma alloc_run:
  assumes n: "1 < n" "n < 4374" "exact_size n" "\<not> (\<exists>d. rough d \<and> d dvd n)"
    and env: "state_ok env" "twiddles_mem_ok env" "bitrev_ok env" "length (fresh_factors env) = 16"
      "length (fresh_bitrev env) = n"
  shows "\<exists>st ps. rnn_fft_alloc real_ops real_trig env n False None = Some (Some st, None) \<and>
    fft_state_ok ps st \<and> nfft st = n \<and> scale st = 1 / n"
proof -
  obtain facs ps where f: "kf_factor n (fresh_factors env) = Some (1, facs)" "length facs = 16" "0 < length ps"
    "factor_cells ps facs" "prod_list ps = n" "set ps \<subseteq> {2, 3, 4, 5}" "radices (rev ps)"
    using kf_factor_run [OF n(1) _ env(4)] n(2,4) by auto
  have br: "compute_bitrev_table 0 (fresh_bitrev env) 0 1 1 facs = Some (map (rev_pos ps) [0..<n])"
    using bitrev_table [OF f(4) _ f(6)] f(3,5) env(5) by simp
  let ?st = "\<lparr>nfft = n, scale = 1 / of_int (int n), shift = - 1, factors = facs,
      bitrev = map (rev_pos ps) [0..<n], twiddles = compute_twiddles real_ops real_trig n\<rparr>"
  have "rnn_fft_alloc real_ops real_trig env n False None = Some (Some ?st, None)"
    using env f(1) br by (simp add: rnn_fft_alloc_def rnn_fft_alloc_twiddles_def real_ops_def)
  moreover have "factor_table ps facs" using plan_table [OF f(7) _ f(4,2)] f(3,5) n(2,3) by simp
  then have "fft_state_ok ps ?st" using f(5) exact_twiddles by (simp add: fft_state_ok_def)
  ultimately show ?thesis by (intro exI conjI) (assumption | simp)+
qed


lemma not_rough: "set qs \<subseteq> {2, 3, 4, 5} \<Longrightarrow> prod_list qs = n \<Longrightarrow> \<not> (\<exists>d. rough d \<and> d dvd n)"
  using rough_prod_list by blast





text \<open>A plan of three values.\<close>

definition plan3 :: "real fft_state" where
  "plan3 = \<lparr>nfft = 3, scale = 1 / 3, shift = - 1, factors = [3, 1], bitrev = [0, 1, 2],
     twiddles = compute_twiddles real_ops real_trig 3\<rparr>"

lemma plan3_ok: "fft_state_ok [3] plan3" "nfft plan3 = 3" "scale plan3 = 1 / 3"
proof -
  have "factor_table [3] [3, 1]" by (simp add: factor_table_def MAXFACTORS_def)
  moreover have "[0, 1, 2] ! i = rev_pos [3] i" if "i < 3" for i :: nat
  proof -
    consider "i = 0" | "i = 1" | "i = 2" using \<open>i < 3\<close> by linarith
    then show ?thesis by cases simp_all
  qed
  ultimately show "fft_state_ok [3] plan3"
    using exact_twiddles [of 3] by (simp add: fft_state_ok_def plan3_def)
qed (simp_all add: plan3_def)

theorem rnn_fft_is_dft_witness:
  "\<exists>out. rnn_fft_c plan3 [\<lparr>cr = 1, ci = 0\<rparr>, \<lparr>cr = 2, ci = 0\<rparr>, \<lparr>cr = 6, ci = 3\<rparr>] (replicate 3 \<lparr>cr = 0, ci = 0\<rparr>) = Some out \<and>
     to_c (out ! 0) = Complex 3 1"
proof -
  obtain out where "rnn_fft_c plan3 [\<lparr>cr = 1, ci = 0\<rparr>, \<lparr>cr = 2, ci = 0\<rparr>, \<lparr>cr = 6, ci = 3\<rparr>] (replicate 3 \<lparr>cr = 0, ci = 0\<rparr>) = Some out"
    "to_c (out ! 0) = complex_of_real (1 / 3) * (\<Sum>n<3. to_c ([\<lparr>cr = 1, ci = 0\<rparr>, \<lparr>cr = 2, ci = 0\<rparr>, \<lparr>cr = 6, ci = 3\<rparr>] ! n))"
    using rnn_fft_is_dft [OF plan3_ok(1), of "[\<lparr>cr = 1, ci = 0\<rparr>, \<lparr>cr = 2, ci = 0\<rparr>, \<lparr>cr = 6, ci = 3\<rparr>]" "replicate 3 \<lparr>cr = 0, ci = 0\<rparr>"]
    by (auto simp: plan3_ok)
  moreover have "(\<Sum>n<3. to_c ([\<lparr>cr = 1, ci = 0\<rparr>, \<lparr>cr = 2, ci = 0\<rparr>, \<lparr>cr = 6, ci = 3\<rparr>] ! n)) = Complex 9 3"
    by (simp add: eval_nat_numeral complex_eq_iff)
  ultimately show ?thesis by (simp add: complex_eq_iff)
qed

theorem rnn_fft_roundtrip_witness:
  "\<exists>spec out. rnn_fft_c plan3 (replicate 3 \<lparr>cr = 5, ci = 7\<rparr>) (replicate 3 \<lparr>cr = 0, ci = 0\<rparr>) = Some spec \<and>
     rnn_ifft_c plan3 spec (replicate 3 \<lparr>cr = 0, ci = 0\<rparr>) = Some out \<and> to_c (out ! 2) = Complex 5 7"
proof -
  obtain spec out where "rnn_fft_c plan3 (replicate 3 \<lparr>cr = 5, ci = 7\<rparr>) (replicate 3 \<lparr>cr = 0, ci = 0\<rparr>) = Some spec"
    "rnn_ifft_c plan3 spec (replicate 3 \<lparr>cr = 0, ci = 0\<rparr>) = Some out"
    "\<forall>n<3. to_c (out ! n) = complex_of_real (scale plan3 * nfft plan3) * to_c (replicate 3 \<lparr>cr = 5, ci = 7\<rparr> ! n)"
    using rnn_fft_roundtrip [OF plan3_ok(1), of "replicate 3 \<lparr>cr = 5, ci = 7\<rparr>" "replicate 3 \<lparr>cr = 0, ci = 0\<rparr>" "replicate 3 \<lparr>cr = 0, ci = 0\<rparr>"]
    unfolding plan3_ok(2) by auto
  then show ?thesis by (auto simp: plan3_ok to_c_def)
qed

end
