(* ===== verification/Rnn_Fft_Safe.thy ===== *)
theory Rnn_Fft_Safe
  imports Rnn_Fft
begin

text \<open>
  Memory safety of the transform over any type of numbers: with tables of the right sizes, whatever
  the values in them, every access is in bounds and the transform returns. This covers the static
  tables of \<open>rnnoise_tables.c\<close>, whose twiddle factors are rounded.
\<close>

section \<open>Butterflies\<close>

lemma butterfly_total:
  assumes point: "\<And>xs. length xs = p \<Longrightarrow> \<exists>ys. point xs = Some ys \<and> length ys = p"
    and m: "0 < m" and room: "\<And>j. j < p \<Longrightarrow> base + j * m < length A"
  shows "\<exists>A'. butterfly p m point base A = Some A' \<and> length A' = length A"
proof -
  have c: "cells p m base A = Some (map (\<lambda>j. A ! (base + j * m)) [0..<p])" by (rule cells_Some) (use room in simp)
  obtain ys where ys: "point (map (\<lambda>j. A ! (base + j * m)) [0..<p]) = Some ys" "length ys = p"
    using point [of "map (\<lambda>j. A ! (base + j * m)) [0..<p]"] by auto
  obtain A' where "put_cells m base ys A = Some A'" "length A' = length A"
    using put_cells_nth [OF m, of ys base A] room ys(2) by auto
  then show ?thesis by (simp add: butterfly_def c ys(1))
qed

lemma stage_loop_total:
  assumes point: "\<And>u xs. u < m \<Longrightarrow> length xs = p \<Longrightarrow> \<exists>ys. point u xs = Some ys \<and> length ys = p"
    and m: "0 < m" and mm: "mm = p * m \<or> F = Suc 0" and A: "length A = F * (p * m)"
  shows "\<exists>A'. ofold (\<lambda>i G. ofold (\<lambda>u. butterfly p m (point u) (i * mm + u)) [0..<m] G) [0..<F] A = Some A' \<and>
    length A' = length A"
proof (rule ofold_inv [where P = "\<lambda>_ A'. length A' = length A"])
  fix i and G :: "'a list" assume i: "i < F" and G: "length G = length A"
  show "\<exists>G'. ofold (\<lambda>u. butterfly p m (point u) (i * mm + u)) [0..<m] G = Some G' \<and> length G' = length A"
  proof (rule ofold_inv [where P = "\<lambda>_ A'. length A' = length A"])
    fix u and H :: "'a list" assume u: "u < m" and H: "length H = length A"
    have "i * mm + u + j * m < length H" if "j < p" for j
    proof -
      have eq: "i * mm = i * (p * m)" by (rule block_stride [OF mm i])
      have "j * m + u < p * m" using u that mult_le_mono1 [of "j + 1" p m] by simp
      moreover have "Suc i * (p * m) \<le> F * (p * m)" using i by (intro mult_le_mono1) simp
      ultimately show ?thesis unfolding eq using A H by simp
    qed
    from butterfly_total [where point = "point u" and base = "i * mm + u", OF point [OF u] m this]
    show "\<exists>H'. butterfly p m (point u) (i * mm + u) H = Some H' \<and> length H' = length A" using H by simp
  qed (rule G)
qed simp

lemma branch_index: "j < p \<Longrightarrow> u < m \<Longrightarrow> 0 < F \<Longrightarrow> j * u * F < F * (p * (m::nat))"
proof -
  assume j: "j < p" and u: "u < m" and F: "0 < F"
  have "j * u \<le> j * m" using u by simp
  also have "j * m < p * m" using j u by simp
  finally show ?thesis using F by (simp add: mult.commute)
qed

lemma point_total:
  assumes tw: "length tw = F * (p * m)" and u: "u < m" and F: "0 < F" and xs: "length xs = p"
  shows "p = 4 \<Longrightarrow> \<exists>ys. point4_twiddled tw F u xs = Some ys \<and> length ys = p"
    "p = 3 \<Longrightarrow> \<exists>ys. point3 tw F e u xs = Some ys \<and> length ys = p"
    "p = 5 \<Longrightarrow> \<exists>ys. point5 tw F ya yb u xs = Some ys \<and> length ys = p"
proof -
  have rd: "\<exists>t. rd tw (int (j * u * F)) = Some t" if "j < p" for j
    using branch_index [OF that u F] tw by (intro rd_ex) (simp_all only: of_nat_0_le_iff of_nat_less_iff)
  show "\<exists>ys. point4_twiddled tw F u xs = Some ys \<and> length ys = p" if p: "p = 4"
  proof -
    obtain a b c d where "xs = [a, b, c, d]" using xs p by (auto simp: length_Suc_conv eval_nat_numeral)
    moreover obtain t1 t2 t3 where "rd tw (int (u * F)) = Some t1" "rd tw (int (u * (F * 2))) = Some t2"
      "rd tw (int (u * (F * 3))) = Some t3"
      using rd [of 1] rd [of 2] rd [of 3] p by (auto simp: algebra_simps)
    ultimately show ?thesis using p by (simp add: point4_def Let_def del: of_nat_mult)
  qed
  show "\<exists>ys. point3 tw F e u xs = Some ys \<and> length ys = p" if p: "p = 3"
  proof -
    obtain a b c where "xs = [a, b, c]" using xs p by (auto simp: length_Suc_conv eval_nat_numeral)
    moreover obtain t1 t2 where "rd tw (int (u * F)) = Some t1" "rd tw (int (u * (F * 2))) = Some t2"
      using rd [of 1] rd [of 2] p by (auto simp: algebra_simps)
    ultimately show ?thesis using p by (simp add: Let_def del: of_nat_mult)
  qed
  show "\<exists>ys. point5 tw F ya yb u xs = Some ys \<and> length ys = p" if p: "p = 5"
  proof -
    obtain a b c d e where "xs = [a, b, c, d, e]" using xs p by (auto simp: length_Suc_conv eval_nat_numeral)
    moreover obtain t1 t2 t3 t4 where "rd tw (int (u * F)) = Some t1" "rd tw (int (2 * u * F)) = Some t2"
      "rd tw (int (3 * u * F)) = Some t3" "rd tw (int (4 * u * F)) = Some t4"
      using rd [of 1] rd [of 2] rd [of 3] rd [of 4] p by (auto simp del: of_nat_mult)
    ultimately show ?thesis using p by (simp add: Let_def del: of_nat_mult)
  qed
qed

lemma stage_kernel_total:
  assumes tw: "length tw = F * (p * m)" and pos: "0 < F" "0 < m" and mm: "mm = p * m \<or> F = Suc 0"
    and A: "length A = F * (p * m)" and p: "p \<in> {3, 4, 5} \<or> p = 2 \<and> m = 1"
  shows "\<exists>A'. stage_kernel p A tw m F mm = Some A' \<and> length A' = length A"
proof -
  note loop = stage_loop_total [OF _ pos(2) mm A]
  have root: "\<exists>t. rd tw (int (F * k * m)) = Some t" if "k < p" for k
  proof -
    have "k * m < p * m" using that pos(2) by simp
    then have "F * (k * m) < F * (p * m)" using pos(1) by (intro mult_strict_left_mono)
    then show ?thesis using tw by (intro rd_ex) (simp_all only: of_nat_0_le_iff of_nat_less_iff mult.assoc)
  qed
  have single: "ofold (\<lambda>i. butterfly p 1 point (p * i)) [0..<F] A = 
      ofold (\<lambda>i G. ofold (\<lambda>u. butterfly p m point (i * (p * m) + u)) [0..<m] G) [0..<F] A"
    if "m = 1" for point
    unfolding that ofold_one by (simp add: mult.commute)
  note loop1 = stage_loop_total [OF _ pos(2) disjI1 [OF refl] A]
  consider (two) "p = 2" "m = 1" | (three) "p = 3" | (four) "p = 4" "m = 1" | (four') "p = 4" "m \<noteq> 1" | (five) "p = 5"
    using p by auto
  then show ?thesis
  proof cases
    case two
    have "\<exists>ys. point2 (xs ! 1) xs = Some ys \<and> length ys = p" if l: "length xs = p" for xs :: "'a cpx list"
    proof -
      obtain a b where "xs = [a, b]" using l two(1) by (auto simp: length_Suc_conv eval_nat_numeral)
      then show ?thesis using two(1) by simp
    qed
    from loop1 [where point = "\<lambda>u xs. point2 (xs ! 1) xs", OF this]
    show ?thesis unfolding single [OF two(2), symmetric] using two by (simp add: stage_kernel_def kf_bfly2_def)
  next
    case three
    obtain e where e: "rd tw (int (F * m)) = Some e" using root [of 1] three by auto
    show ?thesis using loop [where point = "point3 tw F e"] point_total(2) [OF tw _ pos(1)] three
      by (simp add: stage_kernel_def kf_bfly3_def e del: of_nat_mult)
  next
    case four
    have "\<exists>ys. point4_plain xs = Some ys \<and> length ys = p" if l: "length xs = p" for xs :: "'a cpx list"
    proof -
      obtain a b c d where "xs = [a, b, c, d]" using l four(1) by (auto simp: length_Suc_conv eval_nat_numeral)
      then show ?thesis using four(1) by (simp add: point4_def Let_def)
    qed
    from loop1 [where point = "\<lambda>u. point4_plain", OF this]
    show ?thesis unfolding single [OF four(2), symmetric] using four by (simp add: stage_kernel_def kf_bfly4_def)
  next
    case four'
    show ?thesis using loop [where point = "point4_twiddled tw F"] point_total(1) [OF tw _ pos(1)] four'
      by (simp add: stage_kernel_def kf_bfly4_def del: of_nat_mult)
  next
    case five
    obtain ya yb where y: "rd tw (int (F * m)) = Some ya" "rd tw (int (F * 2 * m)) = Some yb"
      using root [of 1] root [of 2] five by auto
    show ?thesis using loop [where point = "point5 tw F ya yb"] point_total(3) [OF tw _ pos(1)] five
      by (simp add: stage_kernel_def kf_bfly5_def y del: of_nat_mult)
  qed
qed

section \<open>The transform\<close>

definition fft_shape_ok :: "nat list \<Rightarrow> 'a fft_state \<Rightarrow> bool" where
  "fft_shape_ok ps st \<longleftrightarrow> factor_table ps (factors st) \<and> nfft st = prod_list ps \<and> shift st \<le> 0 \<and>
     length (bitrev st) = nfft st \<and> (\<forall>b\<in>set (bitrev st). b < nfft st) \<and> length (twiddles st) = nfft st"

lemma fft_state_shape: "fft_state_ok ps st \<Longrightarrow> fft_shape_ok ps st"
  using factor_table_pos(3) rev_pos_less
  by (fastforce simp: fft_state_ok_def fft_shape_ok_def twiddles_ok_def in_set_conv_nth)

lemma rnn_fft_impl_total:
  assumes st: "fft_shape_ok ps st" and A: "length A = nfft st"
  shows "\<exists>A'. rnn_fft_impl st A = Some A' \<and> length A' = nfft st"
proof -
  let ?fs = "map (\<lambda>i. prod_list (take i ps)) [0..<Suc (length ps)]"
  have tab: "factor_table ps (factors st)" and sh: "shift st \<le> 0" and N: "nfft st = prod_list ps"
    and tw: "length (twiddles st) = prod_list ps" using st by (auto simp: fft_shape_ok_def)
  have ne: "0 < length ps" using tab by (simp add: factor_table_def)
  have fs: "fstrides (factors st) [1] = Some ?fs" using fstrides_run [OF tab ne] by simp
  have stages: "\<exists>A' m. ofold (fft_stage st ?fs) (rev [0..<i]) (A, m0) = Some (A', m) \<and> length A' = prod_list ps"
    if "i \<le> length ps" "length A = prod_list ps" "i \<noteq> 0 \<Longrightarrow> m0 = prod_list (drop i ps)" for i A m0
    using that
  proof (induction i arbitrary: A m0)
    case (Suc i)
    have i: "i < length ps" using Suc.prems(1) by simp
    have m0: "m0 = prod_list (drop (Suc i) ps)" using Suc.prems(3) by simp
    note pp = plan_products [OF i]
    have radix: "ps ! i \<in> {3, 4, 5} \<or> ps ! i = 2 \<and> prod_list (drop (Suc i) ps) = 1"
      using tab i by (auto simp: factor_table_def)
    obtain A1 where A1: "stage_kernel (ps ! i) A (twiddles st) m0 (prod_list (take i ps))
        (if i = 0 then 1 else prod_list (drop i ps)) = Some A1" "length A1 = length A"
      using stage_kernel_total [OF _ factor_table_pos(1) [OF tab, of i] factor_table_pos(2) [OF tab, of "Suc i"] pp(4) _ radix, of "twiddles st" A]
        tw Suc.prems(2) unfolding m0 pp(3) by auto
    have step: "fft_stage st ?fs i (A, m0) = Some (A1, if i = 0 then 1 else prod_list (drop i ps))"
      unfolding fft_stage_kernel [OF tab sh i] A1(1) by simp
    obtain A' m where "ofold (fft_stage st ?fs) (rev [0..<i]) (A1, if i = 0 then 1 else prod_list (drop i ps)) = Some (A', m)"
      "length A' = prod_list ps"
      using Suc.IH [of A1 "if i = 0 then 1 else prod_list (drop i ps)"] A1(2) i Suc.prems(2) by auto
    then show ?case using step by (simp del: upt_Suc add: upt_Suc_append)
  qed simp
  have m: "rd (factors st) (2 * int (length ps) - 1) = Some 1"
  proof -
    obtain j where j: "length ps = Suc j" using ne by (cases "length ps") auto
    then have "2 * int (length ps) - 1 = int (2 * j + 1)" by simp
    moreover have "2 * j + 1 < length (factors st)" "factors st ! (2 * j + 1) = 1"
      using tab j by (auto simp: factor_table_def)
    ultimately show ?thesis using rd_nat [of "2 * j + 1" "factors st"] by (simp only:)
  qed
  have L: "length ?fs - 1 = length ps" by simp
  obtain A' mm where "ofold (fft_stage st ?fs) (rev [0..<length ps]) (A, 1) = Some (A', mm)" "length A' = prod_list ps"
    using stages [of "length ps" A 1] A N by auto
  then show ?thesis
    unfolding rnn_fft_impl_def fs Option.bind.simps(2) Let_def L m N by (simp del: upt_Suc)
qed

lemma rnn_fft_total:
  assumes st: "fft_shape_ok ps st" and len: "nfft st \<le> length fin" "length fout = nfft st"
  shows "\<exists>out. rnn_fft_c st fin fout = Some out \<and> length out = nfft st"
proof -
  have br: "length (bitrev st) = nfft st" "\<And>i. i < nfft st \<Longrightarrow> bitrev st ! i < nfft st"
    using st by (auto simp: fft_shape_ok_def)
  let ?f = "\<lambda>i F. do { x \<leftarrow> rd fin (int i); b \<leftarrow> rd (bitrev st) (int i);
      wr F (int b) \<lparr>cr = scale st * cr x, ci = scale st * ci x\<rparr> }"
  have "\<exists>F. ofold ?f [0..<nfft st] fout = Some F \<and> length F = nfft st"
  proof (rule ofold_inv [where P = "\<lambda>_ F. length F = nfft st"])
    fix i and F :: "'a cpx list" assume "i < nfft st" "length F = nfft st"
    then show "\<exists>F'. ?f i F = Some F' \<and> length F' = nfft st" using br len(1) by (simp add: rd_nat wr_nat)
  qed (rule len(2))
  then obtain F where F: "ofold ?f [0..<nfft st] fout = Some F" "length F = nfft st" by blast
  then show ?thesis using rnn_fft_impl_total [OF st F(2)] by (simp add: rnn_fft_c_def)
qed

end
