(* ===== verification/Rnn_Tables.thy ===== *)
theory Rnn_Tables
  imports Rnn_Fft_Safe
begin

text \<open>
  The static tables of \<open>rnnoise_tables.c\<close>: the plan of the transform of 960 values and the window,
  as written there. A decimal is \<open>lit\<close> of its exact value.
\<close>

section \<open>The plan\<close>

definition fft_bitrev :: "nat list" where
  "fft_bitrev =
    [0, 192, 384, 576, 768, 64, 256, 448, 640, 832, 128, 320, 512, 704, 896, 16, 208, 400, 592,
     784, 80, 272, 464, 656, 848, 144, 336, 528, 720, 912, 32, 224, 416, 608, 800, 96, 288, 480,
     672, 864, 160, 352, 544, 736, 928, 48, 240, 432, 624, 816, 112, 304, 496, 688, 880, 176, 368,
     560, 752, 944, 4, 196, 388, 580, 772, 68, 260, 452, 644, 836, 132, 324, 516, 708, 900, 20,
     212, 404, 596, 788, 84, 276, 468, 660, 852, 148, 340, 532, 724, 916, 36, 228, 420, 612, 804,
     100, 292, 484, 676, 868, 164, 356, 548, 740, 932, 52, 244, 436, 628, 820, 116, 308, 500, 692,
     884, 180, 372, 564, 756, 948, 8, 200, 392, 584, 776, 72, 264, 456, 648, 840, 136, 328, 520,
     712, 904, 24, 216, 408, 600, 792, 88, 280, 472, 664, 856, 152, 344, 536, 728, 920, 40, 232,
     424, 616, 808, 104, 296, 488, 680, 872, 168, 360, 552, 744, 936, 56, 248, 440, 632, 824, 120,
     312, 504, 696, 888, 184, 376, 568, 760, 952, 12, 204, 396, 588, 780, 76, 268, 460, 652, 844,
     140, 332, 524, 716, 908, 28, 220, 412, 604, 796, 92, 284, 476, 668, 860, 156, 348, 540, 732,
     924, 44, 236, 428, 620, 812, 108, 300, 492, 684, 876, 172, 364, 556, 748, 940, 60, 252, 444,
     636, 828, 124, 316, 508, 700, 892, 188, 380, 572, 764, 956, 1, 193, 385, 577, 769, 65, 257,
     449, 641, 833, 129, 321, 513, 705, 897, 17, 209, 401, 593, 785, 81, 273, 465, 657, 849, 145,
     337, 529, 721, 913, 33, 225, 417, 609, 801, 97, 289, 481, 673, 865, 161, 353, 545, 737, 929,
     49, 241, 433, 625, 817, 113, 305, 497, 689, 881, 177, 369, 561, 753, 945, 5, 197, 389, 581,
     773, 69, 261, 453, 645, 837, 133, 325, 517, 709, 901, 21, 213, 405, 597, 789, 85, 277, 469,
     661, 853, 149, 341, 533, 725, 917, 37, 229, 421, 613, 805, 101, 293, 485, 677, 869, 165, 357,
     549, 741, 933, 53, 245, 437, 629, 821, 117, 309, 501, 693, 885, 181, 373, 565, 757, 949, 9,
     201, 393, 585, 777, 73, 265, 457, 649, 841, 137, 329, 521, 713, 905, 25, 217, 409, 601, 793,
     89, 281, 473, 665, 857, 153, 345, 537, 729, 921, 41, 233, 425, 617, 809, 105, 297, 489, 681,
     873, 169, 361, 553, 745, 937, 57, 249, 441, 633, 825, 121, 313, 505, 697, 889, 185, 377, 569,
     761, 953, 13, 205, 397, 589, 781, 77, 269, 461, 653, 845, 141, 333, 525, 717, 909, 29, 221,
     413, 605, 797, 93, 285, 477, 669, 861, 157, 349, 541, 733, 925, 45, 237, 429, 621, 813, 109,
     301, 493, 685, 877, 173, 365, 557, 749, 941, 61, 253, 445, 637, 829, 125, 317, 509, 701, 893,
     189, 381, 573, 765, 957, 2, 194, 386, 578, 770, 66, 258, 450, 642, 834, 130, 322, 514, 706,
     898, 18, 210, 402, 594, 786, 82, 274, 466, 658, 850, 146, 338, 530, 722, 914, 34, 226, 418,
     610, 802, 98, 290, 482, 674, 866, 162, 354, 546, 738, 930, 50, 242, 434, 626, 818, 114, 306,
     498, 690, 882, 178, 370, 562, 754, 946, 6, 198, 390, 582, 774, 70, 262, 454, 646, 838, 134,
     326, 518, 710, 902, 22, 214, 406, 598, 790, 86, 278, 470, 662, 854, 150, 342, 534, 726, 918,
     38, 230, 422, 614, 806, 102, 294, 486, 678, 870, 166, 358, 550, 742, 934, 54, 246, 438, 630,
     822, 118, 310, 502, 694, 886, 182, 374, 566, 758, 950, 10, 202, 394, 586, 778, 74, 266, 458,
     650, 842, 138, 330, 522, 714, 906, 26, 218, 410, 602, 794, 90, 282, 474, 666, 858, 154, 346,
     538, 730, 922, 42, 234, 426, 618, 810, 106, 298, 490, 682, 874, 170, 362, 554, 746, 938, 58,
     250, 442, 634, 826, 122, 314, 506, 698, 890, 186, 378, 570, 762, 954, 14, 206, 398, 590, 782,
     78, 270, 462, 654, 846, 142, 334, 526, 718, 910, 30, 222, 414, 606, 798, 94, 286, 478, 670,
     862, 158, 350, 542, 734, 926, 46, 238, 430, 622, 814, 110, 302, 494, 686, 878, 174, 366, 558,
     750, 942, 62, 254, 446, 638, 830, 126, 318, 510, 702, 894, 190, 382, 574, 766, 958, 3, 195,
     387, 579, 771, 67, 259, 451, 643, 835, 131, 323, 515, 707, 899, 19, 211, 403, 595, 787, 83,
     275, 467, 659, 851, 147, 339, 531, 723, 915, 35, 227, 419, 611, 803, 99, 291, 483, 675, 867,
     163, 355, 547, 739, 931, 51, 243, 435, 627, 819, 115, 307, 499, 691, 883, 179, 371, 563, 755,
     947, 7, 199, 391, 583, 775, 71, 263, 455, 647, 839, 135, 327, 519, 711, 903, 23, 215, 407,
     599, 791, 87, 279, 471, 663, 855, 151, 343, 535, 727, 919, 39, 231, 423, 615, 807, 103, 295,
     487, 679, 871, 167, 359, 551, 743, 935, 55, 247, 439, 631, 823, 119, 311, 503, 695, 887, 183,
     375, 567, 759, 951, 11, 203, 395, 587, 779, 75, 267, 459, 651, 843, 139, 331, 523, 715, 907,
     27, 219, 411, 603, 795, 91, 283, 475, 667, 859, 155, 347, 539, 731, 923, 43, 235, 427, 619,
     811, 107, 299, 491, 683, 875, 171, 363, 555, 747, 939, 59, 251, 443, 635, 827, 123, 315, 507,
     699, 891, 187, 379, 571, 763, 955, 15, 207, 399, 591, 783, 79, 271, 463, 655, 847, 143, 335,
     527, 719, 911, 31, 223, 415, 607, 799, 95, 287, 479, 671, 863, 159, 351, 543, 735, 927, 47,
     239, 431, 623, 815, 111, 303, 495, 687, 879, 175, 367, 559, 751, 943, 63, 255, 447, 639, 831,
     127, 319, 511, 703, 895, 191, 383, 575, 767, 959]"

text \<open>
  The 960 twiddle factors (\<open>fft_twiddles\<close>) and the 1024 cosines (\<open>rnn_dct_table\<close>) are arguments: generated
  data of which the code only relies on the number of cells.
\<close>

definition rnn_kfft :: "'a cpx list \<Rightarrow> 'a::{scaleR,one} fft_state" where
  "rnn_kfft fft_twiddles = \<lparr>nfft = 960, scale = lit 0.0010416667, shift = - 1,
     factors = [5, 192, 3, 64, 4, 16, 4, 4, 4, 1, 0, 0, 0, 0, 0, 0],
     bitrev = fft_bitrev, twiddles = fft_twiddles\<rparr>"

section \<open>The window\<close>

text \<open>The values of the window.\<close>

definition half_window_values :: "real list" where
  "half_window_values =
    [0.00000420549168, 0.0000378491532, 0.000105135041, 0.000206060256, 0.000340620492,
     0.000508809986, 0.000710621476, 0.000946046319, 0.00121507444, 0.00151769421, 0.00185389258,
     0.00222365512, 0.00262696599, 0.00306380726, 0.00353416055, 0.00403800514, 0.00457531959,
     0.00514607970, 0.00575026125, 0.00638783723, 0.00705878017, 0.00776306028, 0.00850064680,
     0.00927150715, 0.0100756064, 0.0109129101, 0.0117833801, 0.0126869772, 0.0136236614,
     0.0145933898, 0.0155961197, 0.0166318044, 0.0177003983, 0.0188018531, 0.0199361145,
     0.0211031344, 0.0223028567, 0.0235352255, 0.0248001851, 0.0260976739, 0.0274276342,
     0.0287899990, 0.0301847085, 0.0316116922, 0.0330708846, 0.0345622115, 0.0360856056,
     0.0376409888, 0.0392282903, 0.0408474281, 0.0424983241, 0.0441808924, 0.0458950549,
     0.0476407260, 0.0494178124, 0.0512262285, 0.0530658774, 0.0549366735, 0.0568385124,
     0.0587713011, 0.0607349351, 0.0627293140, 0.0647543296, 0.0668098852, 0.0688958541,
     0.0710121393, 0.0731586292, 0.0753351897, 0.0775417164, 0.0797780901, 0.0820441842,
     0.0843398646, 0.0866650119, 0.0890194997, 0.0914031938, 0.0938159525, 0.0962576419,
     0.0987281203, 0.101227246, 0.103754878, 0.106310867, 0.108895063, 0.111507311, 0.114147455,
     0.116815343, 0.119510807, 0.122233689, 0.124983832, 0.127761051, 0.130565181, 0.133396059,
     0.136253506, 0.139137328, 0.142047361, 0.144983411, 0.147945285, 0.150932819, 0.153945804,
     0.156984031, 0.160047337, 0.163135484, 0.166248307, 0.169385567, 0.172547072, 0.175732598,
     0.178941950, 0.182174906, 0.185431242, 0.188710734, 0.192013159, 0.195338294, 0.198685899,
     0.202055752, 0.205447599, 0.208861232, 0.212296382, 0.215752810, 0.219230279, 0.222728521,
     0.226247311, 0.229786381, 0.233345464, 0.236924306, 0.240522653, 0.244140238, 0.247776777,
     0.251432031, 0.255105674, 0.258797467, 0.262507141, 0.266234398, 0.269978970, 0.273740560,
     0.277518868, 0.281313598, 0.285124481, 0.288951218, 0.292793512, 0.296651065, 0.300523549,
     0.304410696, 0.308312178, 0.312227666, 0.316156894, 0.320099503, 0.324055225, 0.328023702,
     0.332004637, 0.335997701, 0.340002567, 0.344018906, 0.348046392, 0.352084726, 0.356133521,
     0.360192508, 0.364261299, 0.368339598, 0.372427016, 0.376523286, 0.380627990, 0.384740859,
     0.388861477, 0.392989576, 0.397124738, 0.401266664, 0.405414969, 0.409569323, 0.413729399,
     0.417894781, 0.422065198, 0.426240236, 0.430419534, 0.434602767, 0.438789606, 0.442979604,
     0.447172493, 0.451367885, 0.455565393, 0.459764689, 0.463965416, 0.468167186, 0.472369671,
     0.476572484, 0.480775267, 0.484977663, 0.489179343, 0.493379891, 0.497579008, 0.501776278,
     0.505971372, 0.510163903, 0.514353573, 0.518539906, 0.522722721, 0.526901484, 0.531075954,
     0.535245717, 0.539410412, 0.543569744, 0.547723293, 0.551870763, 0.556011736, 0.560145974,
     0.564273000, 0.568392515, 0.572504222, 0.576607704, 0.580702662, 0.584788740, 0.588865638,
     0.592932940, 0.596990347, 0.601037502, 0.605074167, 0.609099925, 0.613114417, 0.617117405,
     0.621108532, 0.625087440, 0.629053831, 0.633007407, 0.636947870, 0.640874863, 0.644788086,
     0.648687243, 0.652572036, 0.656442165, 0.660297334, 0.664137185, 0.667961538, 0.671769977,
     0.675562322, 0.679338276, 0.683097482, 0.686839759, 0.690564752, 0.694272280, 0.697961986,
     0.701633692, 0.705287039, 0.708921850, 0.712537885, 0.716134787, 0.719712436, 0.723270535,
     0.726808906, 0.730327189, 0.733825266, 0.737302899, 0.740759790, 0.744195819, 0.747610688,
     0.751004279, 0.754376352, 0.757726669, 0.761055112, 0.764361382, 0.767645359, 0.770906866,
     0.774145722, 0.777361751, 0.780554771, 0.783724606, 0.786871076, 0.789994121, 0.793093503,
     0.796169102, 0.799220800, 0.802248418, 0.805251837, 0.808230937, 0.811185598, 0.814115703,
     0.817021132, 0.819901764, 0.822757542, 0.825588286, 0.828393936, 0.831174433, 0.833929658,
     0.836659551, 0.839363992, 0.842042983, 0.844696403, 0.847324252, 0.849926353, 0.852502763,
     0.855053425, 0.857578218, 0.860077202, 0.862550259, 0.864997447, 0.867418647, 0.869813919,
     0.872183204, 0.874526560, 0.876843870, 0.879135191, 0.881400526, 0.883639932, 0.885853291,
     0.888040781, 0.890202343, 0.892337978, 0.894447744, 0.896531701, 0.898589849, 0.900622249,
     0.902628958, 0.904610038, 0.906565487, 0.908495426, 0.910399914, 0.912279010, 0.914132774,
     0.915961266, 0.917764664, 0.919542909, 0.921296239, 0.923024654, 0.924728215, 0.926407158,
     0.928061485, 0.929691315, 0.931296766, 0.932878017, 0.934435070, 0.935968161, 0.937477291,
     0.938962698, 0.940424502, 0.941862822, 0.943277776, 0.944669485, 0.946038187, 0.947383940,
     0.948706925, 0.950007319, 0.951285243, 0.952540874, 0.953774393, 0.954985917, 0.956175685,
     0.957343817, 0.958490491, 0.959615886, 0.960720181, 0.961803555, 0.962866247, 0.963908315,
     0.964930058, 0.965931594, 0.966913164, 0.967874944, 0.968817174, 0.969739914, 0.970643520,
     0.971528113, 0.972393870, 0.973241091, 0.974069893, 0.974880517, 0.975673139, 0.976447999,
     0.977205336, 0.977945268, 0.978668094, 0.979374051, 0.980063200, 0.980735898, 0.981392324,
     0.982032716, 0.982657254, 0.983266115, 0.983859658, 0.984437943, 0.985001266, 0.985549867,
     0.986083925, 0.986603677, 0.987109363, 0.987601161, 0.988079309, 0.988544047, 0.988995552,
     0.989434063, 0.989859879, 0.990273118, 0.990674019, 0.991062820, 0.991439700, 0.991804957,
     0.992158771, 0.992501318, 0.992832899, 0.993153632, 0.993463814, 0.993763626, 0.994053245,
     0.994332969, 0.994602919, 0.994863331, 0.995114446, 0.995356441, 0.995589554, 0.995813966,
     0.996029854, 0.996237516, 0.996437073, 0.996628702, 0.996812642, 0.996989131, 0.997158289,
     0.997320294, 0.997475445, 0.997623861, 0.997765720, 0.997901261, 0.998030603, 0.998153925,
     0.998271465, 0.998383403, 0.998489857, 0.998591006, 0.998687088, 0.998778164, 0.998864532,
     0.998946249, 0.999023557, 0.999096513, 0.999165416, 0.999230266, 0.999291301, 0.999348700,
     0.999402523, 0.999453008, 0.999500215, 0.999544322, 0.999585509, 0.999623775, 0.999659419,
     0.999692440, 0.999723017, 0.999751270, 0.999777317, 0.999801278, 0.999823213, 0.999843359,
     0.999861658, 0.999878347, 0.999893486, 0.999907196, 0.999919534, 0.999930561, 0.999940455,
     0.999949217, 0.999957025, 0.999963880, 0.999969840, 0.999975085, 0.999979615, 0.999983490,
     0.999986768, 0.999989510, 0.999991834, 0.999993742, 0.999995291, 0.999996543, 0.999997556,
     0.999998271, 0.999998868, 0.999999285, 0.999999523, 0.999999762, 0.999999881, 0.999999940,
     1.00000000, 1.00000000, 1.00000000, 1.00000000]"

definition rnn_half_window :: "'a::{scaleR,one} list" where
  "rnn_half_window = map lit half_window_values"

section \<open>The static plan is the computed one\<close>

fun matches :: "(nat \<Rightarrow> 'a) \<Rightarrow> nat \<Rightarrow> 'a list \<Rightarrow> bool" where
  "matches f k [] = True"
| "matches f k (x # xs) = (x = f k \<and> matches f (k + 1) xs)"

lemma matches_map: "matches f k xs \<Longrightarrow> xs = map f [k..<k + length xs]"
proof (induction xs arbitrary: k)
  case (Cons x xs)
  have "xs = map f [k + 1..<k + 1 + length xs]" and x: "x = f k"
    using Cons.IH [of "k + 1"] Cons.prems by (simp_all only: matches.simps simp_thms)
  moreover have "[k..<k + length (x # xs)] = k # [k + 1..<k + 1 + length xs]" by (subst upt_conv_Cons) simp_all
  ultimately show ?case by (metis list.simps(9))
qed simp

lemma matches_Cons: "x = f k \<Longrightarrow> k + 1 = k' \<Longrightarrow> matches f k' xs \<Longrightarrow> matches f k (x # xs)"
  by simp

lemma fft_bitrev_matches: "matches (rev_pos [5, 3, 4, 4, 4]) 0 fft_bitrev"
  unfolding fft_bitrev_def
  by ((rule matches_Cons, (simp; fail), (simp only: arith_simps arith_special; fail))+,
      rule matches.simps(1) [THEN iffD2], rule TrueI)

lemma length_fft_bitrev: "length fft_bitrev = 960"
  by (simp add: fft_bitrev_def)

lemma fft_bitrev_positions: "fft_bitrev = map (rev_pos [5, 3, 4, 4, 4]) [0..<960]"
  using matches_map [OF fft_bitrev_matches] by (simp add: length_fft_bitrev)

definition kfft_radices :: "nat list" where "kfft_radices = [5, 3, 4, 4, 4]"

lemma prod_radices: "prod_list kfft_radices = 960"
  by (simp add: kfft_radices_def)

lemma kfft_table:
  fixes tw :: "'a::{scaleR,one} cpx list"
  shows "factor_table kfft_radices (factors (rnn_kfft tw))"
proof -
  have "kfft_radices ! i = factors (rnn_kfft tw) ! (2 * i) \<and>
      factors (rnn_kfft tw) ! (2 * i + 1) = prod_list (drop (Suc i) kfft_radices) \<and> kfft_radices ! i \<in> {3, 4, 5}"
    if "i < length kfft_radices" for i
  proof -
    have "i \<in> {0, 1, 2, 3, 4}" using \<open>i < length kfft_radices\<close> by (auto simp: kfft_radices_def)
    then show ?thesis by (elim insertE emptyE) (simp_all add: kfft_radices_def rnn_kfft_def)
  qed
  then have "\<forall>i<length kfft_radices. factors (rnn_kfft tw) ! (2 * i) = kfft_radices ! i \<and>
      factors (rnn_kfft tw) ! (2 * i + 1) = prod_list (drop (Suc i) kfft_radices)"
    "\<forall>i<length kfft_radices. kfft_radices ! i \<in> {3, 4, 5} \<or> kfft_radices ! i = 2 \<and> Suc i = length kfft_radices"
    by (simp, blast)
  moreover have "0 < length kfft_radices \<and> length kfft_radices < 8 \<and> 2 * length kfft_radices \<le> length (factors (rnn_kfft tw))"
    by (simp add: kfft_radices_def rnn_kfft_def)
  ultimately show ?thesis unfolding factor_table_def MAXFACTORS_def by blast
qed

lemma kfft_shape: "length tw = 960 \<Longrightarrow> fft_shape_ok kfft_radices (rnn_kfft tw)"
proof -
  assume "length tw = 960"
  moreover have "b < 960" if "b \<in> set fft_bitrev" for b
    using that rev_pos_less [of kfft_radices] prod_radices
    by (auto simp: fft_bitrev_positions kfft_radices_def [symmetric])
  moreover have "nfft (rnn_kfft tw) = 960" "shift (rnn_kfft tw) = - 1" "bitrev (rnn_kfft tw) = fft_bitrev" "twiddles (rnn_kfft tw) = tw"
    by (simp_all add: rnn_kfft_def)
  ultimately show ?thesis using kfft_table prod_radices length_fft_bitrev by (simp add: fft_shape_ok_def)
qed



section \<open>The window\<close>

text \<open>The squares of opposite cells add up to 1, up to the rounding of the table.\<close>

fun squares_add :: "real list \<Rightarrow> real list \<Rightarrow> bool" where
  "squares_add (x # xs) (y # ys) = (\<bar>x * x + y * y - 1\<bar> < 0.0000002 \<and> squares_add xs ys)"
| "squares_add _ _ = True"

lemma squares_add_Cons:
  "\<bar>x * x + y * y - 1\<bar> < 0.0000002 \<Longrightarrow> squares_add xs ys \<Longrightarrow> squares_add (x # xs) (y # ys)"
  by simp

lemma squares_add_nth:
  "squares_add xs ys \<Longrightarrow> i < length xs \<Longrightarrow> i < length ys \<Longrightarrow> \<bar>xs ! i * xs ! i + ys ! i * ys ! i - 1\<bar> < 0.0000002"
  by (induction xs ys arbitrary: i rule: squares_add.induct) (auto simp: nth_Cons split: nat.splits)

text \<open>The list is taken apart at half its length, its first half reversed.\<close>

definition window_halves :: "real list \<Rightarrow> real list \<Rightarrow> bool" where
  "window_halves xs acc \<longleftrightarrow> (\<exists>ys zs. xs = ys @ zs \<and> squares_add zs (rev ys @ acc) \<and> length zs = length ys + length acc)"

lemma window_halves_push: "window_halves xs (x # acc) \<Longrightarrow> window_halves (x # xs) acc"
proof -
  assume "window_halves xs (x # acc)"
  then obtain ys zs where "xs = ys @ zs" "squares_add zs (rev ys @ x # acc)" "length zs = length ys + length (x # acc)"
    unfolding window_halves_def by blast
  then have "x # xs = (x # ys) @ zs" "squares_add zs (rev (x # ys) @ acc)" "length zs = length (x # ys) + length acc" by simp_all
  then show ?thesis unfolding window_halves_def by blast
qed

lemma window_halves_turn: "squares_add xs acc \<Longrightarrow> length xs = length acc \<Longrightarrow> window_halves xs acc"
  unfolding window_halves_def by (intro exI [of _ "[]"] exI [of _ xs]) simp

lemma window_halves_all:
  assumes "window_halves xs []" "i < length xs"
  shows "\<bar>xs ! i * xs ! i + xs ! (length xs - 1 - i) * xs ! (length xs - 1 - i) - 1\<bar> < 0.0000002"
proof -
  obtain ys zs where xs: "xs = ys @ zs" "squares_add zs (rev ys)" "length zs = length ys"
    using assms(1) unfolding window_halves_def by auto
  have pair: "\<bar>zs ! j * zs ! j + ys ! (length ys - 1 - j) * ys ! (length ys - 1 - j) - 1\<bar> < 0.0000002" if "j < length ys" for j
    using squares_add_nth [OF xs(2), of j] that xs(3) by (simp add: rev_nth)
  show ?thesis
  proof (cases "i < length ys")
    case True
    let ?j = "length ys - 1 - i"
    have "length xs - 1 - i = length ys + ?j" "length ys - 1 - ?j = i" using True xs(1,3) by auto
    then have "xs ! i = ys ! (length ys - 1 - ?j)" "xs ! (length xs - 1 - i) = zs ! ?j" "?j < length ys"
      using True xs(1) by (simp add: nth_append, simp only: nth_append_length_plus, simp)
    then show ?thesis using pair [of ?j] by (simp only: add.commute)
  next
    case False
    then obtain j where j: "i = length ys + j" "j < length ys" using assms(2) xs(1,3) by (metis le_Suc_ex length_append nat_add_left_cancel_less not_less)
    have "length xs - 1 - i = length ys - 1 - j" using xs(1,3) j(1) by simp
    moreover have "length ys - 1 - j < length ys" using j(2) by simp
    ultimately have "xs ! i = zs ! j" "xs ! (length xs - 1 - i) = ys ! (length ys - 1 - j)"
      using j(1) xs(1) by (simp add: nth_append, simp only: nth_append if_True)
    then show ?thesis using pair [OF j(2)] by (simp only:)
  qed
qed

text \<open>The same with the number of cells still to be moved.\<close>

definition counted :: "nat \<Rightarrow> real list \<Rightarrow> real list \<Rightarrow> bool" where
  "counted k xs acc \<longleftrightarrow> window_halves xs acc"

lemma counted_push: "0 < k \<Longrightarrow> k - 1 = k' \<Longrightarrow> counted k' xs (x # acc) \<Longrightarrow> counted k (x # xs) acc"
  using window_halves_push by (simp add: counted_def)

lemma counted_start: "counted 240 xs acc \<Longrightarrow> window_halves xs acc"
  by (simp add: counted_def)

lemma counted_turn: "squares_add xs acc \<Longrightarrow> length xs = length acc \<Longrightarrow> counted 0 xs acc"
  using window_halves_turn by (simp add: counted_def)

lemma window_checked: "window_halves half_window_values []"
  unfolding half_window_values_def
  by (rule counted_start, (rule counted_push, (simp; fail), (simp; fail))+, rule counted_turn,
      (rule squares_add_Cons, (simp; fail))+, rule squares_add.simps(2) [THEN iffD2], rule TrueI, simp)

lemma length_half_window: "length half_window_values = 480"
  by (simp add: half_window_values_def)

lemma half_window_squares:
  assumes "i < 480"
  shows "\<bar>(rnn_half_window ! i)\<^sup>2 + (rnn_half_window ! (479 - i))\<^sup>2 - (1::real)\<bar> < 0.0000002"
  using window_halves_all [OF window_checked, of i] assms
  by (simp add: length_half_window rnn_half_window_def power2_eq_square)

end
