(* ===== verification/Rnn_Pitch.thy ===== *)
theory Rnn_Pitch
  imports Rnn_Arch
begin

text \<open>
  The pitch estimator of RNNoise: \<open>pitch.h\<close>, \<open>pitch.c\<close> and \<open>celt_lpc.c\<close>.

  A pointer into an array is the array (a list) and a position (an integer, which a negative
  offset may make smaller than zero); every access is checked. Lengths and periods that only
  count are natural numbers, the C code calls these functions with positive ones.
\<close>

section \<open>Inner products\<close>

definition celt_inner_prod ::
  "'a::{zero,plus,times} list \<Rightarrow> int \<Rightarrow> 'a list \<Rightarrow> int \<Rightarrow> nat \<Rightarrow> 'a option" where
  "celt_inner_prod x px y py N =
     ofold (\<lambda>i xy. do {
         a \<leftarrow> rd x (px + int i);
         b \<leftarrow> rd y (py + int i);
         Some (MAC16_16 xy a b)
       }) [0..<N] 0"

definition dual_inner_prod ::
  "'a::{zero,plus,times} list \<Rightarrow> int \<Rightarrow> 'a list \<Rightarrow> int \<Rightarrow> 'a list \<Rightarrow> int \<Rightarrow> nat \<Rightarrow> ('a \<times> 'a) option" where
  "dual_inner_prod x px y01 p1 y02 p2 N =
     ofold (\<lambda>i (xy01, xy02). do {
         a \<leftarrow> rd x (px + int i);
         b \<leftarrow> rd y01 (p1 + int i);
         c \<leftarrow> rd y02 (p2 + int i);
         Some (MAC16_16 xy01 a b, MAC16_16 xy02 a c)
       }) [0..<N] (0, 0)"

text \<open>Four correlations at once. The window \<open>y_0 .. y_3\<close> rotates through four variables.\<close>

definition mac4 ::
  "'a::{plus,times} \<Rightarrow> 'a \<times> 'a \<times> 'a \<times> 'a \<Rightarrow> 'a \<times> 'a \<times> 'a \<times> 'a \<Rightarrow> 'a \<times> 'a \<times> 'a \<times> 'a" where
  "mac4 tmp = (\<lambda>(a, b, c, d) (s0, s1, s2, s3).
     (MAC16_16 s0 tmp a, MAC16_16 s1 tmp b, MAC16_16 s2 tmp c, MAC16_16 s3 tmp d))"

definition xcorr_block ::
  "'a::{plus,times} list \<Rightarrow> int \<Rightarrow> 'a list \<Rightarrow> int \<Rightarrow> ('a \<times> 'a \<times> 'a \<times> 'a) \<times> 'a \<times> 'a \<times> 'a \<Rightarrow>
   (('a \<times> 'a \<times> 'a \<times> 'a) \<times> 'a \<times> 'a \<times> 'a) option" where
  "xcorr_block x px y py = (\<lambda>(acc, y_0, y_1, y_2). do {
     tmp \<leftarrow> rd x px;
     y_3 \<leftarrow> rd y py;
     let acc = mac4 tmp (y_0, y_1, y_2, y_3) acc;
     tmp \<leftarrow> rd x (px + 1);
     y_0 \<leftarrow> rd y (py + 1);
     let acc = mac4 tmp (y_1, y_2, y_3, y_0) acc;
     tmp \<leftarrow> rd x (px + 2);
     y_1 \<leftarrow> rd y (py + 2);
     let acc = mac4 tmp (y_2, y_3, y_0, y_1) acc;
     tmp \<leftarrow> rd x (px + 3);
     y_2 \<leftarrow> rd y (py + 3);
     let acc = mac4 tmp (y_3, y_0, y_1, y_2) acc;
     Some (acc, y_0, y_1, y_2)
   })"

text \<open>
  The blocks of four, then up to three more samples. The third of these finds its \<open>y_3\<close> and
  \<open>y_0\<close> in the variables the first two have set.
\<close>

definition xcorr_kernel ::
  "'a::{plus,times} list \<Rightarrow> int \<Rightarrow> 'a list \<Rightarrow> int \<Rightarrow> 'a \<times> 'a \<times> 'a \<times> 'a \<Rightarrow> nat \<Rightarrow>
   ('a \<times> 'a \<times> 'a \<times> 'a) option" where
  "xcorr_kernel x px y py acc len = do {
     y_0 \<leftarrow> rd y py;
     y_1 \<leftarrow> rd y (py + 1);
     y_2 \<leftarrow> rd y (py + 2);
     (acc, y_0, y_1, y_2) \<leftarrow>
       ofold (\<lambda>b. xcorr_block x (px + 4 * int b) y (py + 3 + 4 * int b)) [0..<len div 4] (acc, y_0, y_1, y_2);
     let j = 4 * (len div 4);
     let px = px + int j;
     let py = py + 3 + int j;
     if j < len then do {
       tmp \<leftarrow> rd x px;
       y_3 \<leftarrow> rd y py;
       let acc = mac4 tmp (y_0, y_1, y_2, y_3) acc;
       if j + 1 < len then do {
         tmp \<leftarrow> rd x (px + 1);
         y_0 \<leftarrow> rd y (py + 1);
         let acc = mac4 tmp (y_1, y_2, y_3, y_0) acc;
         if j + 2 < len then do {
           tmp \<leftarrow> rd x (px + 2);
           y_1 \<leftarrow> rd y (py + 2);
           Some (mac4 tmp (y_2, y_3, y_0, y_1) acc)
         }
         else Some acc
       }
       else Some acc
     }
     else Some acc
   }"

definition rnn_pitch_xcorr ::
  "'a::{zero,plus,times} list \<Rightarrow> int \<Rightarrow> 'a list \<Rightarrow> int \<Rightarrow> 'a list \<Rightarrow> nat \<Rightarrow> nat \<Rightarrow> 'a list option" where
  "rnn_pitch_xcorr x px y py xcorr len max_pitch = do {
     xcorr \<leftarrow> ofold (\<lambda>b xcorr. do {
         let i = 4 * int b;
         (s0, s1, s2, s3) \<leftarrow> xcorr_kernel x px y (py + i) (0, 0, 0, 0) len;
         xcorr \<leftarrow> wr xcorr i s0;
         xcorr \<leftarrow> wr xcorr (i + 1) s1;
         xcorr \<leftarrow> wr xcorr (i + 2) s2;
         wr xcorr (i + 3) s3
       }) [0..<max_pitch div 4] xcorr;
     ofold (\<lambda>i xcorr. do {
         acc \<leftarrow> celt_inner_prod x px y (py + int i) len;
         wr xcorr (int i) acc
       }) [4 * (max_pitch div 4)..<max_pitch] xcorr
   }"

text \<open>The reference: the sum of products in order of the index.\<close>

definition dot :: "'a::{plus,times} list \<Rightarrow> nat \<Rightarrow> 'a list \<Rightarrow> nat \<Rightarrow> nat \<Rightarrow> 'a \<Rightarrow> 'a" where
  "dot x px y py n s = foldl (\<lambda>s j. s + x ! (px + j) * y ! (py + j)) s [0..<n]"

lemma dot_0 [simp]: "dot x px y py 0 s = s"
  by (simp add: dot_def)

lemma dot_Suc: "dot x px y py (Suc n) s = dot x px y py n s + x ! (px + n) * y ! (py + n)"
  by (simp add: dot_def)

lemma rd_plus [mem_simps]: "p + i < length xs \<Longrightarrow> rd xs (int p + int i) = Some (xs ! (p + i))"
  using rd_nat [of "p + i" xs] by simp

lemma inner_prod_dot:
  assumes "px + N \<le> length x" "py + N \<le> length y"
  shows "celt_inner_prod x (int px) y (int py) N = Some (dot x px y py N 0)"
  unfolding celt_inner_prod_def
proof (rule ofold_upt [where g = "\<lambda>n. dot x px y py n 0"])
  fix i assume "i < N"
  then show "do {
         a \<leftarrow> rd x (int px + int i);
         b \<leftarrow> rd y (int py + int i);
         Some (MAC16_16 (dot x px y py i 0) a b)
       } = Some (dot x px y py (Suc i) 0)"
    using assms by (simp add: mem_simps dot_Suc MAC16_16_def nat_int_add)
qed simp

lemma dual_inner_prod_dot:
  assumes "px + N \<le> length x" "p1 + N \<le> length y01" "p2 + N \<le> length y02"
  shows "dual_inner_prod x (int px) y01 (int p1) y02 (int p2) N =
    Some (dot x px y01 p1 N 0, dot x px y02 p2 N 0)"
  unfolding dual_inner_prod_def
proof (rule ofold_upt [where g = "\<lambda>n. (dot x px y01 p1 n 0, dot x px y02 p2 n 0)"])
  fix i assume "i < N"
  then show "(case (dot x px y01 p1 i 0, dot x px y02 p2 i 0) of (xy01, xy02) \<Rightarrow> do {
         a \<leftarrow> rd x (int px + int i);
         b \<leftarrow> rd y01 (int p1 + int i);
         c \<leftarrow> rd y02 (int p2 + int i);
         Some (MAC16_16 xy01 a b, MAC16_16 xy02 a c)
       }) = Some (dot x px y01 p1 (Suc i) 0, dot x px y02 p2 (Suc i) 0)"
    using assms by (simp add: mem_simps dot_Suc MAC16_16_def nat_int_add)
qed simp

text \<open>The four sums after \<open>n\<close> samples.\<close>

definition dot4 ::
  "'a::{plus,times} list \<Rightarrow> nat \<Rightarrow> 'a list \<Rightarrow> nat \<Rightarrow> 'a \<times> 'a \<times> 'a \<times> 'a \<Rightarrow> nat \<Rightarrow> 'a \<times> 'a \<times> 'a \<times> 'a" where
  "dot4 x px y py = (\<lambda>(s0, s1, s2, s3) n.
     (dot x px y py n s0, dot x px y (py + 1) n s1, dot x px y (py + 2) n s2, dot x px y (py + 3) n s3))"

lemma dot4_0 [simp]: "dot4 x px y py s 0 = s"
  by (cases s) (simp add: dot4_def)

lemma mac4_dot4:
  "mac4 (x ! (px + n)) (y ! (py + n), y ! (py + n + 1), y ! (py + n + 2), y ! (py + n + 3)) (dot4 x px y py s n) =
   dot4 x px y py s (Suc n)"
  by (cases s) (simp add: dot4_def mac4_def dot_Suc MAC16_16_def ac_simps numeral_3_eq_3)

lemma mac4_step:
  assumes "i = px + n" "a = y ! (py + n)" "b = y ! (py + n + 1)" "c = y ! (py + n + 2)" "d = y ! (py + n + 3)"
  shows "mac4 (x ! i) (a, b, c, d) (dot4 x px y py s n) = dot4 x px y py s (Suc n)"
  unfolding assms by (rule mac4_dot4)

lemma xcorr_block_dot4:
  assumes "p = px + n" "q = py + 3 + n" and "px + n + 4 \<le> length x" "py + n + 7 \<le> length y"
  shows "xcorr_block x (int p) y (int q)
      (dot4 x px y py s n, y ! (py + n), y ! (py + n + 1), y ! (py + n + 2)) =
    Some (dot4 x px y py s (n + 4), y ! (py + n + 4), y ! (py + n + 5), y ! (py + n + 6))"
proof -
  have x: "rd x (int p) = Some (x ! (px + n))" "rd x (int p + 1) = Some (x ! (px + n + 1))"
    "rd x (int p + 2) = Some (x ! (px + n + 2))" "rd x (int p + 3) = Some (x ! (px + n + 3))"
    using assms by (auto intro!: rd_at)
  have y: "rd y (int q) = Some (y ! (py + n + 3))" "rd y (int q + 1) = Some (y ! (py + n + 4))"
    "rd y (int q + 2) = Some (y ! (py + n + 5))" "rd y (int q + 3) = Some (y ! (py + n + 6))"
    using assms by (auto intro!: rd_at)
  have "mac4 (x ! (px + n)) (y ! (py + n), y ! (py + n + 1), y ! (py + n + 2), y ! (py + n + 3))
      (dot4 x px y py s n) = dot4 x px y py s (Suc n)"
    by (rule mac4_step) simp_all
  moreover have "mac4 (x ! (px + n + 1)) (y ! (py + n + 1), y ! (py + n + 2), y ! (py + n + 3), y ! (py + n + 4))
      (dot4 x px y py s (Suc n)) = dot4 x px y py s (Suc (Suc n))"
    by (rule mac4_step) ((intro arg_cong [where f = "(!) y"])?, simp)+
  moreover have "mac4 (x ! (px + n + 2)) (y ! (py + n + 2), y ! (py + n + 3), y ! (py + n + 4), y ! (py + n + 5))
      (dot4 x px y py s (Suc (Suc n))) = dot4 x px y py s (Suc (Suc (Suc n)))"
    by (rule mac4_step) ((intro arg_cong [where f = "(!) y"])?, simp)+
  moreover have "mac4 (x ! (px + n + 3)) (y ! (py + n + 3), y ! (py + n + 4), y ! (py + n + 5), y ! (py + n + 6))
      (dot4 x px y py s (Suc (Suc (Suc n)))) = dot4 x px y py s (n + 4)"
    using mac4_dot4 [of x px "n + 3" y py s] by (simp add: ac_simps numeral_3_eq_3 eval_nat_numeral)
  ultimately show ?thesis by (simp add: xcorr_block_def x y)
qed

text \<open>The kernel is the four inner products, for every length, the tail of up to three included.\<close>

lemma xcorr_kernel_dot4:
  assumes "px + len \<le> length x" "py + len + 3 \<le> length y"
  shows "xcorr_kernel x (int px) y (int py) s len = Some (dot4 x px y py s len)"
proof -
  let ?st = "\<lambda>n. (dot4 x px y py s n, y ! (py + n), y ! (py + n + 1), y ! (py + n + 2))"
  define m where "m = 4 * (len div 4)"
  have m: "m \<le> len" "len < m + 4" unfolding m_def by linarith+
  have start: "rd y (int py) = Some (y ! py)" "rd y (int py + 1) = Some (y ! (py + 1))"
    "rd y (int py + 2) = Some (y ! (py + 2))"
    using assms(2) by (auto intro!: rd_at)
  have blocks: "ofold (\<lambda>b. xcorr_block x (int px + 4 * int b) y (int py + 3 + 4 * int b)) [0..<len div 4]
      (s, y ! py, y ! (py + 1), y ! (py + 2)) = Some (?st m)"
    unfolding m_def
  proof (rule ofold_upt [where g = "\<lambda>b. ?st (4 * b)"])
    fix b assume b: "b < len div 4"
    have "xcorr_block x (int (px + 4 * b)) y (int (py + 3 + 4 * b)) (?st (4 * b)) = Some (?st (4 * b + 4))"
      using xcorr_block_dot4 [of "px + 4 * b" px "4 * b" "py + 3 + 4 * b" py x y s] b assms
      by (simp add: algebra_simps)
    then show "xcorr_block x (int px + 4 * int b) y (int py + 3 + 4 * int b) (?st (4 * b)) = Some (?st (4 * Suc b))"
      by (simp add: algebra_simps)
  qed simp
  have x: "m < len \<longrightarrow> rd x (int px + int m) = Some (x ! (px + m))"
      "Suc m < len \<longrightarrow> rd x (int px + int m + 1) = Some (x ! (px + Suc m))"
      "Suc (Suc m) < len \<longrightarrow> rd x (int px + int m + 2) = Some (x ! (px + Suc (Suc m)))"
    using assms by (auto intro!: rd_at)
  have y: "m < len \<longrightarrow> rd y (int py + 3 + int m) = Some (y ! (py + m + 3))"
      "Suc m < len \<longrightarrow> rd y (int py + 3 + int m + 1) = Some (y ! (py + Suc m + 3))"
      "Suc (Suc m) < len \<longrightarrow> rd y (int py + 3 + int m + 2) = Some (y ! (py + Suc (Suc m) + 3))"
    using assms by (auto intro!: rd_at)
  note step = mac4_dot4 [of x px m y py s] mac4_dot4 [of x px "Suc m" y py s] mac4_dot4 [of x px "Suc (Suc m)" y py s]
  have kernel: "xcorr_kernel x (int px) y (int py) s len =
      (if m < len then
         if Suc m < len then
           if Suc (Suc m) < len then Some (dot4 x px y py s (Suc (Suc (Suc m))))
           else Some (dot4 x px y py s (Suc (Suc m)))
         else Some (dot4 x px y py s (Suc m))
       else Some (dot4 x px y py s m))"
    unfolding xcorr_kernel_def start Option.bind.simps(2) blocks m_def [symmetric]
    using x y step by (simp add: Let_def eval_nat_numeral)
  have "len = m \<or> len = Suc m \<or> len = Suc (Suc m) \<or> len = Suc (Suc (Suc m))" using m by linarith
  then show ?thesis unfolding kernel by auto
qed

lemma wr_seg_Suc:
  "i = int n \<Longrightarrow> n < length xs \<Longrightarrow> v = f n \<Longrightarrow> wr (seg_upd xs 0 n f) i v = Some (seg_upd xs 0 (Suc n) f)"
  using seg_upd_Suc [of 0 n xs f] by (simp add: wr_nat)

text \<open>The unrolled correlation is the simple one the source keeps in an \<open>#if 0\<close>.\<close>

lemma pitch_xcorr_dot:
  assumes "px + len \<le> length x" "py + len + max_pitch \<le> length y + 1" "max_pitch \<le> length xcorr"
  shows "rnn_pitch_xcorr x (int px) y (int py) xcorr len max_pitch =
    Some (seg_upd xcorr 0 max_pitch (\<lambda>i. dot x px y (py + i) len 0))"
proof -
  let ?F = "\<lambda>i. dot x px y (py + i) len 0"
  define m where "m = 4 * (max_pitch div 4)"
  have m: "m \<le> max_pitch" unfolding m_def by linarith
  have blocks: "ofold (\<lambda>b xcorr. do {
         let i = 4 * int b;
         (s0, s1, s2, s3) \<leftarrow> xcorr_kernel x (int px) y (int py + i) (0, 0, 0, 0) len;
         xcorr \<leftarrow> wr xcorr i s0;
         xcorr \<leftarrow> wr xcorr (i + 1) s1;
         xcorr \<leftarrow> wr xcorr (i + 2) s2;
         wr xcorr (i + 3) s3
       }) [0..<max_pitch div 4] xcorr = Some (seg_upd xcorr 0 m ?F)"
    unfolding m_def
  proof (rule ofold_upt [where g = "\<lambda>b. seg_upd xcorr 0 (4 * b) ?F"])
    fix b assume b: "b < max_pitch div 4"
    then have "4 * b + 4 \<le> max_pitch" by linarith
    moreover from this have "xcorr_kernel x (int px) y (int (py + 4 * b)) (0, 0, 0, 0) len =
        Some (?F (4 * b), ?F (4 * b + 1), ?F (4 * b + 2), ?F (4 * b + 3))"
      using assms by (subst xcorr_kernel_dot4) (auto simp: dot4_def add.assoc)
    ultimately show "do {
         let i = 4 * int b;
         (s0, s1, s2, s3) \<leftarrow> xcorr_kernel x (int px) y (int py + i) (0, 0, 0, 0) len;
         xcorr \<leftarrow> wr (seg_upd xcorr 0 (4 * b) ?F) i s0;
         xcorr \<leftarrow> wr xcorr (i + 1) s1;
         xcorr \<leftarrow> wr xcorr (i + 2) s2;
         wr xcorr (i + 3) s3
       } = Some (seg_upd xcorr 0 (4 * Suc b) ?F)"
      using assms(3)
      by (simp add: wr_seg_Suc numeral_3_eq_3) (rule arg_cong [where f = "\<lambda>k. seg_upd xcorr 0 k ?F"], simp)
  qed simp
  have tail: "ofold (\<lambda>i xcorr. do {
         acc \<leftarrow> celt_inner_prod x (int px) y (int py + int i) len;
         wr xcorr (int i) acc
       }) [m..<max_pitch] (seg_upd xcorr 0 m ?F) = Some (seg_upd xcorr 0 max_pitch ?F)"
  proof (rule ofold_upt_from [OF m])
    fix i assume "m \<le> i" "i < max_pitch"
    then show "do {
         acc \<leftarrow> celt_inner_prod x (int px) y (int py + int i) len;
         wr (seg_upd xcorr 0 i ?F) (int i) acc
       } = Some (seg_upd xcorr 0 (Suc i) ?F)"
      using inner_prod_dot [of px len x "py + i" y] assms by (simp add: wr_seg_Suc)
  qed simp
  show ?thesis
    unfolding rnn_pitch_xcorr_def blocks m_def [symmetric] Option.bind.simps(2) by (rule tail)
qed

section \<open>Autocorrelation and linear prediction (\<open>celt_lpc.c\<close>)\<close>

text \<open>
  The window is only read when \<open>overlap\<close> is positive; then the windowed copy is the local array
  \<open>xx\<close>, whose cells are all written before they are read.
\<close>

definition rnn_autocorr ::
  "'a::{zero,plus,times} list \<Rightarrow> 'a list \<Rightarrow> 'a list \<Rightarrow> nat \<Rightarrow> nat \<Rightarrow> nat \<Rightarrow> 'a list option" where
  "rnn_autocorr x ac window overlap lag n = do {
     xptr \<leftarrow>
       (if overlap = 0 then Some x
        else do {
          xx \<leftarrow> ofold (\<lambda>i xx. do { v \<leftarrow> rd x (int i); wr xx (int i) v }) [0..<n]
             (replicate (PITCH_BUF_SIZE div 2) 0);
          ofold (\<lambda>i xx. do {
              w \<leftarrow> rd window (int i);
              v \<leftarrow> rd x (int i);
              xx \<leftarrow> wr xx (int i) (v * w);
              v \<leftarrow> rd x (int n - int i - 1);
              wr xx (int n - int i - 1) (v * w)
            }) [0..<overlap] xx
        });
     let fastN = n - lag;
     ac \<leftarrow> rnn_pitch_xcorr xptr 0 xptr 0 ac fastN (lag + 1);
     ofold (\<lambda>k ac. do {
         d \<leftarrow> ofold (\<lambda>i d. do {
             a \<leftarrow> rd xptr (int i);
             b \<leftarrow> rd xptr (int i - int k);
             Some (MAC16_16 d a b)
           }) [k + fastN..<n] 0;
         v \<leftarrow> rd ac (int k);
         wr ac (int k) (v + d)
       }) [0..<lag + 1] ac
   }"

text \<open>One order of the recursion of Levinson and Durbin: the coefficients are updated in pairs.\<close>

definition lpc_pair :: "'a::{plus,times} \<Rightarrow> nat \<Rightarrow> nat \<Rightarrow> 'a list \<Rightarrow> 'a list option" where
  "lpc_pair r i j lpc = do {
     tmp1 \<leftarrow> rd lpc (int j);
     tmp2 \<leftarrow> rd lpc (int i - 1 - int j);
     lpc \<leftarrow> wr lpc (int j) (tmp1 + r * tmp2);
     wr lpc (int i - 1 - int j) (tmp2 + r * tmp1)
   }"

definition lpc_order ::
  "'a::{zero,plus,minus,uminus,times,inverse} list \<Rightarrow> nat \<Rightarrow> 'a list \<times> 'a \<Rightarrow> ('a list \<times> 'a) option" where
  "lpc_order ac i = (\<lambda>(lpc, error). do {
     rr \<leftarrow> ofold (\<lambda>j rr. do {
         l \<leftarrow> rd lpc (int j);
         a \<leftarrow> rd ac (int i - int j);
         Some (rr + l * a)
       }) [0..<i] 0;
     a \<leftarrow> rd ac (int i + 1);
     let rr = rr + a;
     let r = (- rr) / error;
     lpc \<leftarrow> wr lpc (int i) r;
     lpc \<leftarrow> ofold (lpc_pair r i) [0..<(i + 1) div 2] lpc;
     Some (lpc, error - (r * r) * error)
   })"

fun lpc_loop ::
  "'a::{zero,one,plus,minus,uminus,times,inverse,ord,scaleR} list \<Rightarrow> 'a \<Rightarrow> nat list \<Rightarrow> 'a list \<times> 'a \<Rightarrow>
   ('a list \<times> 'a) option" where
  "lpc_loop ac ac0 [] st = Some st"
| "lpc_loop ac ac0 (i # is) st = do {
     (lpc, error) \<leftarrow> lpc_order ac i st;
     if error < lit 0.001 * ac0 then Some (lpc, error)
     else lpc_loop ac ac0 is (lpc, error)
   }"

definition rnn_lpc ::
  "'a::{zero,one,plus,minus,uminus,times,inverse,ord,scaleR} list \<Rightarrow> 'a list \<Rightarrow> nat \<Rightarrow> 'a list option" where
  "rnn_lpc lpc ac p = do {
     ac0 \<leftarrow> rd ac 0;
     lpc \<leftarrow> ofold (\<lambda>i lpc. wr lpc (int i) 0) [0..<p] lpc;
     if fneq ac0 0 then do {
       (lpc, error) \<leftarrow> lpc_loop ac ac0 [0..<p] (lpc, ac0);
       Some lpc
     }
     else Some lpc
   }"

section \<open>Downsampling (\<open>pitch.c\<close>)\<close>

text \<open>The filter runs in place: its only call passes the same array as \<open>x\<close> and \<open>y\<close>.\<close>

definition celt_fir5 ::
  "'a::{zero,plus,times} list \<Rightarrow> 'a list \<Rightarrow> nat \<Rightarrow> 'a list \<Rightarrow> ('a list \<times> 'a list) option" where
  "celt_fir5 x num N mem = do {
     num0 \<leftarrow> rd num 0;
     num1 \<leftarrow> rd num 1;
     num2 \<leftarrow> rd num 2;
     num3 \<leftarrow> rd num 3;
     num4 \<leftarrow> rd num 4;
     m0 \<leftarrow> rd mem 0;
     m1 \<leftarrow> rd mem 1;
     m2 \<leftarrow> rd mem 2;
     m3 \<leftarrow> rd mem 3;
     m4 \<leftarrow> rd mem 4;
     (y, m0, m1, m2, m3, m4) \<leftarrow> ofold (\<lambda>i (y, m0, m1, m2, m3, m4). do {
         xi \<leftarrow> rd y (int i);
         let acc = MAC16_16 (MAC16_16 (MAC16_16 (MAC16_16 (MAC16_16 xi num0 m0) num1 m1) num2 m2) num3 m3) num4 m4;
         y \<leftarrow> wr y (int i) acc;
         Some (y, xi, m0, m1, m2, m3)
       }) [0..<N] (x, m0, m1, m2, m3, m4);
     mem \<leftarrow> wr mem 0 m0;
     mem \<leftarrow> wr mem 1 m1;
     mem \<leftarrow> wr mem 2 m2;
     mem \<leftarrow> wr mem 3 m3;
     mem \<leftarrow> wr mem 4 m4;
     Some (y, mem)
   }"

text \<open>One channel added into the half-rate signal; the first channel overwrites it.\<close>

definition halve ::
  "'a::{one,plus,times,scaleR} list \<Rightarrow> ('a \<Rightarrow> 'a \<Rightarrow> 'a) \<Rightarrow> nat \<Rightarrow> 'a list \<Rightarrow> 'a list option" where
  "halve x put len x_lp = do {
     x_lp \<leftarrow> ofold (\<lambda>i x_lp. do {
         a \<leftarrow> rd x (2 * int i - 1);
         b \<leftarrow> rd x (2 * int i + 1);
         c \<leftarrow> rd x (2 * int i);
         v \<leftarrow> rd x_lp (int i);
         wr x_lp (int i) (put v (HALF32 (HALF32 (a + b) + c)))
       }) [1..<len div 2] x_lp;
     b \<leftarrow> rd x 1;
     c \<leftarrow> rd x 0;
     v \<leftarrow> rd x_lp 0;
     wr x_lp 0 (put v (HALF32 (HALF32 b + c)))
   }"

definition lag_window ::
  "'a::{one,minus,times,scaleR} list \<Rightarrow> 'a list option" where
  "lag_window ac = do {
     a \<leftarrow> rd ac 0;
     ac \<leftarrow> wr ac 0 (a * lit 1.0001);
     ofold (\<lambda>i ac. do {
         a \<leftarrow> rd ac (int i);
         wr ac (int i) (a - a * (lit 0.008 * lit (real i)) * (lit 0.008 * lit (real i)))
       }) [1..<5] ac
   }"

definition widen_lpc :: "'a::{one,times,scaleR} list \<Rightarrow> 'a list option" where
  "widen_lpc lpc = do {
     (lpc, tmp) \<leftarrow> ofold (\<lambda>i (lpc, tmp). do {
         let tmp = lit 0.9 * tmp;
         l \<leftarrow> rd lpc (int i);
         lpc \<leftarrow> wr lpc (int i) (l * tmp);
         Some (lpc, tmp)
       }) [0..<4] (lpc, 1);
     Some lpc
   }"

definition rnn_pitch_downsample ::
  "'a::{zero,one,plus,minus,uminus,times,inverse,ord,scaleR} list list \<Rightarrow> 'a list \<Rightarrow> nat \<Rightarrow> nat \<Rightarrow> 'a list option" where
  "rnn_pitch_downsample x x_lp len C = do {
     x0 \<leftarrow> rd x 0;
     x_lp \<leftarrow> halve x0 (\<lambda>_ v. v) len x_lp;
     x_lp \<leftarrow> (if C = 2 then do { x1 \<leftarrow> rd x 1; halve x1 (+) len x_lp } else Some x_lp);
     ac \<leftarrow> rnn_autocorr x_lp (replicate 5 0) [] 0 4 (len div 2);
     ac \<leftarrow> lag_window ac;
     lpc \<leftarrow> rnn_lpc (replicate 4 0) ac 4;
     lpc \<leftarrow> widen_lpc lpc;
     let c1 = lit 0.8;
     l0 \<leftarrow> rd lpc 0;
     l1 \<leftarrow> rd lpc 1;
     l2 \<leftarrow> rd lpc 2;
     l3 \<leftarrow> rd lpc 3;
     (x_lp, mem) \<leftarrow> celt_fir5 x_lp [l0 + lit 0.8, l1 + c1 * l0, l2 + c1 * l1, l3 + c1 * l2, c1 * l3]
        (len div 2) (replicate 5 0);
     Some x_lp
   }"

section \<open>The autocorrelation\<close>

lemma foldl_sum: "foldl (\<lambda>s j. s + f j) (s::'a::comm_monoid_add) [0..<n] = s + (\<Sum>j<n. f j)"
  by (induction n) (simp_all add: ac_simps)

lemma dot_sum:
  "dot x px y py n s = s + (\<Sum>j<n. x ! (px + j) * y ! (py + j) :: 'a::comm_semiring_0)"
  by (simp add: dot_def foldl_sum)

text \<open>What is left of a correlation after the part all lags share.\<close>

definition dot_rest :: "'a::{zero,plus,times} list \<Rightarrow> nat \<Rightarrow> nat \<Rightarrow> nat \<Rightarrow> 'a" where
  "dot_rest x k m n = foldl (\<lambda>d i. d + x ! i * x ! (i - k)) 0 [m..<n]"

lemma dot_rest_loop:
  assumes "k \<le> m" "m \<le> n" "n \<le> length x"
  shows "ofold (\<lambda>i d. do {
             a \<leftarrow> rd x (int i);
             b \<leftarrow> rd x (int i - int k);
             Some (MAC16_16 d a b)
           }) [m..<n] 0 = Some (dot_rest x k m n)"
  unfolding dot_rest_def
proof (rule ofold_upt_from [OF assms(2), where g = "\<lambda>n. foldl (\<lambda>d i. d + x ! i * x ! (i - k)) 0 [m..<n]"])
  fix i assume i: "m \<le> i" "i < n"
  then have "rd x (int i - int k) = Some (x ! (i - k))"
    using assms by (intro rd_at) auto
  then show "do {
             a \<leftarrow> rd x (int i);
             b \<leftarrow> rd x (int i - int k);
             Some (MAC16_16 (foldl (\<lambda>d i. d + x ! i * x ! (i - k)) 0 [m..<i]) a b)
           } = Some (foldl (\<lambda>d i. d + x ! i * x ! (i - k)) 0 [m..<Suc i])"
    using i assms by (simp add: rd_nat MAC16_16_def)
qed simp

lemma autocorr_value:
  assumes "lag \<le> n" "n \<le> length x" "lag < length ac"
  shows "rnn_autocorr x ac window 0 lag n =
    Some (seg_upd ac 0 (lag + 1) (\<lambda>k. dot x 0 x k (n - lag) 0 + dot_rest x k (k + (n - lag)) n))"
proof -
  let ?D = "\<lambda>k. dot x 0 x k (n - lag) 0" and ?F = "\<lambda>k. dot x 0 x k (n - lag) 0 + dot_rest x k (k + (n - lag)) n"
  let ?ac = "seg_upd ac 0 (lag + 1) ?D"
  have xc: "rnn_pitch_xcorr x 0 x 0 ac (n - lag) (lag + 1) = Some ?ac"
    using pitch_xcorr_dot [of 0 "n - lag" x 0 "lag + 1" x ac] assms by simp
  have "ofold (\<lambda>k ac. do {
         d \<leftarrow> ofold (\<lambda>i d. do {
             a \<leftarrow> rd x (int i);
             b \<leftarrow> rd x (int i - int k);
             Some (MAC16_16 d a b)
           }) [k + (n - lag)..<n] 0;
         v \<leftarrow> rd ac (int k);
         wr ac (int k) (v + d)
       }) [0..<lag + 1] ?ac = Some (seg_upd ?ac 0 (lag + 1) ?F)"
  proof (rule ofold_seg)
    fix k :: nat and ys :: "'a list"
    assume k: "k < lag + 1" "length ys = length ?ac"
      "\<forall>j<length ?ac. j < 0 \<or> 0 + k \<le> j \<longrightarrow> ys ! j = ?ac ! j"
    then have "rd ys (int k) = Some (?D k)" using assms by (simp add: rd_nat)
    moreover have "ofold (\<lambda>i d. do {
             a \<leftarrow> rd x (int i);
             b \<leftarrow> rd x (int i - int k);
             Some (MAC16_16 d a b)
           }) [k + (n - lag)..<n] 0 = Some (dot_rest x k (k + (n - lag)) n)"
      by (rule dot_rest_loop) (use k assms in auto)
    ultimately show "do {
         d \<leftarrow> ofold (\<lambda>i d. do {
             a \<leftarrow> rd x (int i);
             b \<leftarrow> rd x (int i - int k);
             Some (MAC16_16 d a b)
           }) [k + (n - lag)..<n] 0;
         v \<leftarrow> rd ys (int k);
         wr ys (int k) (v + d)
       } = Some (ys[0 + k := ?F (0 + k)])"
      using k assms by (simp add: wr_nat)
  qed (use assms in simp)
  moreover have "seg_upd ?ac 0 (lag + 1) ?F = seg_upd ac 0 (lag + 1) ?F"
    by (rule nth_equalityI) auto
  ultimately show ?thesis using xc by (simp add: rnn_autocorr_def Let_def)
qed

lemma foldl_sum_from:
  "m \<le> n \<Longrightarrow> foldl (\<lambda>s j. s + f j) (s::'a::comm_monoid_add) [m..<n] = s + (\<Sum>j=m..<n. f j)"
  by (induction n) (auto simp: ac_simps le_Suc_eq)

lemma autocorr_split:
  fixes x :: "'a::comm_semiring_0 list"
  assumes "k \<le> lag" "lag \<le> n"
  shows "dot x 0 x k (n - lag) 0 + dot_rest x k (k + (n - lag)) n = (\<Sum>j<n - k. x ! j * x ! (j + k))"
proof -
  have "dot_rest x k (k + (n - lag)) n = (\<Sum>i=k + (n - lag)..<n. x ! i * x ! (i - k))"
    unfolding dot_rest_def using assms by (subst foldl_sum_from) auto
  also have "\<dots> = (\<Sum>j=n - lag..<n - k. x ! j * x ! (j + k))"
    by (rule sum.reindex_bij_witness [of _ "\<lambda>j. j + k" "\<lambda>i. i - k"]) (use assms in \<open>auto simp: mult.commute\<close>)
  finally have rest: "dot_rest x k (k + (n - lag)) n = (\<Sum>j=n - lag..<n - k. x ! j * x ! (j + k))" .
  have "(\<Sum>j<n - k. x ! j * x ! (j + k)) =
      (\<Sum>j<n - lag. x ! j * x ! (j + k)) + (\<Sum>j=n - lag..<n - k. x ! j * x ! (j + k))"
    using assms sum.atLeastLessThan_concat [of 0 "n - lag" "n - k" "\<lambda>j. x ! j * x ! (j + k)"]
    by (simp add: lessThan_atLeast0)
  then show ?thesis by (simp add: rest dot_sum add.commute)
qed

section \<open>The recursion of Levinson and Durbin\<close>

definition lag_dist :: "nat \<Rightarrow> nat \<Rightarrow> nat" where
  "lag_dist m j = (m - j) + (j - m)"

text \<open>The normal equations of order \<open>i\<close>, and the prediction error.\<close>

definition normal_eqs :: "(nat \<Rightarrow> real) \<Rightarrow> (nat \<Rightarrow> real) \<Rightarrow> nat \<Rightarrow> bool" where
  "normal_eqs a l i = (\<forall>m<i. a (m + 1) + (\<Sum>j<i. l j * a (lag_dist m j)) = 0)"

definition pred_error :: "(nat \<Rightarrow> real) \<Rightarrow> (nat \<Rightarrow> real) \<Rightarrow> nat \<Rightarrow> real" where
  "pred_error a l i = a 0 + (\<Sum>j<i. l j * a (j + 1))"

lemma sum_flip: "(\<Sum>j<i. l (i - Suc j) * f j) = (\<Sum>j<i. l j * f (i - Suc j) :: real)"
  by (rule sum.reindex_bij_witness [of _ "\<lambda>j. i - Suc j" "\<lambda>j. i - Suc j"]) auto

lemma levinson_step:
  assumes yw: "normal_eqs a l i" and e: "pred_error a l i = e" "e \<noteq> 0"
    and r: "r = - ((\<Sum>j<i. l j * a (i - j)) + a (i + 1)) / e"
    and l': "\<And>j. j < i \<Longrightarrow> l' j = l j + r * l (i - Suc j)" "l' i = r"
  shows "normal_eqs a l' (Suc i)" "pred_error a l' (Suc i) = e - r * r * e"
proof -
  have split: "(\<Sum>j<Suc i. l' j * f j) = (\<Sum>j<i. l j * f j) + r * (\<Sum>j<i. l j * f (i - Suc j)) + r * f i"
    for f :: "nat \<Rightarrow> real"
  proof -
    have "(\<Sum>j<i. l' j * f j) = (\<Sum>j<i. l j * f j + r * (l (i - Suc j) * f j))"
      using l'(1) by (intro sum.cong) (auto simp: algebra_simps)
    then show ?thesis by (simp add: l'(2) sum.distrib sum_distrib_left [symmetric] sum_flip [of l i f])
  qed
  have rr: "(\<Sum>j<i. l j * a (i - j)) + a (i + 1) = - (r * e)" using e(2) by (simp add: r)
  show "normal_eqs a l' (Suc i)"
    unfolding normal_eqs_def
  proof (intro allI impI)
    fix m assume m: "m < Suc i"
    have turn: "(\<Sum>j<i. l j * a (lag_dist m (i - Suc j))) = (\<Sum>j<i. l j * a (if m = i then j + 1 else lag_dist (i - Suc m) j))"
      using m by (intro sum.cong) (auto simp: lag_dist_def intro!: arg_cong [where f = a])
    show "a (m + 1) + (\<Sum>j<Suc i. l' j * a (lag_dist m j)) = 0"
    proof (cases "m = i")
      case True
      have "(\<Sum>j<i. l j * a (lag_dist i j)) = (\<Sum>j<i. l j * a (i - j))"
        by (intro sum.cong) (auto simp: lag_dist_def)
      then have "a (m + 1) + (\<Sum>j<Suc i. l' j * a (lag_dist m j)) =
          - (r * e) + r * ((\<Sum>j<i. l j * a (j + 1)) + a 0)"
        using rr turn True unfolding split by (simp add: algebra_simps lag_dist_def)
      then show ?thesis using e(1) by (simp add: pred_error_def add.commute)
    next
      case False
      then have lt: "m < i" using m by simp
      have "a (m + 1) + (\<Sum>j<Suc i. l' j * a (lag_dist m j)) =
          (a (m + 1) + (\<Sum>j<i. l j * a (lag_dist m j))) +
          r * (a (Suc (i - Suc m)) + (\<Sum>j<i. l j * a (lag_dist (i - Suc m) j)))"
        using turn lt unfolding split by (simp add: algebra_simps lag_dist_def Suc_diff_Suc)
      also have "\<dots> = 0" using yw lt by (simp add: normal_eqs_def)
      finally show ?thesis .
    qed
  qed
  have "(\<Sum>j<i. l j * a (i - Suc j + 1)) = (\<Sum>j<i. l j * a (i - j))"
    by (intro sum.cong) (auto intro!: arg_cong [where f = a])
  then have "pred_error a l' (Suc i) = pred_error a l i + r * ((\<Sum>j<i. l j * a (i - j)) + a (i + 1))"
    unfolding pred_error_def split by (simp add: algebra_simps)
  then show "pred_error a l' (Suc i) = e - r * r * e"
    unfolding rr e(1) by (simp add: algebra_simps)
qed

definition pair_value :: "real \<Rightarrow> nat \<Rightarrow> real list \<Rightarrow> nat \<Rightarrow> real" where
  "pair_value r i l j = l ! j + r * l ! (i - Suc j)"

text \<open>The in-place update from both ends, the middle one included when \<open>i\<close> is odd.\<close>

lemma lpc_pairs:
  assumes "i \<le> length l"
  shows "ofold (lpc_pair r i) [0..<(i + 1) div 2] l =
    Some (map (\<lambda>k. if k < i then pair_value r i l k else l ! k) [0..<length l])"
proof -
  let ?g = "\<lambda>J. map (\<lambda>k. if k < i \<and> (k < J \<or> i - Suc k < J) then pair_value r i l k else l ! k) [0..<length l]"
  have "ofold (lpc_pair r i) [0..<(i + 1) div 2] l = Some (?g ((i + 1) div 2))"
  proof (rule ofold_upt [where g = ?g])
    fix j assume "j < (i + 1) div 2"
    then have j: "j \<le> i - Suc j" "j < i" by linarith+
    define k where "k = i - Suc j"
    have k: "i - Suc j = k" "k < length l" "k < i" "j \<le> k" "i - Suc k = j" "j < length l"
      using j assms unfolding k_def by auto
    then have pos: "int i - 1 - int j = int k" by linarith
    have got: "rd (?g j) (int j) = Some (l ! j)" "rd (?g j) (int k) = Some (l ! k)"
      using k by (simp_all add: rd_nat)
    have upd: "(?g j)[j := l ! j + r * l ! k, k := l ! k + r * l ! j] = ?g (Suc j)"
      by (rule nth_equalityI) (use k in \<open>auto simp: nth_list_update pair_value_def\<close>)
    show "lpc_pair r i j (?g j) = Some (?g (Suc j))"
      unfolding lpc_pair_def pos got Option.bind.simps(2)
      using upd k(2,6) by (simp add: wr_nat)
  qed (auto intro: map_nth)
  moreover have "k < (i + 1) div 2 \<or> i - Suc k < (i + 1) div 2" if "k < i" for k
    using that by linarith
  ultimately show ?thesis by (auto intro!: map_cong)
qed

definition reflection :: "real list \<Rightarrow> nat \<Rightarrow> real list \<Rightarrow> real \<Rightarrow> real" where
  "reflection ac i l e = - ((\<Sum>j<i. l ! j * ac ! (i - j)) + ac ! (i + 1)) / e"

lemma lpc_order_value:
  fixes e :: real
  assumes "i < length l" "i + 1 < length ac" "reflection ac i l e = r"
  shows "lpc_order ac i (l, e) =
    Some (map (\<lambda>k. if k < i then pair_value r i l k else if k = i then r else l ! k) [0..<length l],
      e - r * r * e)"
proof -
  have loop: "ofold (\<lambda>j rr. do {
         v \<leftarrow> rd l (int j);
         a \<leftarrow> rd ac (int i - int j);
         Some (rr + v * a)
       }) [0..<i] 0 = Some (\<Sum>j<i. l ! j * ac ! (i - j))"
  proof (rule ofold_upt [where g = "\<lambda>n. \<Sum>j<n. l ! j * ac ! (i - j)"])
    fix j assume "j < i"
    moreover from this have "rd ac (int i - int j) = Some (ac ! (i - j))"
      using assms by (intro rd_at) auto
    ultimately show "do {
         v \<leftarrow> rd l (int j);
         a \<leftarrow> rd ac (int i - int j);
         Some ((\<Sum>j<j. l ! j * ac ! (i - j)) + v * a)
       } = Some (\<Sum>j<Suc j. l ! j * ac ! (i - j))"
      using assms by (simp add: rd_nat)
  qed simp
  have a: "rd ac (int i + 1) = Some (ac ! (i + 1))" using assms by (intro rd_at) auto
  have "map (\<lambda>k. if k < i then pair_value r i (l[i := r]) k else l[i := r] ! k) [0..<length l] =
      map (\<lambda>k. if k < i then pair_value r i l k else if k = i then r else l ! k) [0..<length l]"
    using assms by (auto simp: pair_value_def nth_list_update)
  then show ?thesis
    unfolding lpc_order_def Let_def case_prod_conv loop Option.bind.simps(2) a assms(3) [unfolded reflection_def]
    using assms lpc_pairs [of i "l[i := r]" r] by (simp add: wr_nat)
qed

lemma lpc_order_levinson:
  fixes e :: real
  assumes "i < length l" "i + 1 < length ac" "e \<noteq> 0"
    and "normal_eqs ((!) ac) ((!) l) i" "pred_error ((!) ac) ((!) l) i = e"
  obtains l' e' where "lpc_order ac i (l, e) = Some (l', e')" "length l' = length l"
    "normal_eqs ((!) ac) ((!) l') (Suc i)" "pred_error ((!) ac) ((!) l') (Suc i) = e'"
    "\<forall>j. i < j \<longrightarrow> j < length l \<longrightarrow> l' ! j = l ! j"
proof -
  let ?r = "reflection ac i l e"
  let ?l = "map (\<lambda>k. if k < i then pair_value ?r i l k else if k = i then ?r else l ! k) [0..<length l]"
  have l': "?l ! j = l ! j + ?r * l ! (i - Suc j)" if "j < i" for j
    using that assms(1) by (simp add: pair_value_def)
  have "?l ! i = ?r" using assms(1) by simp
  note step = levinson_step [OF assms(4,5,3) reflection_def l' this]
  show ?thesis
    by (rule that [OF lpc_order_value [OF assms(1,2) refl]]) (use step in simp_all)
qed

lemma lpc_loop_levinson:
  fixes e :: real
  assumes "i \<le> p" "length l = p" "p < length ac" "0 < ac0" "e \<noteq> 0"
    and "normal_eqs ((!) ac) ((!) l) i" "pred_error ((!) ac) ((!) l) i = e"
    and "\<forall>j. i \<le> j \<longrightarrow> j < p \<longrightarrow> l ! j = 0"
  shows "\<exists>l' e' q. lpc_loop ac ac0 [i..<p] (l, e) = Some (l', e') \<and> q \<le> p \<and> length l' = p \<and>
    normal_eqs ((!) ac) ((!) l') q \<and> pred_error ((!) ac) ((!) l') q = e' \<and>
    (\<forall>j. q \<le> j \<longrightarrow> j < p \<longrightarrow> l' ! j = 0) \<and> (q < p \<longrightarrow> e' < 0.001 * ac0)"
  using assms
proof (induction "p - i" arbitrary: i l e)
  case 0
  then show ?case by (intro exI [of _ l] exI [of _ e] exI [of _ p]) auto
next
  case (Suc n)
  then have i: "i < p" "[i..<p] = i # [Suc i..<p]" by (simp_all add: upt_conv_Cons)
  obtain l1 e1 where 1: "lpc_order ac i (l, e) = Some (l1, e1)" "length l1 = length l"
    "normal_eqs ((!) ac) ((!) l1) (Suc i)" "pred_error ((!) ac) ((!) l1) (Suc i) = e1"
    "\<forall>j. i < j \<longrightarrow> j < length l \<longrightarrow> l1 ! j = l ! j"
    using lpc_order_levinson [of i l ac e] i Suc.prems by auto
  have z: "\<forall>j. Suc i \<le> j \<longrightarrow> j < p \<longrightarrow> l1 ! j = 0" using 1(5) Suc.prems by auto
  show ?case
  proof (cases "e1 < 0.001 * ac0")
    case True
    then show ?thesis
      unfolding i(2) using 1 z i Suc.prems(2)
      by (intro exI [of _ l1] exI [of _ e1] exI [of _ "Suc i"]) simp
  next
    case False
    then have "e1 \<noteq> 0" using Suc.prems(4) by auto
    then have "\<exists>l' e' q. lpc_loop ac ac0 [Suc i..<p] (l1, e1) = Some (l', e') \<and> q \<le> p \<and> length l' = p \<and>
        normal_eqs ((!) ac) ((!) l') q \<and> pred_error ((!) ac) ((!) l') q = e' \<and>
        (\<forall>j. q \<le> j \<longrightarrow> j < p \<longrightarrow> l' ! j = 0) \<and> (q < p \<longrightarrow> e' < 0.001 * ac0)"
      using Suc.hyps i 1 z Suc.prems by (intro Suc.hyps(1)) auto
    moreover have "lpc_loop ac ac0 [i..<p] (l, e) = lpc_loop ac ac0 [Suc i..<p] (l1, e1)"
      unfolding i(2) using 1(1) False by simp
    ultimately show ?thesis by simp
  qed
qed

lemma clear_loop:
  assumes "length l = p"
  shows "ofold (\<lambda>i l. wr l (int i) 0) [0..<p] l = Some (replicate p (0::'a::zero))"
proof -
  have "ofold (\<lambda>i l. wr l (int i) 0) [0..<p] l = Some (seg_upd l 0 p (\<lambda>_. 0))"
    by (rule ofold_seg) (use assms in \<open>auto simp: wr_nat\<close>)
  also have "seg_upd l 0 p (\<lambda>_. 0) = replicate p 0"
    by (rule nth_equalityI) (use assms in auto)
  finally show ?thesis .
qed

lemma rnn_lpc_levinson:
  fixes ac :: "real list"
  assumes "length l = p" "p < length ac" "0 < ac ! 0"
  shows "\<exists>l' q. rnn_lpc l ac p = Some l' \<and> q \<le> p \<and> length l' = p \<and> normal_eqs ((!) ac) ((!) l') q \<and>
    (\<forall>j. q \<le> j \<longrightarrow> j < p \<longrightarrow> l' ! j = 0) \<and>
    (q < p \<longrightarrow> pred_error ((!) ac) ((!) l') q < 0.001 * ac ! 0)"
proof -
  have "rd ac 0 = Some (ac ! 0)" using assms(2) by (intro rd_at) auto
  moreover have "\<exists>l' e' q. lpc_loop ac (ac ! 0) [0..<p] (replicate p 0, ac ! 0) = Some (l', e') \<and> q \<le> p \<and> length l' = p \<and>
    normal_eqs ((!) ac) ((!) l') q \<and> pred_error ((!) ac) ((!) l') q = e' \<and>
    (\<forall>j. q \<le> j \<longrightarrow> j < p \<longrightarrow> l' ! j = 0) \<and> (q < p \<longrightarrow> e' < 0.001 * ac ! 0)"
    by (rule lpc_loop_levinson) (use assms in \<open>auto simp: normal_eqs_def pred_error_def\<close>)
  ultimately show ?thesis using assms by (auto simp: rnn_lpc_def clear_loop)
qed

section \<open>The search (\<open>pitch.c\<close>)\<close>

record 'a best =
  num_0 :: 'a
  num_1 :: 'a
  den_0 :: 'a
  den_1 :: 'a
  pitch_0 :: int
  pitch_1 :: int

definition best_init :: "'a::{zero,one,uminus} best" where
  "best_init = \<lparr>num_0 = - 1, num_1 = - 1, den_0 = 0, den_1 = 0, pitch_0 = 0, pitch_1 = 1\<rparr>"

text \<open>The candidate \<open>i\<close> with numerator \<open>num\<close> over the energy \<open>Syy\<close>; fractions are compared crosswise.\<close>

definition best_offer :: "int \<Rightarrow> 'a::{times,ord} \<Rightarrow> 'a \<Rightarrow> 'a best \<Rightarrow> 'a best" where
  "best_offer i num Syy b =
     (if num_1 b * Syy < num * den_1 b then
        if num_0 b * Syy < num * den_0 b then
          \<lparr>num_0 = num, num_1 = num_0 b, den_0 = Syy, den_1 = den_0 b, pitch_0 = i, pitch_1 = pitch_0 b\<rparr>
        else b\<lparr>num_1 := num, den_1 := Syy, pitch_1 := i\<rparr>
      else b)"

definition find_best_step ::
  "'a::{zero,one,plus,minus,times,ord,scaleR} list \<Rightarrow> 'a list \<Rightarrow> nat \<Rightarrow> nat \<Rightarrow> 'a best \<times> 'a \<Rightarrow>
   ('a best \<times> 'a) option" where
  "find_best_step xcorr y len i = (\<lambda>(b, Syy). do {
     xc \<leftarrow> rd xcorr (int i);
     let b = (if 0 < xc then let xcorr16 = xc * lit (1 / 10 ^ 12) in best_offer (int i) (xcorr16 * xcorr16) Syy b
              else b);
     v \<leftarrow> rd y (int (i + len));
     u \<leftarrow> rd y (int i);
     let Syy = Syy + (v * v - u * u);
     Some (b, MAX32 1 Syy)
   })"

definition find_best_pitch ::
  "'a::{zero,one,plus,minus,uminus,times,ord,scaleR} list \<Rightarrow> 'a list \<Rightarrow> nat \<Rightarrow> nat \<Rightarrow> (int \<times> int) option" where
  "find_best_pitch xcorr y len max_pitch = do {
     Syy \<leftarrow> ofold (\<lambda>j Syy. do { v \<leftarrow> rd y (int j); Some (Syy + v * v) }) [0..<len] 1;
     (b, Syy) \<leftarrow> ofold (find_best_step xcorr y len) [0..<max_pitch] (best_init, Syy);
     Some (pitch_0 b, pitch_1 b)
   }"

definition every_second :: "'a::zero list \<Rightarrow> int \<Rightarrow> nat \<Rightarrow> nat \<Rightarrow> 'a list option" where
  "every_second x px n room =
     ofold (\<lambda>j out. do { v \<leftarrow> rd x (px + 2 * int j); wr out (int j) v }) [0..<n] (replicate room 0)"

definition fine_xcorr ::
  "'a::{zero,one,plus,uminus,times,ord} list \<Rightarrow> int \<Rightarrow> 'a list \<Rightarrow> nat \<Rightarrow> nat \<Rightarrow> int \<times> int \<Rightarrow> 'a list \<Rightarrow> 'a list option" where
  "fine_xcorr x_lp px y len max_pitch best_pitch xcorr =
     ofold (\<lambda>i xcorr. do {
         xcorr \<leftarrow> wr xcorr (int i) 0;
         if 2 < \<bar>int i - 2 * fst best_pitch\<bar> \<and> 2 < \<bar>int i - 2 * snd best_pitch\<bar> then Some xcorr
         else do {
           acc \<leftarrow> celt_inner_prod x_lp px y (int i) (len div 2);
           wr xcorr (int i) (MAX32 (- 1) acc)
         }
       }) [0..<max_pitch div 2] xcorr"

text \<open>The step to a neighbour: -1, 0 or 1.\<close>

definition pseudo_interp :: "'a::{one,minus,times,ord,scaleR} \<Rightarrow> 'a \<Rightarrow> 'a \<Rightarrow> int" where
  "pseudo_interp a b c =
     (if lit 0.7 * (b - a) < c - a then 1 else if lit 0.7 * (b - c) < a - c then - 1 else 0)"

definition rnn_pitch_search ::
  "'a::{zero,one,plus,minus,uminus,times,ord,scaleR} list \<Rightarrow> int \<Rightarrow> 'a list \<Rightarrow> nat \<Rightarrow> nat \<Rightarrow> int option" where
  "rnn_pitch_search x_lp px y len max_pitch = do {
     let lag = len + max_pitch;
     x_lp4 \<leftarrow> every_second x_lp px (len div 4) (PITCH_FRAME_SIZE div 4);
     y_lp4 \<leftarrow> every_second y 0 (lag div 4) ((PITCH_FRAME_SIZE + PITCH_MAX_PERIOD) div 4);
     xcorr \<leftarrow> rnn_pitch_xcorr x_lp4 0 y_lp4 0 (replicate (PITCH_MAX_PERIOD div 2) 0) (len div 4) (max_pitch div 4);
     best_pitch \<leftarrow> find_best_pitch xcorr y_lp4 (len div 4) (max_pitch div 4);
     xcorr \<leftarrow> fine_xcorr x_lp px y len max_pitch best_pitch xcorr;
     (p0, p1) \<leftarrow> find_best_pitch xcorr y (len div 2) (max_pitch div 2);
     offset \<leftarrow>
       (if 0 < p0 \<and> p0 < int (max_pitch div 2) - 1 then do {
          a \<leftarrow> rd xcorr (p0 - 1);
          b \<leftarrow> rd xcorr p0;
          c \<leftarrow> rd xcorr (p0 + 1);
          Some (pseudo_interp a b c)
        }
        else Some 0);
     Some (2 * p0 - offset)
   }"

section \<open>Removing octave errors (\<open>pitch.c\<close>)\<close>

definition compute_pitch_gain ::
  "'a::{one,plus,times,inverse} libm \<Rightarrow> 'a \<Rightarrow> 'a \<Rightarrow> 'a \<Rightarrow> 'a" where
  "compute_pitch_gain m xy xx yy = xy / c_sqrt m (1 + xx * yy)"

definition second_check :: "int list" where
  "second_check = [0, 0, 3, 2, 3, 2, 5, 2, 3, 2, 3, 2, 5, 2, 3, 2]"

definition yy_table ::
  "'a::{zero,plus,minus,times,ord} list \<Rightarrow> int \<Rightarrow> nat \<Rightarrow> int \<Rightarrow> 'a \<Rightarrow> 'a list option" where
  "yy_table x px maxperiod N xx = do {
     yy_lookup \<leftarrow> wr (replicate (PITCH_MAX_PERIOD + 1) 0) 0 xx;
     (yy, yy_lookup) \<leftarrow> ofold (\<lambda>i (yy, yy_lookup). do {
         a \<leftarrow> rd x (px - int i);
         b \<leftarrow> rd x (px + N - int i);
         let yy = yy + a * a - b * b;
         yy_lookup \<leftarrow> wr yy_lookup (int i) (MAX32 0 yy);
         Some (yy, yy_lookup)
       }) [1..<maxperiod + 1] (xx, yy_lookup);
     Some yy_lookup
   }"

text \<open>How much a candidate near the last period is favoured, and the gain it has to exceed.\<close>

definition continuity ::
  "'a::{zero,one,times,scaleR} \<Rightarrow> int \<Rightarrow> int \<Rightarrow> int \<Rightarrow> int \<Rightarrow> 'a" where
  "continuity prev_gain T1 prev_period k T0 =
     (if \<bar>T1 - prev_period\<bar> \<le> 1 then prev_gain
      else if \<bar>T1 - prev_period\<bar> \<le> 2 \<and> 5 * k * k < T0 then HALF32 prev_gain
      else 0)"

definition doubling_threshold ::
  "'a::{one,minus,times,ord,scaleR} \<Rightarrow> 'a \<Rightarrow> int \<Rightarrow> int \<Rightarrow> 'a" where
  "doubling_threshold g0 cont T1 minperiod =
     (let thresh = MAX32 (lit 0.3) (lit 0.7 * g0 - cont)
      in if T1 < 3 * minperiod then MAX32 (lit 0.4) (lit 0.85 * g0 - cont)
         else if T1 < 2 * minperiod then MAX32 (lit 0.5) (lit 0.9 * g0 - cont)
         else thresh)"

record 'a doubling =
  best_xy :: 'a
  best_yy :: 'a
  best_T :: int
  best_g :: 'a

definition second_lag :: "int \<Rightarrow> int \<Rightarrow> int \<Rightarrow> int \<Rightarrow> int option" where
  "second_lag k T0 T1 maxperiod =
     (if k = 2 then Some (if T1 + T0 > maxperiod then T0 else T0 + T1)
      else do { s \<leftarrow> rd second_check k; Some (cdiv (2 * s * T0 + k) (2 * k)) })"

fun doubling_loop ::
  "'a::{zero,one,plus,minus,times,inverse,ord,scaleR} libm \<Rightarrow> 'a list \<Rightarrow> int \<Rightarrow> 'a list \<Rightarrow> int \<Rightarrow> int \<Rightarrow> nat \<Rightarrow>
   int \<Rightarrow> int \<Rightarrow> 'a \<Rightarrow> 'a \<Rightarrow> 'a \<Rightarrow> nat list \<Rightarrow> 'a doubling \<Rightarrow> 'a doubling option" where
  "doubling_loop m x px yy_lookup maxperiod minperiod N T0 prev_period prev_gain g0 xx [] d = Some d"
| "doubling_loop m x px yy_lookup maxperiod minperiod N T0 prev_period prev_gain g0 xx (i # ks) d =
     (let k = int i; T1 = cdiv (2 * T0 + k) (2 * k)
      in if T1 < minperiod then Some d
         else do {
           T1b \<leftarrow> second_lag k T0 T1 maxperiod;
           (xy, xy2) \<leftarrow> dual_inner_prod x px x (px - T1) x (px - T1b) N;
           let xy = HALF32 (xy + xy2);
           a \<leftarrow> rd yy_lookup T1;
           b \<leftarrow> rd yy_lookup T1b;
           let yy = HALF32 (a + b);
           let g1 = compute_pitch_gain m xy xx yy;
           let cont = continuity prev_gain T1 prev_period k T0;
           let thresh = doubling_threshold g0 cont T1 minperiod;
           doubling_loop m x px yy_lookup maxperiod minperiod N T0 prev_period prev_gain g0 xx ks
             (if thresh < g1 then \<lparr>best_xy = xy, best_yy = yy, best_T = T1, best_g = g1\<rparr> else d)
         })"

definition rnn_remove_doubling ::
  "'a::{zero,one,plus,minus,times,inverse,ord,scaleR} libm \<Rightarrow> 'a list \<Rightarrow> nat \<Rightarrow> nat \<Rightarrow> nat \<Rightarrow> int \<Rightarrow> int \<Rightarrow> 'a \<Rightarrow>
   ('a \<times> int) option" where
  "rnn_remove_doubling m x maxperiod0 minperiod0 N0 Tp prev_period prev_gain = do {
     let maxperiod = maxperiod0 div 2;
     let minperiod = int minperiod0 div 2;
     let Tp = cdiv Tp 2;
     let prev_period = cdiv prev_period 2;
     let N = N0 div 2;
     let px = int maxperiod;
     let T0 = (if int maxperiod \<le> Tp then int maxperiod - 1 else Tp);
     (xx, xy) \<leftarrow> dual_inner_prod x px x px x (px - T0) N;
     yy_lookup \<leftarrow> yy_table x px maxperiod (int N) xx;
     yy \<leftarrow> rd yy_lookup T0;
     let g0 = compute_pitch_gain m xy xx yy;
     d \<leftarrow> doubling_loop m x px yy_lookup (int maxperiod) minperiod N T0 prev_period prev_gain g0 xx [2..<16]
        \<lparr>best_xy = xy, best_yy = yy, best_T = T0, best_g = g0\<rparr>;
     let bxy = MAX32 0 (best_xy d);
     let pg = (if best_yy d \<le> bxy then 1 else bxy / (best_yy d + 1));
     x0 \<leftarrow> celt_inner_prod x px x (px - (best_T d - 1)) N;
     x1 \<leftarrow> celt_inner_prod x px x (px - best_T d) N;
     x2 \<leftarrow> celt_inner_prod x px x (px - (best_T d + 1)) N;
     let offset = pseudo_interp x0 x1 x2;
     let pg = (if best_g d < pg then best_g d else pg);
     let T = 2 * best_T d + offset;
     Some (pg, if T < int minperiod0 then int minperiod0 else T)
   }"

section \<open>Every index is in range, whatever the samples\<close>

text \<open>
  Nothing is assumed of the arithmetic here, so these bounds also hold when a sample is NaN or
  a sum overflows.
\<close>

lemma celt_inner_prod_total:
  assumes "0 \<le> px" "px + int N \<le> int (length x)" "0 \<le> py" "py + int N \<le> int (length y)"
  shows "\<exists>v. celt_inner_prod x px y py N = Some v"
  using inner_prod_dot [of "nat px" N x "nat py" y] assms by auto

lemma dual_inner_prod_total:
  assumes "0 \<le> px" "px + int N \<le> int (length x)" "0 \<le> p1" "p1 + int N \<le> int (length y1)"
    "0 \<le> p2" "p2 + int N \<le> int (length y2)"
  shows "\<exists>v w. dual_inner_prod x px y1 p1 y2 p2 N = Some (v, w)"
  using dual_inner_prod_dot [of "nat px" N x "nat p1" y1 "nat p2" y2] assms by auto

definition in_best :: "nat \<Rightarrow> 'a best \<Rightarrow> bool" where
  "in_best n b \<longleftrightarrow> 0 \<le> pitch_0 b \<and> (pitch_0 b = 0 \<or> pitch_0 b < int n)"

lemma best_offer_in: "in_best i b \<Longrightarrow> in_best (Suc i) (best_offer (int i) num Syy b)"
  by (auto simp: best_offer_def in_best_def)

lemma find_best_pitch_total:
  assumes "max_pitch \<le> length xcorr" "len + max_pitch \<le> length y"
  shows "\<exists>p0 p1. find_best_pitch xcorr y len max_pitch = Some (p0, p1) \<and> 0 \<le> p0 \<and> (p0 = 0 \<or> p0 < int max_pitch)"
proof -
  obtain S where S: "ofold (\<lambda>j Syy. do { v \<leftarrow> rd y (int j); Some (Syy + v * v) }) [0..<len] 1 = Some S"
    using ofold_upt [of len "\<lambda>j Syy. do { v \<leftarrow> rd y (int j); Some (Syy + v * v) }"
        "\<lambda>n. foldl (\<lambda>s j. s + y ! j * y ! j) 1 [0..<n]"] assms(2) by (simp add: rd_nat)
  have "\<exists>s'. ofold (find_best_step xcorr y len) [0..<max_pitch] (best_init, S) = Some s' \<and> in_best max_pitch (fst s')"
  proof (rule ofold_inv)
    fix i and s :: "'a best \<times> 'a"
    assume i: "i < max_pitch" "in_best i (fst s)"
    then have "in_best (Suc i) (fst s)" by (auto simp: in_best_def)
    moreover have "rd xcorr (int i) = Some (xcorr ! i)" "rd y (int i + int len) = Some (y ! (i + len))"
      "rd y (int i) = Some (y ! i)"
      using i assms by (auto intro!: rd_at)
    ultimately show "\<exists>s'. find_best_step xcorr y len i s = Some s' \<and> in_best (Suc i) (fst s')"
      using best_offer_in [OF i(2)] by (cases s) (simp add: find_best_step_def Let_def)
  qed (simp add: in_best_def best_init_def)
  then show ?thesis by (auto simp: find_best_pitch_def S in_best_def)
qed

lemma every_second_total:
  assumes "0 \<le> px" "px + 2 * int n \<le> int (length x) + 1" "n \<le> room"
  shows "\<exists>out. every_second x px n room = Some out \<and> length out = room"
  unfolding every_second_def
proof (rule ofold_inv)
  fix j and s :: "'a list"
  assume "j < n" "length s = room"
  moreover from this obtain v where "rd x (px + 2 * int j) = Some v"
    using assms rd_ex [of "px + 2 * int j" x] by auto
  ultimately show "\<exists>s'. do { v \<leftarrow> rd x (px + 2 * int j); wr s (int j) v } = Some s' \<and> length s' = room"
    using assms by (simp add: wr_nat)
qed simp

lemma fine_xcorr_total:
  assumes "0 \<le> px" "px + int (len div 2) \<le> int (length x)" "len div 2 + max_pitch div 2 \<le> length y"
    "max_pitch div 2 \<le> length xcorr"
  shows "\<exists>out. fine_xcorr x px y len max_pitch bp xcorr = Some out \<and> length out = length xcorr"
  unfolding fine_xcorr_def
proof (rule ofold_inv)
  fix i and s :: "'a list"
  assume i: "i < max_pitch div 2" "length s = length xcorr"
  then obtain v where "celt_inner_prod x px y (int i) (len div 2) = Some v"
    using celt_inner_prod_total [of px "len div 2" x "int i" y] assms by auto
  then show "\<exists>s'. do {
         xcorr \<leftarrow> wr s (int i) 0;
         if 2 < \<bar>int i - 2 * fst bp\<bar> \<and> 2 < \<bar>int i - 2 * snd bp\<bar> then Some xcorr
         else do {
           acc \<leftarrow> celt_inner_prod x px y (int i) (len div 2);
           wr xcorr (int i) (MAX32 (- 1) acc)
         }
       } = Some s' \<and> length s' = length xcorr"
    using i assms(4) by (simp add: wr_nat)
qed simp

lemma pseudo_interp_cases: "pseudo_interp a b c = - 1 \<or> pseudo_interp a b c = 0 \<or> pseudo_interp a b c = 1"
  by (simp add: pseudo_interp_def)

lemma pitch_search_range:
  fixes x :: "'a::{zero,one,plus,minus,uminus,times,ord,scaleR} list"
  assumes "0 \<le> px" "px + int (len div 2) \<le> int (length x)" "len \<le> PITCH_FRAME_SIZE"
    and "len div 2 + max_pitch div 2 \<le> length y" "2 \<le> max_pitch" "max_pitch \<le> PITCH_MAX_PERIOD"
  shows "\<exists>p. rnn_pitch_search x px y len max_pitch = Some p \<and> 0 \<le> p \<and> p \<le> int max_pitch - 2"
proof -
  have sz: "len div 4 \<le> 240" "max_pitch div 4 \<le> 192" "(len + max_pitch) div 4 \<le> 432" "max_pitch div 2 \<le> 384"
    "len div 4 + max_pitch div 4 \<le> 432" "0 < max_pitch div 2" "2 * (max_pitch div 2) \<le> max_pitch"
    using assms(3,5,6) unfolding denoise_sizes by linarith+
  have "2 * (len div 4) \<le> len div 2" "2 * ((len + max_pitch) div 4) \<le> len div 2 + max_pitch div 2 + 1"
    by linarith+
  then have room: "px + 2 * int (len div 4) \<le> int (length x) + 1" "2 * int ((len + max_pitch) div 4) \<le> int (length y) + 1"
    using assms(2,4) by linarith+
  obtain x4 where x4: "every_second x px (len div 4) 240 = Some x4" "length x4 = 240"
    using every_second_total [OF assms(1) room(1) sz(1)] by blast
  obtain y4 where y4: "every_second y 0 ((len + max_pitch) div 4) 432 = Some y4" "length y4 = 432"
    using every_second_total [of 0 _ y, OF _ _ sz(3)] room(2) by auto
  obtain xc where xc: "rnn_pitch_xcorr x4 0 y4 0 (replicate 384 0) (len div 4) (max_pitch div 4) = Some xc" "length xc = 384"
    using pitch_xcorr_dot [of 0 "len div 4" x4 0 "max_pitch div 4" y4 "replicate 384 0"] sz x4(2) y4(2) by auto
  obtain bp where bp: "find_best_pitch xc y4 (len div 4) (max_pitch div 4) = Some bp"
    using find_best_pitch_total [of "max_pitch div 4" xc "len div 4" y4] sz xc(2) y4(2) by auto
  obtain xf where xf: "fine_xcorr x px y len max_pitch bp xc = Some xf" "length xf = 384"
    using fine_xcorr_total [OF assms(1,2,4), of xc bp] sz(4) xc(2) by auto
  obtain p0 p1 where p: "find_best_pitch xf y (len div 2) (max_pitch div 2) = Some (p0, p1)"
    "0 \<le> p0" "p0 = 0 \<or> p0 < int (max_pitch div 2)"
    using find_best_pitch_total [of "max_pitch div 2" xf "len div 2" y] sz(4) xf(2) assms(4) by auto
  have sizes: "PITCH_FRAME_SIZE div 4 = 240" "(PITCH_FRAME_SIZE + PITCH_MAX_PERIOD) div 4 = 432" "PITCH_MAX_PERIOD div 2 = 384"
    by (simp_all add: denoise_sizes)
  have run: "rnn_pitch_search x px y len max_pitch =
      do { offset \<leftarrow>
       (if 0 < p0 \<and> p0 < int (max_pitch div 2) - 1 then do {
          a \<leftarrow> rd xf (p0 - 1);
          b \<leftarrow> rd xf p0;
          c \<leftarrow> rd xf (p0 + 1);
          Some (pseudo_interp a b c)
        }
        else Some 0);
     Some (2 * p0 - offset) }"
    unfolding rnn_pitch_search_def sizes Let_def x4(1) y4(1) xc(1) bp xf(1) p(1) Option.bind.simps(2) case_prod_conv ..
  show ?thesis
  proof (cases "0 < p0 \<and> p0 < int (max_pitch div 2) - 1")
    case True
    then obtain a b c where "rd xf (p0 - 1) = Some a" "rd xf p0 = Some b" "rd xf (p0 + 1) = Some c"
      using rd_ex [of "p0 - 1" xf] rd_ex [of p0 xf] rd_ex [of "p0 + 1" xf] xf(2) sz(4) by auto
    then show ?thesis
      using True pseudo_interp_cases [of a b c] sz(7) unfolding run by auto
  next
    case False
    then have "rnn_pitch_search x px y len max_pitch = Some (2 * p0)" unfolding run if_not_P [OF False] by simp
    then show ?thesis using p(2,3) sz(6,7) assms(5) by auto
  qed
qed

lemma int_div_le: "0 < b \<Longrightarrow> a < b * (c + 1) \<Longrightarrow> a div b \<le> (c::int)"
proof -
  assume b: "0 < b" and a: "a < b * (c + 1)"
  have "b * (a div b) \<le> a" using b by (simp add: mult_div_mod_eq [symmetric] flip: minus_mod_eq_mult_div)
  then have "b * (a div b) < b * (c + 1)" using a by simp
  then show ?thesis using b by (simp add: mult_less_cancel_left_pos)
qed

lemma second_check_less: "\<forall>i\<in>set [3..<16]. 0 \<le> second_check ! i \<and> second_check ! i < int i"
  by code_simp

lemma second_check_rd:
  assumes "3 \<le> i" "i < 16"
  obtains s where "rd second_check (int i) = Some s" "0 \<le> s" "s < int i"
proof -
  have "rd second_check (int i) = Some (second_check ! i)"
    using assms(2) by (simp add: rd_nat second_check_def)
  moreover have "i \<in> set [3..<16]" using assms by (simp only: set_upt atLeastLessThan_iff simp_thms)
  ultimately show ?thesis using that second_check_less by blast
qed

lemma first_lag_range:
  assumes "0 < T0" "2 \<le> k"
  shows "0 \<le> cdiv (2 * T0 + k) (2 * k)" "cdiv (2 * T0 + k) (2 * k) \<le> T0"
proof -
  have "2 * T0 + k \<le> 2 * (k * T0) + 2 * k - 1"
    using assms mult_right_mono [of 2 k T0] mult_nonneg_nonneg [of k T0] by linarith
  then have "(2 * T0 + k) div (2 * k) \<le> T0"
    using assms by (intro int_div_le) (auto simp: algebra_simps)
  then show "0 \<le> cdiv (2 * T0 + k) (2 * k)" "cdiv (2 * T0 + k) (2 * k) \<le> T0"
    using assms by (simp_all add: cdiv_nonneg pos_imp_zdiv_nonneg_iff)
qed

lemma second_lag_range:
  assumes "0 < T0" "T0 \<le> M" "2 \<le> i" "i < 16" "0 \<le> T1"
  shows "\<exists>T1b. second_lag (int i) T0 T1 M = Some T1b \<and> 0 \<le> T1b \<and> T1b \<le> M"
proof (cases "i = 2")
  case True
  then show ?thesis using assms by (auto simp: second_lag_def)
next
  case False
  then obtain s where s: "rd second_check (int i) = Some s" "0 \<le> s" "s < int i"
    using second_check_rd [of i] assms(3,4) by auto
  have "(s + 1) * T0 \<le> int i * T0" using s assms(1) by (intro mult_right_mono) auto
  then have "2 * s * T0 + int i < 2 * int i * (T0 + 1)"
    using assms by (simp add: algebra_simps)
  then have "(2 * s * T0 + int i) div (2 * int i) \<le> T0" using assms by (intro int_div_le) auto
  moreover have "cdiv (2 * s * T0 + int i) (2 * int i) = (2 * s * T0 + int i) div (2 * int i)"
    using s assms by (intro cdiv_nonneg) auto
  moreover have "0 \<le> (2 * s * T0 + int i) div (2 * int i)"
    using s assms by (simp add: pos_imp_zdiv_nonneg_iff)
  ultimately show ?thesis using False s assms(2) by (auto simp: second_lag_def)
qed

lemma doubling_loop_total:
  assumes "0 < T0" "T0 < M" "px = M" "M + int N \<le> int (length x)" "M < int (length yy)" "1 \<le> minp"
    and "set ks \<subseteq> {2..<16}" "1 \<le> best_T d" "best_T d < M"
  shows "\<exists>d'. doubling_loop m x px yy M minp N T0 pp pg g0 xx ks d = Some d' \<and> 1 \<le> best_T d' \<and> best_T d' < M"
  using assms(7-9)
proof (induction ks arbitrary: d)
  case (Cons i ks)
  let ?T1 = "cdiv (2 * T0 + int i) (2 * int i)"
  have i: "2 \<le> i" "i < 16" using Cons.prems(1) by auto
  have T1: "0 \<le> ?T1" "?T1 \<le> T0" using first_lag_range [OF assms(1), of "int i"] i by auto
  show ?case
  proof (cases "?T1 < minp")
    case True
    then show ?thesis using Cons.prems by simp
  next
    case False
    obtain T1b where T1b: "second_lag (int i) T0 ?T1 M = Some T1b" "0 \<le> T1b" "T1b \<le> M"
      using second_lag_range [OF assms(1) _ i T1(1), of M] assms(2) by auto
    obtain xy xy2 where xy: "dual_inner_prod x px x (px - ?T1) x (px - T1b) N = Some (xy, xy2)"
      using dual_inner_prod_total [of px N x "px - ?T1" x "px - T1b" x] T1 T1b assms(1-4) by auto
    obtain a b where ab: "rd yy ?T1 = Some a" "rd yy T1b = Some b"
      using rd_ex [of ?T1 yy] rd_ex [of T1b yy] T1 T1b assms(2,5) by auto
    let ?xy = "HALF32 (xy + xy2)" and ?yy = "HALF32 (a + b)"
    let ?g1 = "compute_pitch_gain m ?xy xx ?yy"
    let ?d = "if doubling_threshold g0 (continuity pg ?T1 pp (int i) T0) ?T1 minp < ?g1
       then \<lparr>best_xy = ?xy, best_yy = ?yy, best_T = ?T1, best_g = ?g1\<rparr> else d"
    have "doubling_loop m x px yy M minp N T0 pp pg g0 xx (i # ks) d =
        doubling_loop m x px yy M minp N T0 pp pg g0 xx ks ?d"
      using False T1b(1) xy ab by (simp add: Let_def)
    moreover have "1 \<le> best_T ?d \<and> best_T ?d < M"
      using False T1 assms(2,6) Cons.prems(2,3) by auto
    ultimately show ?thesis using Cons.IH [of ?d] Cons.prems(1) by simp
  qed
qed simp

lemma yy_table_total:
  assumes "px = int M" "M + N \<le> length x" "M \<le> PITCH_MAX_PERIOD"
  shows "\<exists>t. yy_table x px M (int N) xx = Some t \<and> length t = PITCH_MAX_PERIOD + 1"
proof -
  let ?t = "(replicate (PITCH_MAX_PERIOD + 1) 0)[0 := xx]"
  have "\<exists>s'. ofold (\<lambda>i (yy, t). do {
         a \<leftarrow> rd x (px - int i);
         b \<leftarrow> rd x (px + int N - int i);
         let yy = yy + a * a - b * b;
         t \<leftarrow> wr t (int i) (MAX32 0 yy);
         Some (yy, t)
       }) [1..<M + 1] (xx, ?t) = Some s' \<and> length (snd s') = PITCH_MAX_PERIOD + 1"
  proof (rule ofold_inv_from)
    fix i and s :: "'a \<times> 'a list"
    assume i: "1 \<le> i" "i < M + 1" "length (snd s) = PITCH_MAX_PERIOD + 1"
    then obtain a b where "rd x (px - int i) = Some a" "rd x (px + int N - int i) = Some b"
      using rd_ex [of "px - int i" x] rd_ex [of "px + int N - int i" x] assms by auto
    then show "\<exists>s'. (case s of (yy, t) \<Rightarrow> do {
         a \<leftarrow> rd x (px - int i);
         b \<leftarrow> rd x (px + int N - int i);
         let yy = yy + a * a - b * b;
         t \<leftarrow> wr t (int i) (MAX32 0 yy);
         Some (yy, t)
       }) = Some s' \<and> length (snd s') = PITCH_MAX_PERIOD + 1"
      using i assms(3) by (cases s) (simp add: wr_nat Let_def)
  qed auto
  moreover have "wr (replicate (PITCH_MAX_PERIOD + 1) 0) 0 xx = Some ?t"
    by (simp add: wr_def)
  ultimately show ?thesis by (auto simp: yy_table_def)
qed

text \<open>The period returned lies between the smallest one allowed and the largest one searched.\<close>

lemma remove_doubling_range:
  fixes x :: "'a::{zero,one,plus,minus,times,inverse,ord,scaleR} list"
  assumes "maxp \<le> PITCH_MAX_PERIOD" "maxp div 2 + N div 2 \<le> length x" "4 \<le> maxp" "2 \<le> minp" "2 \<le> T"
  shows "\<exists>pg T'. rnn_remove_doubling m x maxp minp N T pp gain = Some (pg, T') \<and>
    int minp \<le> T' \<and> T' \<le> max (int minp) (int maxp - 1)"
proof -
  let ?M = "maxp div 2" and ?N = "N div 2"
  define T0 where "T0 = (if int ?M \<le> cdiv T 2 then int ?M - 1 else cdiv T 2)"
  have M: "2 \<le> ?M" "?M \<le> PITCH_MAX_PERIOD" "2 * ?M \<le> maxp" "1 \<le> int minp div 2"
    using assms(1,3,4) by linarith+
  have "1 \<le> cdiv T 2" using assms(5) by (subst cdiv_nonneg) linarith+
  then have T0: "0 < T0" "T0 < int ?M" using M(1) unfolding T0_def by auto
  obtain xx xy where xx: "dual_inner_prod x (int ?M) x (int ?M) x (int ?M - T0) ?N = Some (xx, xy)"
    using dual_inner_prod_total [of "int ?M" ?N x "int ?M" x "int ?M - T0" x] assms(2) T0 by auto
  obtain t where t: "yy_table x (int ?M) ?M (int ?N) xx = Some t" "length t = PITCH_MAX_PERIOD + 1"
    using yy_table_total [OF refl assms(2) M(2), of xx] by blast
  obtain yy where yy: "rd t T0 = Some yy" using rd_ex [of T0 t] T0 t(2) M(2) by auto
  let ?g0 = "compute_pitch_gain m xy xx yy"
  obtain d where d: "doubling_loop m x (int ?M) t (int ?M) (int minp div 2) ?N T0 (cdiv pp 2) gain ?g0 xx [2..<16]
      \<lparr>best_xy = xy, best_yy = yy, best_T = T0, best_g = ?g0\<rparr> = Some d" "1 \<le> best_T d" "best_T d < int ?M"
    using doubling_loop_total [of T0 "int ?M" "int ?M" ?N x t "int minp div 2" "[2..<16]"
        "\<lparr>best_xy = xy, best_yy = yy, best_T = T0, best_g = ?g0\<rparr>" m "cdiv pp 2" gain ?g0 xx]
      T0 M assms(2) t(2) by auto
  obtain x0 x1 x2 where c: "celt_inner_prod x (int ?M) x (int ?M - (best_T d - 1)) ?N = Some x0"
      "celt_inner_prod x (int ?M) x (int ?M - best_T d) ?N = Some x1"
      "celt_inner_prod x (int ?M) x (int ?M - (best_T d + 1)) ?N = Some x2"
    using celt_inner_prod_total [of "int ?M" ?N x "int ?M - (best_T d - 1)" x]
      celt_inner_prod_total [of "int ?M" ?N x "int ?M - best_T d" x]
      celt_inner_prod_total [of "int ?M" ?N x "int ?M - (best_T d + 1)" x] d(2,3) assms(2) by auto
  define T1 where "T1 = 2 * best_T d + pseudo_interp x0 x1 x2"
  have T1: "T1 \<le> int maxp - 1"
    using pseudo_interp_cases [of x0 x1 x2] d(3) M(3) unfolding T1_def by auto
  have "\<exists>pg. rnn_remove_doubling m x maxp minp N T pp gain = Some (pg, if T1 < int minp then int minp else T1)"
    unfolding rnn_remove_doubling_def Let_def T0_def [symmetric] xx t(1) yy d(1) c T1_def [symmetric]
      Option.bind.simps(2) case_prod_conv by blast
  then show ?thesis using T1 by auto
qed

section \<open>The search returns the best two candidates\<close>

text \<open>
  In exact arithmetic. The energy is the running one of the code, which never drops below 1; a
  candidate is a lag with a positive correlation, scored by correlation squared over energy.
\<close>

fun run_energy :: "real list \<Rightarrow> nat \<Rightarrow> nat \<Rightarrow> real" where
  "run_energy y len 0 = 1 + (\<Sum>j<len. y ! j * y ! j)"
| "run_energy y len (Suc i) = max 1 (run_energy y len i + (y ! (i + len) * y ! (i + len) - y ! i * y ! i))"

definition score :: "real list \<Rightarrow> real list \<Rightarrow> nat \<Rightarrow> nat \<Rightarrow> real" where
  "score xcorr y len i = (xcorr ! i)\<^sup>2 / run_energy y len i"

definition candidates :: "real list \<Rightarrow> nat \<Rightarrow> nat set" where
  "candidates xcorr n = {i. i < n \<and> 0 < xcorr ! i}"

lemma run_energy_ge_1: "1 \<le> run_energy y len i"
proof (cases i)
  case 0
  then show ?thesis by (simp add: sum_nonneg)
qed simp

text \<open>A slot of \<open>best\<close> that holds candidate \<open>i\<close>.\<close>

definition holds :: "real list \<Rightarrow> real list \<Rightarrow> nat \<Rightarrow> real \<Rightarrow> real \<Rightarrow> int \<Rightarrow> nat \<Rightarrow> bool" where
  "holds xcorr y len num den p i \<longleftrightarrow>
     p = int i \<and> num = (xcorr ! i * (1 / 10 ^ 12)) * (xcorr ! i * (1 / 10 ^ 12)) \<and> den = run_energy y len i"

definition best_of :: "real list \<Rightarrow> real list \<Rightarrow> nat \<Rightarrow> nat set \<Rightarrow> real best \<Rightarrow> bool" where
  "best_of xcorr y len S b \<longleftrightarrow>
     (S = {} \<and> b = best_init) \<or>
     (\<exists>i\<in>S. holds xcorr y len (num_0 b) (den_0 b) (pitch_0 b) i \<and> (\<forall>j\<in>S. score xcorr y len j \<le> score xcorr y len i) \<and>
        (S = {i} \<and> num_1 b = - 1 \<and> den_1 b = 0 \<or>
         (\<exists>k\<in>S - {i}. holds xcorr y len (num_1 b) (den_1 b) (pitch_1 b) k \<and>
            (\<forall>j\<in>S - {i}. score xcorr y len j \<le> score xcorr y len k))))"

lemma offer_less:
  assumes "holds xcorr y len num den p i"
  shows "num * run_energy y len k < (xcorr ! k * (1 / 10 ^ 12)) * (xcorr ! k * (1 / 10 ^ 12)) * den \<longleftrightarrow>
    score xcorr y len i < score xcorr y len k"
proof -
  let ?Ei = "run_energy y len i" and ?Ek = "run_energy y len k"
  have pos: "0 < ?Ei" "0 < ?Ek" using run_energy_ge_1 [of y len i] run_energy_ge_1 [of y len k] by linarith+
  have "num * ?Ek < (xcorr ! k * (1 / 10 ^ 12)) * (xcorr ! k * (1 / 10 ^ 12)) * den \<longleftrightarrow>
      (xcorr ! i)\<^sup>2 * ?Ek * (1 / 10 ^ 24) < (xcorr ! k)\<^sup>2 * ?Ei * (1 / 10 ^ 24)"
  proof -
    have n: "num = (xcorr ! i * (1 / 10 ^ 12)) * (xcorr ! i * (1 / 10 ^ 12))" "den = ?Ei"
      using assms by (simp_all add: holds_def)
    show ?thesis unfolding n by (simp add: power2_eq_square algebra_simps)
  qed
  also have "\<dots> \<longleftrightarrow> (xcorr ! i)\<^sup>2 * ?Ek < (xcorr ! k)\<^sup>2 * ?Ei"
    by simp
  also have "\<dots> \<longleftrightarrow> score xcorr y len i < score xcorr y len k"
    using pos by (simp add: score_def divide_less_eq less_divide_eq)
  finally show ?thesis .
qed

lemma best_of_two:
  "i \<in> S \<Longrightarrow> j \<in> S - {i} \<Longrightarrow> holds xcorr y len (num_0 b) (den_0 b) (pitch_0 b) i \<Longrightarrow>
   holds xcorr y len (num_1 b) (den_1 b) (pitch_1 b) j \<Longrightarrow>
   \<forall>x\<in>S. score xcorr y len x \<le> score xcorr y len i \<Longrightarrow>
   \<forall>x\<in>S - {i}. score xcorr y len x \<le> score xcorr y len j \<Longrightarrow> best_of xcorr y len S b"
  unfolding best_of_def by blast

lemma best_of_offer:
  assumes "best_of xcorr y len S b" "k \<notin> S" "0 < xcorr ! k" "\<forall>i\<in>S. 0 < xcorr ! i"
  shows "best_of xcorr y len (insert k S)
    (best_offer (int k) ((xcorr ! k * (1 / 10 ^ 12)) * (xcorr ! k * (1 / 10 ^ 12))) (run_energy y len k) b)"
proof -
  let ?n = "(xcorr ! k * (1 / 10 ^ 12)) * (xcorr ! k * (1 / 10 ^ 12))" and ?E = "run_energy y len k"
  let ?s = "score xcorr y len"
  have hk: "holds xcorr y len ?n ?E (int k) k" by (simp add: holds_def)
  have E: "0 < ?E" using run_energy_ge_1 [of y len k] by linarith
  consider (none) "S = {}" "b = best_init"
    | (one) i where "S = {i}" "holds xcorr y len (num_0 b) (den_0 b) (pitch_0 b) i" "num_1 b = - 1" "den_1 b = 0"
    | (two) i j where "i \<in> S" "j \<in> S - {i}" "holds xcorr y len (num_0 b) (den_0 b) (pitch_0 b) i"
        "holds xcorr y len (num_1 b) (den_1 b) (pitch_1 b) j"
        "\<forall>x\<in>S. ?s x \<le> ?s i" "\<forall>x\<in>S - {i}. ?s x \<le> ?s j"
    using assms(1) unfolding best_of_def by blast
  then show ?thesis
  proof cases
    case none
    then have "best_offer (int k) ?n ?E b =
        \<lparr>num_0 = ?n, num_1 = - 1, den_0 = ?E, den_1 = 0, pitch_0 = int k, pitch_1 = 0\<rparr>"
      using E by (simp add: best_offer_def best_init_def)
    then show ?thesis using none hk by (simp add: best_of_def)
  next
    case one
    have lt: "num_1 b * ?E < ?n * den_1 b" using one(3,4) E by simp
    note cmp = offer_less [OF one(2), of k]
    show ?thesis
    proof (cases "?s i < ?s k")
      case True
      then have "best_offer (int k) ?n ?E b =
          \<lparr>num_0 = ?n, num_1 = num_0 b, den_0 = ?E, den_1 = den_0 b, pitch_0 = int k, pitch_1 = pitch_0 b\<rparr>"
        using cmp lt by (simp add: best_offer_def)
      moreover have "i \<noteq> k" using one(1) assms(2) by auto
      ultimately show ?thesis using one(1,2) hk True by (auto simp: best_of_def)
    next
      case False
      then have "best_offer (int k) ?n ?E b = b\<lparr>num_1 := ?n, den_1 := ?E, pitch_1 := int k\<rparr>"
        using cmp lt by (simp add: best_offer_def)
      moreover have "i \<noteq> k" using one(1) assms(2) by auto
      ultimately show ?thesis using one(1,2) hk False by (auto simp: best_of_def)
    qed
  next
    case two
    note cmp = offer_less [OF two(3), of k] offer_less [OF two(4), of k]
    have ne: "i \<noteq> k" "j \<noteq> k" using two(1,2) assms(2) by auto
    have ji: "?s j \<le> ?s i" using two(2,5) by blast
    show ?thesis
    proof (cases "?s j < ?s k")
      case False
      then have "best_offer (int k) ?n ?E b = b" using cmp by (simp add: best_offer_def)
      then show ?thesis using two False ji ne by (intro best_of_two [of i _ j]) auto
    next
      case True
      show ?thesis
      proof (cases "?s i < ?s k")
        case True
        then have "best_offer (int k) ?n ?E b =
            \<lparr>num_0 = ?n, num_1 = num_0 b, den_0 = ?E, den_1 = den_0 b, pitch_0 = int k, pitch_1 = pitch_0 b\<rparr>"
          using cmp \<open>?s j < ?s k\<close> by (simp add: best_offer_def)
        then show ?thesis
          using two hk True ne by (intro best_of_two [of k _ i]) auto
      next
        case False
        then have "best_offer (int k) ?n ?E b = b\<lparr>num_1 := ?n, den_1 := ?E, pitch_1 := int k\<rparr>"
          using cmp \<open>?s j < ?s k\<close> by (simp add: best_offer_def)
        moreover have "\<forall>x\<in>S - {i}. ?s x \<le> ?s k" using two(6) True by (meson less_imp_le order_trans)
        ultimately show ?thesis
          using two hk False ne by (intro best_of_two [of i _ k]) auto
      qed
    qed
  qed
qed

lemma MAX32_real: "MAX32 a b = max a (b::real)"
  by (auto simp: MAX32_def max_def)

lemma find_best_pitch_best:
  assumes "max_pitch \<le> length xcorr" "len + max_pitch \<le> length y"
  obtains b where "find_best_pitch xcorr y len max_pitch = Some (pitch_0 b, pitch_1 b)"
    "best_of xcorr y len (candidates xcorr max_pitch) b"
proof -
  have "ofold (\<lambda>j Syy. do { v \<leftarrow> rd y (int j); Some (Syy + v * v) }) [0..<len] 1 = Some (1 + (\<Sum>j<len. y ! j * y ! j))"
    using assms(2) by (intro ofold_upt [where g = "\<lambda>n. 1 + (\<Sum>j<n. y ! j * y ! j)"]) (auto simp: rd_nat)
  then have S: "ofold (\<lambda>j Syy. do { v \<leftarrow> rd y (int j); Some (Syy + v * v) }) [0..<len] 1 = Some (run_energy y len 0)"
    by simp
  have "\<exists>s'. ofold (find_best_step xcorr y len) [0..<max_pitch] (best_init, run_energy y len 0) = Some s' \<and>
       (snd s' = run_energy y len max_pitch \<and> best_of xcorr y len (candidates xcorr max_pitch) (fst s'))"
  proof (rule ofold_inv [where P = "\<lambda>n s. snd s = run_energy y len n \<and> best_of xcorr y len (candidates xcorr n) (fst s)"])
    fix i and s :: "real best \<times> real"
    assume i: "i < max_pitch" "snd s = run_energy y len i \<and> best_of xcorr y len (candidates xcorr i) (fst s)"
    have cand: "candidates xcorr (Suc i) = (if 0 < xcorr ! i then insert i (candidates xcorr i) else candidates xcorr i)"
      by (auto simp: candidates_def less_Suc_eq)
    have "best_of xcorr y len (candidates xcorr (Suc i))
        (if 0 < xcorr ! i
         then best_offer (int i) ((xcorr ! i * (1 / 10 ^ 12)) * (xcorr ! i * (1 / 10 ^ 12))) (run_energy y len i) (fst s)
         else fst s)"
    proof (cases "0 < xcorr ! i")
      case True
      have "best_of xcorr y len (insert i (candidates xcorr i))
          (best_offer (int i) ((xcorr ! i * (1 / 10 ^ 12)) * (xcorr ! i * (1 / 10 ^ 12))) (run_energy y len i) (fst s))"
        by (rule best_of_offer [OF conjunct2 [OF i(2)] _ True]) (simp_all add: candidates_def)
      then show ?thesis unfolding cand if_P [OF True] .
    next
      case False
      show ?thesis unfolding cand if_not_P [OF False] by (rule conjunct2 [OF i(2)])
    qed
    moreover have "rd xcorr (int i) = Some (xcorr ! i)" "rd y (int (i + len)) = Some (y ! (i + len))"
      "rd y (int i) = Some (y ! i)"
      using i assms by (auto intro!: rd_at)
    moreover obtain b0 where s: "s = (b0, run_energy y len i)" using i(2) by (cases s) simp
    ultimately show "\<exists>s'. find_best_step xcorr y len i s = Some s' \<and>
        snd s' = run_energy y len (Suc i) \<and> best_of xcorr y len (candidates xcorr (Suc i)) (fst s')"
      unfolding s find_best_step_def Let_def lit_real MAX32_real
      by (intro exI conjI) (simp_all only: case_prod_conv Option.bind.simps(2) fst_conv snd_conv run_energy.simps)+
  qed (simp add: best_of_def candidates_def)
  then obtain s' where "ofold (find_best_step xcorr y len) [0..<max_pitch] (best_init, run_energy y len 0) = Some s'"
    "best_of xcorr y len (candidates xcorr max_pitch) (fst s')" by blast
  then have "find_best_pitch xcorr y len max_pitch = Some (pitch_0 (fst s'), pitch_1 (fst s'))"
    unfolding find_best_pitch_def S by (cases s') simp
  then show ?thesis using that \<open>best_of xcorr y len (candidates xcorr max_pitch) (fst s')\<close> by blast
qed

lemma find_best_pitch_optimal:
  assumes "max_pitch \<le> length xcorr" "len + max_pitch \<le> length y"
    and "find_best_pitch xcorr y len max_pitch = Some (p0, p1)" "candidates xcorr max_pitch \<noteq> {}"
  shows "nat p0 \<in> candidates xcorr max_pitch \<and>
    (\<forall>j\<in>candidates xcorr max_pitch. score xcorr y len j \<le> score xcorr y len (nat p0)) \<and>
    (candidates xcorr max_pitch - {nat p0} \<noteq> {} \<longrightarrow>
       nat p1 \<in> candidates xcorr max_pitch - {nat p0} \<and>
       (\<forall>j\<in>candidates xcorr max_pitch - {nat p0}. score xcorr y len j \<le> score xcorr y len (nat p1)))"
proof -
  obtain b where "p0 = pitch_0 b" "p1 = pitch_1 b" "best_of xcorr y len (candidates xcorr max_pitch) b"
    using find_best_pitch_best [OF assms(1,2)] assms(3) by auto
  then show ?thesis using assms(4) unfolding best_of_def holds_def by auto
qed

section \<open>The downsampled signal\<close>

text \<open>The five samples before position \<open>i\<close>: from the signal, and from the memory before its start.\<close>

definition past :: "'a list \<Rightarrow> 'a list \<Rightarrow> nat \<Rightarrow> nat \<Rightarrow> 'a" where
  "past x mem i k = (if k < i then x ! (i - Suc k) else mem ! (k - i))"

definition fir_value :: "'a::{plus,times} list \<Rightarrow> 'a list \<Rightarrow> 'a list \<Rightarrow> nat \<Rightarrow> 'a" where
  "fir_value x num mem i =
     x ! i + num ! 0 * past x mem i 0 + num ! 1 * past x mem i 1 + num ! 2 * past x mem i 2 +
     num ! 3 * past x mem i 3 + num ! 4 * past x mem i 4"

lemma past_Suc: "past x mem (Suc i) (Suc k) = past x mem i k" "past x mem (Suc i) 0 = x ! i"
  by (simp_all add: past_def)

text \<open>Filtering in place reads only samples that have not been overwritten.\<close>

lemma fir5_in_place:
  assumes "N \<le> length x" "length num = 5" "length mem = 5"
  shows "celt_fir5 x num N mem = Some (seg_upd x 0 N (fir_value x num mem), map (past x mem N) [0..<5])"
proof -
  let ?st = "\<lambda>i. (seg_upd x 0 i (fir_value x num mem), past x mem i 0, past x mem i 1, past x mem i 2,
      past x mem i 3, past x mem i 4)"
  have n: "rd num 0 = Some (num ! 0)" "rd num 1 = Some (num ! 1)" "rd num 2 = Some (num ! 2)"
      "rd num 3 = Some (num ! 3)" "rd num 4 = Some (num ! 4)"
    and m: "rd mem 0 = Some (mem ! 0)" "rd mem 1 = Some (mem ! 1)" "rd mem 2 = Some (mem ! 2)"
      "rd mem 3 = Some (mem ! 3)" "rd mem 4 = Some (mem ! 4)"
    using assms(2,3) by (auto intro!: rd_at)
  have loop: "ofold (\<lambda>i (y, m0, m1, m2, m3, m4). do {
         xi \<leftarrow> rd y (int i);
         let acc = MAC16_16 (MAC16_16 (MAC16_16 (MAC16_16 (MAC16_16 xi (num ! 0) m0) (num ! 1) m1) (num ! 2) m2) (num ! 3) m3)
           (num ! 4) m4;
         y \<leftarrow> wr y (int i) acc;
         Some (y, xi, m0, m1, m2, m3)
       }) [0..<N] (x, mem ! 0, mem ! 1, mem ! 2, mem ! 3, mem ! 4) = Some (?st N)"
  proof (rule ofold_upt [where g = ?st])
    fix i assume i: "i < N"
    then have "rd (seg_upd x 0 i (fir_value x num mem)) (int i) = Some (x ! i)"
      using assms(1) by (simp add: rd_nat)
    moreover have "wr (seg_upd x 0 i (fir_value x num mem)) (int i) (fir_value x num mem i) =
        Some (seg_upd x 0 (Suc i) (fir_value x num mem))"
      using i assms(1) by (intro wr_seg_Suc) auto
    moreover have "past x mem (Suc i) 1 = past x mem i 0" "past x mem (Suc i) 2 = past x mem i 1"
      "past x mem (Suc i) 3 = past x mem i 2" "past x mem (Suc i) 4 = past x mem i 3"
      using past_Suc [of x mem i] by (simp_all add: numeral_eq_Suc)
    ultimately show "(case ?st i of (y, m0, m1, m2, m3, m4) \<Rightarrow> do {
         xi \<leftarrow> rd y (int i);
         let acc = MAC16_16 (MAC16_16 (MAC16_16 (MAC16_16 (MAC16_16 xi (num ! 0) m0) (num ! 1) m1) (num ! 2) m2) (num ! 3) m3)
           (num ! 4) m4;
         y \<leftarrow> wr y (int i) acc;
         Some (y, xi, m0, m1, m2, m3)
       }) = Some (?st (Suc i))"
      by (simp add: Let_def MAC16_16_def fir_value_def past_Suc)
  qed (simp add: past_def)
  obtain a b c d e where mem: "mem = [a, b, c, d, e]"
    using assms(3) by (auto simp: length_Suc_conv numeral_eq_Suc)
  have store: "do {
       mem \<leftarrow> wr mem 0 v0;
       mem \<leftarrow> wr mem 1 v1;
       mem \<leftarrow> wr mem 2 v2;
       mem \<leftarrow> wr mem 3 v3;
       mem \<leftarrow> wr mem 4 v4;
       Some (y, mem)
     } = Some (y, [v0, v1, v2, v3, v4])" for v0 v1 v2 v3 v4 :: 'a and y :: "'a list"
    unfolding mem by (simp add: wr_def numeral_eq_Suc)
  have "map (past x mem N) [0..<5] = [past x mem N 0, past x mem N 1, past x mem N 2, past x mem N 3, past x mem N 4]"
    by (simp add: upt_rec numeral_eq_Suc)
  then show ?thesis
    unfolding celt_fir5_def n m loop Option.bind.simps(2) case_prod_conv store by simp
qed

text \<open>The coefficients too are computed without leaving an array, whatever the samples.\<close>

lemma lpc_pair_total: "j < i \<Longrightarrow> i \<le> length l \<Longrightarrow> \<exists>l'. lpc_pair r i j l = Some l' \<and> length l' = length l"
  using rd_ex [of "int j" l] rd_ex [of "int i - 1 - int j" l] by (auto simp: lpc_pair_def wr_def)

lemma lpc_order_total:
  assumes "i < length l" "i + 1 < length ac"
  shows "\<exists>l' e'. lpc_order ac i (l, e) = Some (l', e') \<and> length l' = length l"
proof -
  have "\<exists>rr. ofold (\<lambda>j rr. do {
         v \<leftarrow> rd l (int j);
         a \<leftarrow> rd ac (int i - int j);
         Some (rr + v * a)
       }) [0..<i] 0 = Some rr \<and> True"
  proof (rule ofold_inv)
    fix j and s :: 'a
    assume "j < i"
    then obtain v a where "rd l (int j) = Some v" "rd ac (int i - int j) = Some a"
      using rd_ex [of "int j" l] rd_ex [of "int i - int j" ac] assms by auto
    then show "\<exists>s'. do { v \<leftarrow> rd l (int j); a \<leftarrow> rd ac (int i - int j); Some (s + v * a) } = Some s' \<and> True"
      by simp
  qed simp
  then obtain rr where rr: "ofold (\<lambda>j rr. do {
         v \<leftarrow> rd l (int j);
         a \<leftarrow> rd ac (int i - int j);
         Some (rr + v * a)
       }) [0..<i] 0 = Some rr" by blast
  have a: "rd ac (int i + 1) = Some (ac ! (i + 1))" using assms by (intro rd_at) auto
  let ?r = "- (rr + ac ! (i + 1)) / e"
  have w: "wr l (int i) ?r = Some (l[i := ?r])" using assms(1) by (rule wr_nat)
  have "\<exists>l'. ofold (lpc_pair ?r i) [0..<(i + 1) div 2] (l[i := ?r]) = Some l' \<and> length l' = length l"
  proof (rule ofold_inv)
    fix j and s :: "'a list"
    assume j: "j < (i + 1) div 2" "length s = length l"
    then have "j < i" by linarith
    then show "\<exists>s'. lpc_pair ?r i j s = Some s' \<and> length s' = length l"
      using lpc_pair_total [of j i s ?r] j(2) assms(1) by simp
  qed simp
  then obtain l' where l': "ofold (lpc_pair ?r i) [0..<(i + 1) div 2] (l[i := ?r]) = Some l'" "length l' = length l"
    by blast
  show ?thesis
    unfolding lpc_order_def Let_def case_prod_conv rr a w l'(1) Option.bind.simps(2) using l'(2) by blast
qed

lemma lpc_loop_total:
  assumes "\<forall>i\<in>set is. i < length l \<and> i + 1 < length ac"
  shows "\<exists>l' e'. lpc_loop ac ac0 is (l, e) = Some (l', e') \<and> length l' = length l"
  using assms
proof (induction "is" arbitrary: l e)
  case (Cons i "is")
  then obtain l1 e1 where 1: "lpc_order ac i (l, e) = Some (l1, e1)" "length l1 = length l"
    using lpc_order_total [of i l ac e] by auto
  then show ?case using Cons.IH [of l1 e1] Cons.prems by auto
qed simp

lemma rnn_lpc_total:
  assumes "length l = p" "p < length ac"
  shows "\<exists>l'. rnn_lpc l ac p = Some l' \<and> length l' = p"
proof -
  have a: "rd ac 0 = Some (ac ! 0)" using assms(2) by (intro rd_at) auto
  obtain l' e' where "lpc_loop ac (ac ! 0) [0..<p] (replicate p 0, ac ! 0) = Some (l', e')" "length l' = p"
    using lpc_loop_total [of "[0..<p]" "replicate p 0" ac "ac ! 0" "ac ! 0"] assms by auto
  then show ?thesis by (simp add: rnn_lpc_def a clear_loop [OF assms(1)])
qed

lemma halve_total:
  assumes "len \<le> length x" "2 \<le> len" "len div 2 \<le> length x_lp"
  shows "\<exists>y. halve x put len x_lp = Some y \<and> length y = length x_lp"
proof -
  have "\<exists>s'. ofold (\<lambda>i x_lp. do {
         a \<leftarrow> rd x (2 * int i - 1);
         b \<leftarrow> rd x (2 * int i + 1);
         c \<leftarrow> rd x (2 * int i);
         v \<leftarrow> rd x_lp (int i);
         wr x_lp (int i) (put v (HALF32 (HALF32 (a + b) + c)))
       }) [1..<len div 2] x_lp = Some s' \<and> length s' = length x_lp"
  proof (rule ofold_inv_from)
    fix i and s :: "'a list"
    assume i: "1 \<le> i" "i < len div 2" "length s = length x_lp"
    then have "2 * int i + 1 < int (length x)" using assms(1) by linarith
    then obtain a b c where "rd x (2 * int i - 1) = Some a" "rd x (2 * int i + 1) = Some b" "rd x (2 * int i) = Some c"
      using rd_ex [of "2 * int i - 1" x] rd_ex [of "2 * int i + 1" x] rd_ex [of "2 * int i" x] i(1) by auto
    then show "\<exists>s'. do {
         a \<leftarrow> rd x (2 * int i - 1);
         b \<leftarrow> rd x (2 * int i + 1);
         c \<leftarrow> rd x (2 * int i);
         v \<leftarrow> rd s (int i);
         wr s (int i) (put v (HALF32 (HALF32 (a + b) + c)))
       } = Some s' \<and> length s' = length x_lp"
      using i assms(3) by (simp add: rd_nat wr_nat)
  qed (use assms in auto)
  then obtain s' where s': "ofold (\<lambda>i x_lp. do {
         a \<leftarrow> rd x (2 * int i - 1);
         b \<leftarrow> rd x (2 * int i + 1);
         c \<leftarrow> rd x (2 * int i);
         v \<leftarrow> rd x_lp (int i);
         wr x_lp (int i) (put v (HALF32 (HALF32 (a + b) + c)))
       }) [1..<len div 2] x_lp = Some s'" "length s' = length x_lp" by blast
  have n: "1 < length x" "0 < length x" "0 < length s'" using assms s'(2) by linarith+
  then have r: "rd x 1 = Some (x ! 1)" "rd x 0 = Some (x ! 0)" "rd s' 0 = Some (s' ! 0)"
    by (auto intro!: rd_at)
  show ?thesis
    unfolding halve_def s'(1) r Option.bind.simps(2) using wr_ex [of 0 s'] n(3) s'(2) by auto
qed

lemma lag_window_total:
  assumes "length ac = 5"
  shows "\<exists>y. lag_window ac = Some y \<and> length y = 5"
proof -
  have a: "rd ac 0 = Some (ac ! 0)" "wr ac 0 v = Some (ac[0 := v])" for v
    using assms by (auto intro!: rd_at simp: wr_def)
  have "\<exists>s'. ofold (\<lambda>i ac. do {
         a \<leftarrow> rd ac (int i);
         wr ac (int i) (a - a * (lit 0.008 * lit (real i)) * (lit 0.008 * lit (real i)))
       }) [1..<5] (ac[0 := ac ! 0 * lit 1.0001]) = Some s' \<and> length s' = 5"
    by (rule ofold_inv_from) (use assms in \<open>auto simp: rd_nat wr_nat\<close>)
  then show ?thesis by (simp add: lag_window_def a)
qed

lemma widen_lpc_total:
  assumes "length l = 4"
  shows "\<exists>y. widen_lpc l = Some y \<and> length y = 4"
proof -
  have "\<exists>s'. ofold (\<lambda>i (lpc, tmp). do {
         let tmp = lit 0.9 * tmp;
         l \<leftarrow> rd lpc (int i);
         lpc \<leftarrow> wr lpc (int i) (l * tmp);
         Some (lpc, tmp)
       }) [0..<4] (l, 1) = Some s' \<and> length (fst s') = 4"
    by (rule ofold_inv) (use assms in \<open>auto simp: rd_nat wr_nat Let_def\<close>)
  then show ?thesis by (auto simp: widen_lpc_def)
qed

lemma pitch_downsample_total:
  assumes "len \<le> length x" "8 \<le> len" "len div 2 \<le> length x_lp"
  shows "\<exists>y. rnn_pitch_downsample [x] x_lp len 1 = Some y \<and> length y = length x_lp"
proof -
  have n: "4 \<le> len div 2" using assms(2) by linarith
  obtain y where y: "halve x (\<lambda>_ v. v) len x_lp = Some y" "length y = length x_lp"
    using halve_total [of len x x_lp "\<lambda>_ v. v"] assms by auto
  obtain ac where ac: "rnn_autocorr y (replicate 5 0) [] 0 4 (len div 2) = Some ac" "length ac = 5"
    using autocorr_value [of 4 "len div 2" y "replicate 5 0" "[]"] n assms(3) y(2) by auto
  obtain aw where aw: "lag_window ac = Some aw" "length aw = 5" using lag_window_total [OF ac(2)] by blast
  obtain l where l: "rnn_lpc (replicate 4 0) aw 4 = Some l" "length l = 4"
    using rnn_lpc_total [of "replicate 4 0" 4 aw] aw(2) by auto
  obtain w where w: "widen_lpc l = Some w" "length w = 4" using widen_lpc_total [OF l(2)] by blast
  have r: "rd w 0 = Some (w ! 0)" "rd w 1 = Some (w ! 1)" "rd w 2 = Some (w ! 2)" "rd w 3 = Some (w ! 3)"
    using w(2) by (auto intro!: rd_at)
  let ?num = "[w ! 0 + lit 0.8, w ! 1 + lit 0.8 * w ! 0, w ! 2 + lit 0.8 * w ! 1, w ! 3 + lit 0.8 * w ! 2, lit 0.8 * w ! 3]"
  have "len div 2 \<le> length y" "length ?num = 5" "length (replicate 5 (0 :: 'a)) = 5"
    using y(2) assms(3) by simp_all
  note fir = fir5_in_place [OF this]
  have "rd [x] 0 = Some x" by (simp add: rd_def)
  then have "rnn_pitch_downsample [x] x_lp len 1 = Some (seg_upd y 0 (len div 2) (fir_value y ?num (replicate 5 0)))"
    using fir by (simp add: rnn_pitch_downsample_def y(1) ac(1) aw(1) l(1) w(1) r Let_def)
  then show ?thesis using y(2) by simp
qed

text \<open>
  The branch for periods below twice the smallest is never taken: such a period is also below
  three times it, which is tested first.
\<close>

lemma doubling_threshold_dead_branch:
  assumes "0 \<le> minperiod"
  shows "doubling_threshold g0 cont T1 minperiod =
    (if T1 < 3 * minperiod then MAX32 (lit 0.4) (lit 0.85 * g0 - cont) else MAX32 (lit 0.3) (lit 0.7 * g0 - cont))"
  using assms by (simp add: doubling_threshold_def)

section \<open>Properties\<close>

text \<open>
  C21. The unrolled correlation is exact: \<open>rnn_pitch_xcorr\<close> stays inside its arrays and gives, for
  every length and number of lags, the inner products of the simple loop, with the additions in
  the same order, so bit for bit the same.
\<close>

theorem rnn_pitch_xcorr_exact:
  fixes x y :: "'a::{zero,plus,times} list"
  assumes "px + len \<le> length x" "py + len + max_pitch \<le> length y + 1" "length xcorr = max_pitch"
  shows "rnn_pitch_xcorr x (int px) y (int py) xcorr len max_pitch =
    Some (map (\<lambda>i. foldl (\<lambda>acc j. acc + x ! (px + j) * y ! (py + i + j)) 0 [0..<len]) [0..<max_pitch])"
proof -
  have "seg_upd xcorr 0 max_pitch (\<lambda>i. dot x px y (py + i) len 0) =
      map (\<lambda>i. foldl (\<lambda>acc j. acc + x ! (px + j) * y ! (py + i + j)) 0 [0..<len]) [0..<max_pitch]"
    by (rule nth_equalityI) (use assms(3) in \<open>auto simp: dot_def\<close>)
  then show ?thesis using pitch_xcorr_dot [OF assms(1,2), of xcorr] assms(3) by simp
qed

theorem rnn_pitch_xcorr_exact_witness:
  "rnn_pitch_xcorr [1, 2, 3, 4, 5] 0 [1, 0, 2, 0, 1, 1, 0, 3, 1] 0 [9, 9, 9, 9, 9::int] 5 5 = Some [12, 13, 9, 20, 20]"
proof -
  have "rnn_pitch_xcorr [1, 2, 3, 4, 5] (int 0) [1, 0, 2, 0, 1, 1, 0, 3, 1] (int 0) [9, 9, 9, 9, 9::int] 5 5 =
    Some (map (\<lambda>i. foldl (\<lambda>acc j. acc + [1, 2, 3, 4, 5] ! (0 + j) * [1, 0, 2, 0, 1, 1, 0, 3, 1] ! (0 + i + j)) 0
      [0..<5]) [0..<5])"
    by (rule rnn_pitch_xcorr_exact) simp_all
  also have "\<dots> = Some [12, 13, 9, 20, 20]" by code_simp
  finally show ?thesis by simp
qed



text \<open>
  C23. \<open>rnn_lpc\<close> solves the normal equations (in exact arithmetic): the coefficients it returns are
  the linear predictor of some order \<open>q\<close> at most \<open>p\<close> for the given autocorrelation, padded with
  zeros, and \<open>q\<close> is less than \<open>p\<close> only if the prediction error of order \<open>q\<close> is below a thousandth
  of the energy.
\<close>

theorem rnn_lpc_solves_normal_equations:
  fixes ac :: "real list"
  assumes "length l = p" "p < length ac" "0 < ac ! 0"
  shows "\<exists>l' q. rnn_lpc l ac p = Some l' \<and> length l' = p \<and> q \<le> p \<and>
    (\<forall>m<q. (\<Sum>j<q. l' ! j * ac ! lag_dist m j) = - ac ! (m + 1)) \<and>
    (\<forall>j. q \<le> j \<longrightarrow> j < p \<longrightarrow> l' ! j = 0) \<and>
    (q < p \<longrightarrow> ac ! 0 + (\<Sum>j<q. l' ! j * ac ! (j + 1)) < 0.001 * ac ! 0)"
proof -
  obtain l' q where *: "rnn_lpc l ac p = Some l'" "q \<le> p" "length l' = p" "normal_eqs ((!) ac) ((!) l') q"
    "\<forall>j. q \<le> j \<longrightarrow> j < p \<longrightarrow> l' ! j = 0" "q < p \<longrightarrow> pred_error ((!) ac) ((!) l') q < 0.001 * ac ! 0"
    using rnn_lpc_levinson [OF assms] by blast
  have "(\<Sum>j<q. l' ! j * ac ! lag_dist m j) = - ac ! (m + 1)" if "m < q" for m
    using *(4) that unfolding normal_eqs_def by (metis add_eq_0_iff)
  then show ?thesis using * unfolding pred_error_def by blast
qed

theorem rnn_lpc_solves_normal_equations_witness:
  "\<exists>l' q. rnn_lpc [0, 0] [2, 1, 1::real] 2 = Some l' \<and> length l' = 2 \<and> q \<le> 2 \<and>
    (\<forall>m<q. (\<Sum>j<q. l' ! j * [2, 1, 1::real] ! lag_dist m j) = - [2, 1, 1] ! (m + 1)) \<and>
    (\<forall>j. q \<le> j \<longrightarrow> j < 2 \<longrightarrow> l' ! j = 0) \<and>
    (q < 2 \<longrightarrow> [2, 1, 1::real] ! 0 + (\<Sum>j<q. l' ! j * [2, 1, 1::real] ! (j + 1)) < 0.001 * [2, 1, 1::real] ! 0)"
  by (rule rnn_lpc_solves_normal_equations) simp_all

text \<open>
  C24. \<open>find_best_pitch\<close> returns the best lag and the runner-up (in exact arithmetic): among the lags
  with a positive correlation the first one returned has the largest squared correlation over
  energy, and the second one the largest among the others.
\<close>

theorem find_best_pitch_picks_the_best:
  assumes "max_pitch \<le> length xcorr" "len + max_pitch \<le> length y" "\<exists>i<max_pitch. 0 < xcorr ! i"
  shows "\<exists>p0 p1. find_best_pitch xcorr y len max_pitch = Some (p0, p1) \<and>
    nat p0 \<in> candidates xcorr max_pitch \<and>
    (\<forall>j\<in>candidates xcorr max_pitch. score xcorr y len j \<le> score xcorr y len (nat p0)) \<and>
    (candidates xcorr max_pitch \<noteq> {nat p0} \<longrightarrow>
       nat p1 \<in> candidates xcorr max_pitch - {nat p0} \<and>
       (\<forall>j\<in>candidates xcorr max_pitch - {nat p0}. score xcorr y len j \<le> score xcorr y len (nat p1)))"
proof -
  obtain p0 p1 where p: "find_best_pitch xcorr y len max_pitch = Some (p0, p1)"
    using find_best_pitch_best [OF assms(1,2)] by metis
  have "candidates xcorr max_pitch \<noteq> {}" using assms(3) by (auto simp: candidates_def)
  note * = find_best_pitch_optimal [OF assms(1,2) p this]
  moreover have "candidates xcorr max_pitch - {nat p0} \<noteq> {}" if "candidates xcorr max_pitch \<noteq> {nat p0}"
    using that * by blast
  ultimately show ?thesis using p by blast
qed

theorem find_best_pitch_picks_the_best_witness:
  "\<exists>p0 p1. find_best_pitch [1, 3, 2::real] [0, 0, 0, 0] 1 3 = Some (p0, p1) \<and>
    nat p0 \<in> candidates [1, 3, 2] 3 \<and>
    (\<forall>j\<in>candidates [1, 3, 2] 3. score [1, 3, 2] [0, 0, 0, 0] 1 j \<le> score [1, 3, 2] [0, 0, 0, 0] 1 (nat p0)) \<and>
    (candidates [1, 3, 2] 3 \<noteq> {nat p0} \<longrightarrow>
       nat p1 \<in> candidates [1, 3, 2] 3 - {nat p0} \<and>
       (\<forall>j\<in>candidates [1, 3, 2] 3 - {nat p0}. score [1, 3, 2] [0, 0, 0, 0] 1 j \<le> score [1, 3, 2] [0, 0, 0, 0] 1 (nat p1)))"
  by (rule find_best_pitch_picks_the_best) (auto intro: exI [of _ 0])

text \<open>
  C25. The pitch search is memory-safe and its result is in range whatever the samples, NaN and
  infinities included: no law of arithmetic is used.
\<close>

theorem rnn_pitch_search_in_range:
  fixes x :: "'a::{zero,one,plus,minus,uminus,times,ord,scaleR} list"
  assumes "0 \<le> px" "px + int (len div 2) \<le> int (length x)" "len \<le> PITCH_FRAME_SIZE"
    and "len div 2 + max_pitch div 2 \<le> length y" "2 \<le> max_pitch" "max_pitch \<le> PITCH_MAX_PERIOD"
  shows "\<exists>p. rnn_pitch_search x px y len max_pitch = Some p \<and> 0 \<le> p \<and> p \<le> int max_pitch - 2"
  by (rule pitch_search_range [OF assms])

theorem rnn_pitch_search_in_range_witness:
  "\<exists>p. rnn_pitch_search (replicate 864 (1::real)) 384 (replicate 864 1) 960 588 = Some p \<and> 0 \<le> p \<and> p \<le> int 588 - 2"
  by (rule rnn_pitch_search_in_range) (simp_all add: denoise_sizes)

text \<open>
  C26. Removing octave errors is memory-safe, its loop over the divisors ends, and the period it
  returns lies between the smallest period and one less than the largest, whatever the samples
  and the square root.
\<close>

theorem rnn_remove_doubling_in_range:
  fixes x :: "'a::{zero,one,plus,minus,times,inverse,ord,scaleR} list"
  assumes "maxperiod \<le> PITCH_MAX_PERIOD" "maxperiod div 2 + N div 2 \<le> length x"
    and "2 \<le> minperiod" "minperiod < maxperiod" "4 \<le> maxperiod" "2 \<le> T"
  shows "\<exists>gain T'. rnn_remove_doubling m x maxperiod minperiod N T prev_period prev_gain = Some (gain, T') \<and>
    int minperiod \<le> T' \<and> T' < int maxperiod"
  using remove_doubling_range [OF assms(1,2,5,3,6), of m prev_period prev_gain] assms(4) by auto

theorem rnn_remove_doubling_in_range_witness:
  "\<exists>gain T'. rnn_remove_doubling \<lparr>c_sqrt = \<lambda>x. x, c_log10 = \<lambda>x. x\<rparr> (replicate 864 (1::real)) 768 60 960 182 0 0 =
      Some (gain, T') \<and> int 60 \<le> T' \<and> T' < int 768"
  by (rule rnn_remove_doubling_in_range) (simp_all add: denoise_sizes)

end
