(* ===== verification/Rnn_Weights.thy ===== *)
theory Rnn_Weights
  imports VM_Prelude "HOL-Library.Sublist"
begin

unbundle bit_operations_syntax

text \<open>
  \<open>src/dsp/rnnoise/parse_lpcnet_weights.c\<close> and the types of \<open>nnet.h\<close>: the parser of the
  network's weight file, and the look-up of its arrays.

  The file is a list of bytes, a pointer into it an offset, and an \<open>int\<close> of the file the
  four bytes at an offset, little-endian. Every access is checked: \<open>None\<close> as the outer
  result of a function is undefined behaviour (an access outside the file, an overflow, a
  read of a cell that \<open>realloc\<close> left indeterminate), so a theorem that the outer result is
  \<open>Some\<close> is memory safety. Allocation is taken to succeed, as the code takes it.
\<close>

section \<open>Integers of the file\<close>

definition chk32 :: "int \<Rightarrow> int option" where
  "chk32 x = (if - (2 ^ 31) \<le> x \<and> x < 2 ^ 31 then Some x else None)"

fun le32 :: "byte list \<Rightarrow> int" where
  "le32 [a, b, c, d] =
     (let u = uint a + 256 * uint b + 65536 * uint c + 16777216 * uint d
      in if u < 2 ^ 31 then u else u - 2 ^ 32)"
| "le32 _ = 0"

definition rd32 :: "byte list \<Rightarrow> int \<Rightarrow> int option" where
  "rd32 mem p =
     (if 0 \<le> p \<and> p + 4 \<le> int (length mem) then Some (le32 (take 4 (drop (nat p) mem))) else None)"

section \<open>Types\<close>

definition WEIGHT_BLOCK_SIZE :: int where "WEIGHT_BLOCK_SIZE = 64"
definition SPARSE_BLOCK_SIZE :: int where "SPARSE_BLOCK_SIZE = 32"

text \<open>
  \<open>WeightArray\<close>: \<open>name\<close> is a pointer or NULL, \<open>size\<close> is \<open>None\<close> where the cell has never been
  written.
\<close>

record WeightArray =
  wa_name :: "int option"
  wa_type :: int
  wa_size :: "int option"
  wa_data :: int

text \<open>Offsets of the members of \<open>WeightHead\<close>.\<close>

definition h_type :: int where "h_type = 8"
definition h_size :: int where "h_size = 12"
definition h_block_size :: int where "h_block_size = 16"
definition h_name :: int where "h_name = 20"

lemmas weight_head = WEIGHT_BLOCK_SIZE_def SPARSE_BLOCK_SIZE_def h_type_def h_size_def
  h_block_size_def h_name_def

record LinearLayer =
  bias :: "int option"
  subias :: "int option"
  weights :: "int option"
  float_weights :: "int option"
  weights_idx :: "int option"
  diag :: "int option"
  l_scale :: "int option"
  nb_inputs :: int
  nb_outputs :: int

record Conv2dLayer =
  c_bias :: "int option"
  c_float_weights :: "int option"
  in_channels :: int
  out_channels :: int
  ktime :: int
  kheight :: int

section \<open>Parsing\<close>

definition parse_record ::
  "byte list \<Rightarrow> int \<Rightarrow> int \<Rightarrow> WeightArray \<Rightarrow> (int \<times> int \<times> int \<times> WeightArray) option" where
  "parse_record mem data len array =
     (if len < WEIGHT_BLOCK_SIZE then Some (-1, data, len, array)
      else do {
        block_size \<leftarrow> rd32 mem (data + h_block_size);
        sz \<leftarrow> rd32 mem (data + h_size);
        if block_size < sz then Some (-1, data, len, array)
        else if block_size > len - WEIGHT_BLOCK_SIZE then Some (-1, data, len, array)
        else do {
          lastc \<leftarrow> rd mem (data + h_name + 43);
          if lastc \<noteq> 0 then Some (-1, data, len, array)
          else if sz < 0 then Some (-1, data, len, array)
          else do {
            ty \<leftarrow> rd32 mem (data + h_type);
            Some (sz, data + block_size + WEIGHT_BLOCK_SIZE, len - (block_size + WEIGHT_BLOCK_SIZE),
              \<lparr>wa_name = Some (data + h_name), wa_type = ty, wa_size = Some sz,
               wa_data = data + WEIGHT_BLOCK_SIZE\<rparr>)
          }
        }
      })"

text \<open>The cell after the last array: \<open>calloc\<close> zeroed the first 20, \<open>realloc\<close> no other.\<close>

definition terminator :: "int \<Rightarrow> WeightArray" where
  "terminator nb = \<lparr>wa_name = None, wa_type = 0, wa_size = (if nb < 20 then Some 0 else None), wa_data = 0\<rparr>"

definition blank_array :: WeightArray where
  "blank_array = \<lparr>wa_name = None, wa_type = 0, wa_size = Some 0, wa_data = 0\<rparr>"

lemma parse_record_progress:
  assumes "parse_record mem data len array = Some (ret, data', len', array')" "ret > 0"
  shows "64 \<le> len" "len' + 64 \<le> len" "data' - data = len - len'" "0 \<le> len'"
    "ret = len - len' - 64 \<or> ret < len - len' - 64"
    "array' = \<lparr>wa_name = Some (data + h_name), wa_type = wa_type array', wa_size = Some ret,
       wa_data = data + WEIGHT_BLOCK_SIZE\<rparr>"
    "rd mem (data + h_name + 43) = Some 0"
  using assms
  by (auto simp: parse_record_def weight_head bind_eq_Some_conv split: if_splits)

function parse_loop ::
  "byte list \<Rightarrow> int \<Rightarrow> int \<Rightarrow> WeightArray list \<Rightarrow> int \<Rightarrow> int \<Rightarrow> (int \<times> WeightArray list) option option" where
  "parse_loop mem nb_arrays capacity arrs data len =
     (if len > 0 then
        (case parse_record mem data len blank_array of
           None \<Rightarrow> None
         | Some (ret, data', len', array) \<Rightarrow>
             if ret > 0 then
               let capacity' = (if nb_arrays + 1 \<ge> capacity then capacity * 3 div 2 else capacity)
               in if nb_arrays < capacity'
                  then parse_loop mem (nb_arrays + 1) capacity' (arrs @ [array]) data' len'
                  else None
             else Some None)
      else if nb_arrays < capacity then Some (Some (nb_arrays, arrs @ [terminator nb_arrays]))
      else None)"
  by pat_completeness auto
termination
  by (relation "measure (\<lambda>(mem, nb, cap, arrs, data, len). nat len)")
     (auto dest: parse_record_progress)

declare parse_loop.simps [simp del]

definition parse_weights :: "byte list \<Rightarrow> int \<Rightarrow> (int \<times> WeightArray list) option option" where
  "parse_weights mem len = parse_loop mem 0 20 [] 0 len"

section \<open>Look-up\<close>

definition cstr :: "byte list \<Rightarrow> int \<Rightarrow> byte list option" where
  "cstr mem p =
     (if 0 \<le> p \<and> 0 \<in> set (drop (nat p) mem) then Some (takeWhile (\<lambda>c. c \<noteq> 0) (drop (nat p) mem))
      else None)"

fun find_array_entry :: "byte list \<Rightarrow> WeightArray list \<Rightarrow> byte list \<Rightarrow> WeightArray option" where
  "find_array_entry mem [] name = None"
| "find_array_entry mem (a # arrays) name =
     (case wa_name a of
        None \<Rightarrow> Some a
      | Some p \<Rightarrow> do {
          s \<leftarrow> cstr mem p;
          if s \<noteq> name then find_array_entry mem arrays name else Some a
        })"

definition find_array_check ::
  "byte list \<Rightarrow> WeightArray list \<Rightarrow> byte list \<Rightarrow> int \<Rightarrow> int option option" where
  "find_array_check mem arrays name sz = do {
     a \<leftarrow> find_array_entry mem arrays name;
     if wa_name a = None then Some None
     else do {
       s \<leftarrow> wa_size a;
       Some (if s = sz then Some (wa_data a) else None)
     }
   }"

text \<open>The pair is the result and \<open>*error\<close>.\<close>

definition opt_array_check ::
  "byte list \<Rightarrow> WeightArray list \<Rightarrow> byte list \<Rightarrow> int \<Rightarrow> (int option \<times> bool) option" where
  "opt_array_check mem arrays name sz = do {
     a \<leftarrow> find_array_entry mem arrays name;
     if wa_name a = None then Some (None, False)
     else do {
       s \<leftarrow> wa_size a;
       Some (if s = sz then (Some (wa_data a), False) else (None, True))
     }
   }"

text \<open>
  The two loops of \<open>find_idx_check\<close>. The inner one returns the index pointer after the block,
  the outer one the number of blocks; \<open>Some None\<close> is the return of NULL.
\<close>

fun idx_block :: "byte list \<Rightarrow> int \<Rightarrow> nat \<Rightarrow> int \<Rightarrow> int option option" where
  "idx_block mem nb_in 0 idx = Some (Some idx)"
| "idx_block mem nb_in (Suc i) idx = do {
     pos \<leftarrow> rd32 mem idx;
     last \<leftarrow> chk32 (pos + 3);
     if last \<ge> nb_in \<or> pos AND 3 \<noteq> 0 then Some None
     else idx_block mem nb_in i (idx + 4)
   }"

lemma rd32_in: "rd32 mem p = Some v \<Longrightarrow> 0 \<le> p \<and> p + 4 \<le> int (length mem)"
  by (auto simp: rd32_def split: if_splits)

lemma idx_block_end: "idx_block mem nb_in n idx = Some (Some idx') \<Longrightarrow> idx' = idx + 4 * int n"
  by (induction n arbitrary: idx) (auto simp: bind_eq_Some_conv split: if_splits, force)

function idx_loop :: "byte list \<Rightarrow> int \<Rightarrow> int \<Rightarrow> int \<Rightarrow> int \<Rightarrow> int \<Rightarrow> int option option" where
  "idx_loop mem nb_in idx remain nb_out tot =
     (if remain > 0 then
        (case rd32 mem idx of
           None \<Rightarrow> None
         | Some nb_blocks \<Rightarrow>
             (case chk32 (nb_blocks + 1) of
                None \<Rightarrow> None
              | Some n1 \<Rightarrow>
                  if remain < n1 then Some None
                  else
                    (case idx_block mem nb_in (nat nb_blocks) (idx + 4) of
                       None \<Rightarrow> None
                     | Some None \<Rightarrow> Some None
                     | Some (Some idx') \<Rightarrow>
                         idx_loop mem nb_in idx' (remain - n1) (nb_out - 8) (tot + nb_blocks))))
      else if nb_out \<noteq> 0 then Some None else Some (Some tot))"
  by pat_completeness auto
termination
  by (relation "measure (\<lambda>(mem, nb_in, idx, remain, nb_out, tot). nat (int (length mem) - idx))")
     (auto dest!: idx_block_end rd32_in)

declare idx_loop.simps [simp del]

text \<open>The pair is the result and \<open>*total_blocks\<close>.\<close>

definition find_idx_check ::
  "byte list \<Rightarrow> WeightArray list \<Rightarrow> byte list \<Rightarrow> int \<Rightarrow> int \<Rightarrow> (int \<times> int) option option" where
  "find_idx_check mem arrays name nb_in nb_out = do {
     a \<leftarrow> find_array_entry mem arrays name;
     s \<leftarrow> wa_size a;
     r \<leftarrow> idx_loop mem nb_in (wa_data a) (s div 4) nb_out 0;
     Some (case r of None \<Rightarrow> None | Some tot \<Rightarrow> Some (wa_data a, tot))
   }"

section \<open>Layers\<close>

text \<open>
  \<open>linear_init\<close> and \<open>conv2d_init\<close> return 1 at the first array that is missing or of the wrong
  size: \<open>Some None\<close> here (the half-filled layer is not used by any caller), \<open>Some (Some l)\<close>
  for a return of 0. \<open>and_then\<close> is the \<open>if ((x = ...) == NULL) return 1;\<close> of the code.
\<close>

definition and_then :: "'a option option \<Rightarrow> ('a \<Rightarrow> 'b option option) \<Rightarrow> 'b option option" where
  "and_then r f = (case r of None \<Rightarrow> None | Some None \<Rightarrow> Some None | Some (Some x) \<Rightarrow> f x)"

text \<open>A required array (when its name is not NULL), and an optional one.\<close>

definition required ::
  "byte list \<Rightarrow> WeightArray list \<Rightarrow> byte list option \<Rightarrow> int \<Rightarrow> int option option option" where
  "required mem arrays name sz =
     (case name of
        None \<Rightarrow> Some (Some None)
      | Some n \<Rightarrow> and_then (find_array_check mem arrays n sz) (\<lambda>p. Some (Some (Some p))))"

definition optional ::
  "byte list \<Rightarrow> WeightArray list \<Rightarrow> byte list option \<Rightarrow> int \<Rightarrow> int option option option" where
  "optional mem arrays name sz =
     (case name of
        None \<Rightarrow> Some (Some None)
      | Some n \<Rightarrow>
          (case opt_array_check mem arrays n sz of
             None \<Rightarrow> None
           | Some (p, err) \<Rightarrow> if err then Some None else Some (Some p)))"

definition linear_init ::
  "byte list \<Rightarrow> WeightArray list \<Rightarrow> byte list option \<Rightarrow> byte list option \<Rightarrow> byte list option \<Rightarrow>
   byte list option \<Rightarrow> byte list option \<Rightarrow> byte list option \<Rightarrow> byte list \<Rightarrow> int \<Rightarrow> int \<Rightarrow>
   LinearLayer option option" where
  "linear_init mem arrays bias' subias' weights' float_weights' weights_idx' diag' scale' nb_in nb_out =
     and_then (required mem arrays bias' (nb_out * 4)) (\<lambda>b.
     and_then (required mem arrays subias' (nb_out * 4)) (\<lambda>sb.
     and_then
       (case weights_idx' of
          Some wi \<Rightarrow>
            and_then (find_idx_check mem arrays wi nb_in nb_out) (\<lambda>(ix, total_blocks).
            and_then (required mem arrays weights' (SPARSE_BLOCK_SIZE * total_blocks)) (\<lambda>w.
            and_then (optional mem arrays float_weights' (SPARSE_BLOCK_SIZE * total_blocks * 4)) (\<lambda>fw.
              Some (Some (Some ix, w, fw)))))
        | None \<Rightarrow>
            and_then (required mem arrays weights' (nb_in * nb_out)) (\<lambda>w.
            and_then (optional mem arrays float_weights' (nb_in * nb_out * 4)) (\<lambda>fw.
              Some (Some (None, w, fw))))) (\<lambda>(ix, w, fw).
     and_then (required mem arrays diag' (nb_out * 4)) (\<lambda>d.
     and_then (if weights' \<noteq> None then required mem arrays (Some scale') (nb_out * 4)
               else Some (Some None)) (\<lambda>sc.
       Some (Some \<lparr>bias = b, subias = sb, weights = w, float_weights = fw, weights_idx = ix,
                   diag = d, l_scale = sc, nb_inputs = nb_in, nb_outputs = nb_out\<rparr>))))))"

definition conv2d_init ::
  "byte list \<Rightarrow> WeightArray list \<Rightarrow> byte list option \<Rightarrow> byte list option \<Rightarrow> int \<Rightarrow> int \<Rightarrow> int \<Rightarrow> int \<Rightarrow>
   Conv2dLayer option option" where
  "conv2d_init mem arrays bias' float_weights' inc outc kt kh =
     and_then (required mem arrays bias' (outc * 4)) (\<lambda>b.
     and_then (optional mem arrays float_weights' (inc * outc * kt * kh * 4)) (\<lambda>fw.
       Some (Some \<lparr>c_bias = b, c_float_weights = fw, in_channels = inc, out_channels = outc,
                   ktime = kt, kheight = kh\<rparr>)))"

section \<open>The parser stays inside the file\<close>

text \<open>A pointer to \<open>n\<close> bytes of the file.\<close>

definition region :: "byte list \<Rightarrow> int \<Rightarrow> int \<Rightarrow> bool" where
  "region mem p n \<longleftrightarrow> 0 \<le> p \<and> 0 \<le> n \<and> p + n \<le> int (length mem)"

definition array_ok :: "byte list \<Rightarrow> WeightArray \<Rightarrow> bool" where
  "array_ok mem a \<longleftrightarrow>
     (\<exists>p s n. wa_name a = Some p \<and> cstr mem p = Some s \<and> length s < 44 \<and>
        wa_size a = Some n \<and> 0 < n \<and> region mem (wa_data a) n)"

lemma cstr_within:
  assumes "rd mem (p + 43) = Some 0" "0 \<le> p"
  obtains s where "cstr mem p = Some s" "length s < 44"
proof -
  have b: "nat p + 43 < length mem" "mem ! (nat p + 43) = 0"
    using assms by (auto simp: rd_Some_iff nat_add_distrib)
  let ?d = "drop (nat p) mem"
  have d: "43 < length ?d" "?d ! 43 = 0" using b by (simp_all add: add.commute)
  then have "length (takeWhile (\<lambda>c. c \<noteq> 0) ?d) \<le> 43"
    by (metis (mono_tags, lifting) not_le_imp_less nth_mem set_takeWhileD takeWhile_nth)
  moreover have "0 \<in> set ?d" using d by (metis nth_mem)
  ultimately show ?thesis using that assms(2) by (simp add: cstr_def)
qed

lemma rd32_region: "region mem p n \<Longrightarrow> 0 \<le> k \<Longrightarrow> k + 4 \<le> n \<Longrightarrow> rd32 mem (p + k) \<noteq> None"
  by (simp add: region_def rd32_def)

lemma rd_region: "region mem p n \<Longrightarrow> 0 \<le> k \<Longrightarrow> k < n \<Longrightarrow> rd mem (p + k) \<noteq> None"
  by (simp add: region_def rd_def)

lemma parse_record_total:
  assumes "region mem data len"
  shows "parse_record mem data len array \<noteq> None"
proof (cases "len < WEIGHT_BLOCK_SIZE")
  case False
  then have "64 \<le> len" by (simp add: weight_head)
  then have "rd32 mem (data + h_block_size) \<noteq> None" "rd32 mem (data + h_size) \<noteq> None"
    "rd32 mem (data + h_type) \<noteq> None"
    using rd32_region [OF assms] by (simp_all add: weight_head)
  moreover have "rd mem (data + h_name + 43) \<noteq> None"
    using rd_region [OF assms, of "h_name + 43"] \<open>64 \<le> len\<close> by (simp add: weight_head add.assoc)
  ultimately show ?thesis by (auto simp: parse_record_def)
qed (simp add: parse_record_def)

lemma parse_record_array:
  assumes "region mem data len" "parse_record mem data len array = Some (ret, data', len', array')"
    "ret > 0"
  shows "array_ok mem array'" "region mem data' len'"
proof -
  note p = parse_record_progress [OF assms(2,3)]
  obtain s where "cstr mem (data + h_name) = Some s" "length s < 44"
    using cstr_within [of mem "data + h_name"] p(7) assms(1) by (auto simp: region_def weight_head)
  moreover have "region mem (data + WEIGHT_BLOCK_SIZE) ret"
    using p assms(1,3) by (auto simp: region_def weight_head)
  ultimately show "array_ok mem array'"
    using assms(3) by (subst p(6)) (simp add: array_ok_def)
  show "region mem data' len'"
    using p assms(1) by (auto simp: region_def)
qed

lemma parse_loop_safe:
  assumes "region mem data len" "nb = int (length arrs)" "nb < cap" "2 \<le> cap"
    and "\<forall>a\<in>set arrs. array_ok mem a"
  shows "parse_loop mem nb cap arrs data len = Some None \<or>
    (\<exists>arrs'. parse_loop mem nb cap arrs data len =
        Some (Some (int (length arrs'), arrs' @ [terminator (int (length arrs'))])) \<and>
       (\<forall>a\<in>set arrs'. array_ok mem a))"
  using assms
proof (induction mem nb cap arrs data len rule: parse_loop.induct)
  case (1 mem nb cap arrs data len)
  note prems = "1.prems"
  show ?case
  proof (cases "len > 0")
    case False
    then have "parse_loop mem nb cap arrs data len = Some (Some (nb, arrs @ [terminator nb]))"
      using prems by (simp add: parse_loop.simps)
    then show ?thesis using prems by auto
  next
    case True
    obtain ret data' len' array' where
      rec: "parse_record mem data len blank_array = Some (ret, data', len', array')"
      using parse_record_total [OF prems(1), of blank_array] by (metis not_None_eq prod_cases4)
    show ?thesis
    proof (cases "ret > 0")
      case False
      then show ?thesis using True rec by (simp add: parse_loop.simps [of mem nb])
    next
      case pos: True
      let ?cap = "if nb + 1 \<ge> cap then cap * 3 div 2 else cap"
      have cap: "nb + 1 < ?cap" using prems(3,4) by auto
      note ok = parse_record_array [OF prems(1) rec pos]
      have "parse_loop mem nb cap arrs data len =
          parse_loop mem (nb + 1) ?cap (arrs @ [array']) data' len'"
        using True rec pos cap by (simp add: parse_loop.simps [of mem nb])
      then show ?thesis
        using "1.IH" [OF True rec refl refl refl pos refl] cap prems ok by auto
    qed
  qed
qed

text \<open>A parsed list: well-formed arrays, then the terminator.\<close>

definition parsed :: "byte list \<Rightarrow> WeightArray list \<Rightarrow> bool" where
  "parsed mem arrays \<longleftrightarrow> (\<exists>arrs. arrays = arrs @ [terminator (int (length arrs))] \<and>
     (\<forall>a\<in>set arrs. array_ok mem a))"

lemma find_array_entry_total:
  assumes "\<forall>a\<in>set arrs. array_ok mem a"
  shows "\<exists>a. find_array_entry mem (arrs @ [terminator nb]) name = Some a \<and>
     (a = terminator nb \<or> a \<in> set arrs)"
  using assms
proof (induction arrs)
  case Nil
  then show ?case by (simp add: terminator_def)
next
  case (Cons a arrs)
  then obtain p s where "wa_name a = Some p" "cstr mem p = Some s" by (auto simp: array_ok_def)
  then show ?case using Cons by (cases "s = name") auto
qed

lemma find_array_check_ok:
  assumes "parsed mem arrays"
  shows "\<exists>r. find_array_check mem arrays name sz = Some r \<and> (\<forall>p. r = Some p \<longrightarrow> region mem p sz)"
proof -
  obtain arrs where arrs: "arrays = arrs @ [terminator (int (length arrs))]" "\<forall>a\<in>set arrs. array_ok mem a"
    using assms by (auto simp: parsed_def)
  obtain a where a: "find_array_entry mem arrays name = Some a"
    "a = terminator (int (length arrs)) \<or> a \<in> set arrs"
    using find_array_entry_total [OF arrs(2)] arrs(1) by blast
  from a(2) show ?thesis
  proof
    assume "a = terminator (int (length arrs))"
    then show ?thesis using a(1) by (simp add: find_array_check_def terminator_def)
  next
    assume "a \<in> set arrs"
    then obtain n where "wa_name a \<noteq> None" "wa_size a = Some n" "region mem (wa_data a) n"
      using arrs(2) by (auto simp: array_ok_def)
    then show ?thesis using a(1) by (auto simp: find_array_check_def)
  qed
qed

lemma opt_array_check_ok:
  assumes "parsed mem arrays"
  shows "\<exists>r err. opt_array_check mem arrays name sz = Some (r, err) \<and> (\<forall>p. r = Some p \<longrightarrow> region mem p sz)"
proof -
  obtain arrs where arrs: "arrays = arrs @ [terminator (int (length arrs))]" "\<forall>a\<in>set arrs. array_ok mem a"
    using assms by (auto simp: parsed_def)
  obtain a where a: "find_array_entry mem arrays name = Some a"
    "a = terminator (int (length arrs)) \<or> a \<in> set arrs"
    using find_array_entry_total [OF arrs(2)] arrs(1) by blast
  from a(2) show ?thesis
  proof
    assume "a = terminator (int (length arrs))"
    then show ?thesis using a(1) by (intro exI [of _ None] exI [of _ False])
      (simp add: opt_array_check_def terminator_def)
  next
    assume "a \<in> set arrs"
    then obtain n where "wa_name a \<noteq> None" "wa_size a = Some n" "region mem (wa_data a) n"
      using arrs(2) by (auto simp: array_ok_def)
    then show ?thesis using a(1) by (auto simp: opt_array_check_def)
  qed
qed

lemma required_ok:
  assumes "parsed mem arrays"
  shows "required mem arrays name sz \<noteq> None \<and>
    (\<forall>p. required mem arrays name sz = Some (Some (Some p)) \<longrightarrow> region mem p sz)"
  using find_array_check_ok [OF assms, of "the name" sz]
  by (auto simp: required_def and_then_def split: option.splits)

lemma optional_ok:
  assumes "parsed mem arrays"
  shows "optional mem arrays name sz \<noteq> None \<and>
    (\<forall>p. optional mem arrays name sz = Some (Some (Some p)) \<longrightarrow> region mem p sz)"
  using opt_array_check_ok [OF assms, of "the name" sz]
  by (auto simp: optional_def split: option.splits)

lemma and_then_Some:
  "and_then r f = Some (Some y) \<longleftrightarrow> (\<exists>x. r = Some (Some x) \<and> f x = Some (Some y))"
  by (auto simp: and_then_def split: option.splits)

section \<open>Writing a weight file\<close>

text \<open>One record of the format, and the bytes of it: the inverse the parser is checked against.\<close>

record weight_record =
  e_head :: "byte list"
  e_version :: int
  e_type :: int
  e_name :: "byte list"
  e_data :: "byte list"
  e_pad :: nat

definition enc32 :: "int \<Rightarrow> byte list" where
  "enc32 n = map (\<lambda>k. word_of_int (n div 256 ^ k)) [0..<4]"

definition enc_record :: "weight_record \<Rightarrow> byte list" where
  "enc_record r = e_head r @ enc32 (e_version r) @ enc32 (e_type r) @
     enc32 (int (length (e_data r))) @ enc32 (int (length (e_data r) + e_pad r)) @
     (e_name r @ replicate (44 - length (e_name r)) 0) @ e_data r @ replicate (e_pad r) 0"

definition rec_ok :: "weight_record \<Rightarrow> bool" where
  "rec_ok r \<longleftrightarrow> length (e_head r) = 4 \<and> 0 \<le> e_type r \<and> e_type r < 2 ^ 31 \<and> e_data r \<noteq> [] \<and>
     length (e_name r) < 44 \<and> 0 \<notin> set (e_name r) \<and>
     int (length (e_data r) + e_pad r) < 2 ^ 31"

definition array_at :: "int \<Rightarrow> weight_record \<Rightarrow> WeightArray" where
  "array_at off r = \<lparr>wa_name = Some (off + h_name), wa_type = e_type r,
     wa_size = Some (int (length (e_data r))), wa_data = off + WEIGHT_BLOCK_SIZE\<rparr>"

fun arrays_at :: "int \<Rightarrow> weight_record list \<Rightarrow> WeightArray list" where
  "arrays_at off [] = []"
| "arrays_at off (r # rs) = array_at off r # arrays_at (off + int (length (enc_record r))) rs"

lemma length_enc32 [simp]: "length (enc32 n) = 4"
  by (simp add: enc32_def)

lemma length_enc_record:
  "rec_ok r \<Longrightarrow> length (enc_record r) = 64 + length (e_data r) + e_pad r"
  by (simp add: enc_record_def rec_ok_def)

lemma enc32_bytes: "enc32 n = [word_of_int n, word_of_int (n div 256), word_of_int (n div 65536),
    word_of_int (n div 16777216)]"
  by (simp add: enc32_def upt_rec)

lemma digits_256:
  fixes n :: int
  assumes "0 \<le> n" "n < 4294967296"
  shows "n mod 256 + 256 * (n div 256 mod 256) + 65536 * (n div 65536 mod 256) +
    16777216 * (n div 16777216 mod 256) = n"
proof -
  have key: "n = r + 256 * a \<Longrightarrow> a = s + 256 * b \<Longrightarrow> b = t + 256 * c \<Longrightarrow>
      r + 256 * s + 65536 * t + 16777216 * c = n" for r s t a b c :: int
    by simp
  define a b c where "a = n div 256" and "b = a div 256" and "c = b div 256"
  have bc: "n div 65536 = b" "n div 16777216 = c"
    by (simp_all add: a_def b_def c_def zdiv_zmult2_eq [symmetric])
  have "0 \<le> c" "c < 256" unfolding bc(2) [symmetric] using assms by (auto intro: div_less_iff_less_mult [THEN iffD2])
  then have c: "c mod 256 = c" by simp
  have "n mod 256 + 256 * (a mod 256) + 65536 * (b mod 256) + 16777216 * c = n"
    by (rule key [where a = a and b = b]) (simp_all add: a_def b_def c_def)
  then show ?thesis by (simp only: bc a_def [symmetric] c)
qed

lemma uint_byte_of_int: "uint (word_of_int k :: byte) = k mod 256"
  by (simp add: uint_word_of_int)

lemma le32_enc32:
  assumes "0 \<le> n" "n < 2 ^ 31"
  shows "le32 (enc32 n) = n"
proof -
  have "n < 4294967296" using assms(2) by simp
  from digits_256 [OF assms(1) this] show ?thesis
    using assms(2) by (simp only: enc32_bytes le32.simps Let_def uint_byte_of_int if_True)
qed

lemma rd32_enc32:
  assumes "0 \<le> n" "n < 2 ^ 31" "p = int (length pre)"
  shows "rd32 (pre @ enc32 n @ post) p = Some n"
  using assms by (simp add: rd32_def le32_enc32)

lemma rd_append: "rd (pre @ x # post) (int (length pre)) = Some x"
  by (simp add: rd_def nth_append)

lemma enc_record_fields:
  assumes ok: "rec_ok r"
  shows "rd32 (pre @ enc_record r @ post) (int (length pre) + h_type) = Some (e_type r)"
    and "rd32 (pre @ enc_record r @ post) (int (length pre) + h_size) = Some (int (length (e_data r)))"
    and "rd32 (pre @ enc_record r @ post) (int (length pre) + h_block_size) =
       Some (int (length (e_data r) + e_pad r))"
    and "rd (pre @ enc_record r @ post) (int (length pre) + h_name + 43) = Some 0"
    and "cstr (pre @ enc_record r @ post) (int (length pre) + h_name) = Some (e_name r)"
    and "take (length (e_data r)) (drop (nat (int (length pre) + WEIGHT_BLOCK_SIZE)) (pre @ enc_record r @ post)) =
       e_data r"
proof -
  let ?h = "pre @ e_head r @ enc32 (e_version r)"
  let ?n = "int (length (e_data r))" and ?b = "int (length (e_data r) + e_pad r)"
  let ?rest = "(e_name r @ replicate (44 - length (e_name r)) 0) @ e_data r @ replicate (e_pad r) 0 @ post"
  have m: "pre @ enc_record r @ post = ?h @ enc32 (e_type r) @ enc32 ?n @ enc32 ?b @ ?rest"
    by (simp add: enc_record_def)
  have r: "length (e_head r) = 4" "0 \<le> e_type r" "e_type r < 2 ^ 31" "length (e_name r) < 44"
    "0 \<notin> set (e_name r)" "?n < 2 ^ 31" "?b < 2 ^ 31"
    using ok by (auto simp: rec_ok_def)
  show "rd32 (pre @ enc_record r @ post) (int (length pre) + h_type) = Some (e_type r)"
    unfolding m by (rule rd32_enc32) (use r in \<open>auto simp: weight_head\<close>)
  have "rd32 ((?h @ enc32 (e_type r)) @ enc32 ?n @ enc32 ?b @ ?rest) (int (length pre) + h_size) = Some ?n"
    by (rule rd32_enc32) (use r in \<open>auto simp: weight_head\<close>)
  then show "rd32 (pre @ enc_record r @ post) (int (length pre) + h_size) = Some ?n"
    unfolding m by simp
  have "rd32 ((?h @ enc32 (e_type r) @ enc32 ?n) @ enc32 ?b @ ?rest) (int (length pre) + h_block_size) = Some ?b"
    by (rule rd32_enc32) (use r in \<open>auto simp: weight_head\<close>)
  then show "rd32 (pre @ enc_record r @ post) (int (length pre) + h_block_size) = Some ?b"
    unfolding m by simp
  let ?names = "?h @ enc32 (e_type r) @ enc32 ?n @ enc32 ?b"
  let ?z = "43 - length (e_name r)"
  have z: "replicate (44 - length (e_name r)) (0::byte) = replicate ?z 0 @ [0]"
    "replicate (44 - length (e_name r)) (0::byte) = 0 # replicate ?z 0"
    using r(4) by (simp_all add: replicate_append_same Suc_diff_le flip: replicate_Suc)
  have l: "int (length (?names @ e_name r @ replicate ?z 0)) = int (length pre) + h_name + 43"
    using r(1,4) by (simp add: weight_head)
  have "rd ((?names @ e_name r @ replicate ?z 0) @ 0 # e_data r @ replicate (e_pad r) 0 @ post)
      (int (length pre) + h_name + 43) = Some 0"
    unfolding l [symmetric] by (rule rd_append)
  then show "rd (pre @ enc_record r @ post) (int (length pre) + h_name + 43) = Some 0"
    unfolding m by (simp add: z(1))
  have d: "drop (nat (int (length pre) + h_name)) (pre @ enc_record r @ post) = ?rest"
    unfolding m using r(1) by (simp add: weight_head nat_add_distrib)
  have "takeWhile (\<lambda>c. c \<noteq> 0) ?rest = e_name r"
    using r(5) by (subst append_assoc, subst takeWhile_append2) (auto simp: z(2))
  then show "cstr (pre @ enc_record r @ post) (int (length pre) + h_name) = Some (e_name r)"
    using d by (simp add: cstr_def h_name_def z(2))
  have "drop (nat (int (length pre) + WEIGHT_BLOCK_SIZE)) (pre @ enc_record r @ post) =
      e_data r @ replicate (e_pad r) 0 @ post"
    unfolding m using r(1,4) by (simp add: weight_head nat_add_distrib)
  then show "take (length (e_data r)) (drop (nat (int (length pre) + WEIGHT_BLOCK_SIZE))
      (pre @ enc_record r @ post)) = e_data r" by simp
qed

lemma parse_record_enc:
  assumes "rec_ok r" "int (length (enc_record r)) \<le> len"
  shows "parse_record (pre @ enc_record r @ post) (int (length pre)) len array =
    Some (int (length (e_data r)), int (length pre) + int (length (enc_record r)),
      len - int (length (enc_record r)), array_at (int (length pre)) r)"
proof -
  note f = enc_record_fields [OF assms(1), of pre post]
  have l: "int (length (enc_record r)) = 64 + int (length (e_data r) + e_pad r)"
    using length_enc_record [OF assms(1)] by simp
  then show ?thesis
    unfolding parse_record_def f using assms(2)
    by (simp add: array_at_def weight_head f [unfolded weight_head])
qed

lemma parse_loop_enc:
  assumes "\<forall>r\<in>set rs. rec_ok r" "nb < cap" "2 \<le> cap"
  shows "parse_loop (pre @ concat (map enc_record rs)) nb cap arrs (int (length pre))
      (int (length (concat (map enc_record rs)))) =
    Some (Some (nb + int (length rs),
      arrs @ arrays_at (int (length pre)) rs @ [terminator (nb + int (length rs))]))"
  using assms
proof (induction rs arbitrary: pre nb cap arrs)
  case Nil
  then show ?case by (simp add: parse_loop.simps)
next
  case (Cons r rs)
  let ?e = "enc_record r" and ?es = "concat (map enc_record rs)"
  let ?cap = "if nb + 1 \<ge> cap then cap * 3 div 2 else cap"
  have r: "rec_ok r" using Cons.prems(1) by simp
  have pos: "0 < length (e_data r)" using r by (simp add: rec_ok_def)
  have len: "0 < length ?e" using length_enc_record [OF r] by simp
  have rec: "parse_record (pre @ ?e @ ?es) (int (length pre)) (int (length (?e @ ?es))) blank_array =
      Some (int (length (e_data r)), int (length (pre @ ?e)), int (length ?es),
        array_at (int (length pre)) r)"
    using parse_record_enc [OF r, of "int (length (?e @ ?es))"] by simp
  have cap: "nb + 1 < ?cap" "2 \<le> ?cap" using Cons.prems(2,3) by auto
  have "parse_loop (pre @ ?e @ ?es) nb cap arrs (int (length pre)) (int (length (?e @ ?es))) =
      parse_loop (pre @ ?e @ ?es) (nb + 1) ?cap (arrs @ [array_at (int (length pre)) r])
        (int (length (pre @ ?e))) (int (length ?es))"
  proof -
    have "0 < int (length (?e @ ?es))" using len unfolding length_append by linarith
    then show ?thesis
      using rec cap(1) pos by (subst parse_loop.simps) (simp add: Let_def del: length_append)
  qed
  also have "\<dots> = parse_loop ((pre @ ?e) @ ?es) (nb + 1) ?cap (arrs @ [array_at (int (length pre)) r])
        (int (length (pre @ ?e))) (int (length ?es))"
    by (simp only: append_assoc)
  also have "\<dots> = Some (Some (nb + 1 + int (length rs),
      (arrs @ [array_at (int (length pre)) r]) @ arrays_at (int (length (pre @ ?e))) rs @
        [terminator (nb + 1 + int (length rs))]))"
    by (rule Cons.IH [OF _ cap]) (use Cons.prems(1) in simp)
  finally show ?case by (simp add: algebra_simps)
qed

text \<open>What a parsed array shows of the record it came from.\<close>

definition reads_back :: "byte list \<Rightarrow> WeightArray \<Rightarrow> weight_record \<Rightarrow> bool" where
  "reads_back mem a r \<longleftrightarrow>
     (\<exists>p. wa_name a = Some p \<and> cstr mem p = Some (e_name r)) \<and> wa_type a = e_type r \<and>
     wa_size a = Some (int (length (e_data r))) \<and>
     take (length (e_data r)) (drop (nat (wa_data a)) mem) = e_data r"

lemma arrays_at_read_back:
  assumes "\<forall>r\<in>set rs. rec_ok r"
  shows "list_all2 (reads_back (pre @ concat (map enc_record rs))) (arrays_at (int (length pre)) rs) rs"
  using assms
proof (induction rs arbitrary: pre)
  case (Cons r rs)
  let ?es = "concat (map enc_record rs)"
  have "list_all2 (reads_back ((pre @ enc_record r) @ ?es))
      (arrays_at (int (length (pre @ enc_record r))) rs) rs"
    by (rule Cons.IH) (use Cons.prems in simp)
  moreover have "reads_back (pre @ enc_record r @ ?es) (array_at (int (length pre)) r) r"
    using enc_record_fields(5,6) [of r pre ?es] Cons.prems by (simp add: reads_back_def array_at_def)
  ultimately show ?case by simp
qed simp

section \<open>The index array of a sparse layer\<close>

definition ints_at :: "byte list \<Rightarrow> int \<Rightarrow> nat \<Rightarrow> int list" where
  "ints_at mem p n = map (\<lambda>i. le32 (take 4 (drop (nat p + 4 * i) mem))) [0..<n]"

text \<open>
  What a sparse product needs of the index: for every group of eight rows a count and that
  many column positions, each of which names four inputs in range; \<open>tot\<close> blocks in all.
\<close>

fun blocks_ok :: "int list \<Rightarrow> int \<Rightarrow> int \<Rightarrow> nat \<Rightarrow> bool" where
  "blocks_ok [] nb_in tot 0 = (tot = 0)"
| "blocks_ok (n # ints) nb_in tot (Suc groups) =
     (0 \<le> n \<and> nat n \<le> length ints \<and>
      (\<forall>pos\<in>set (take (nat n) ints). 0 \<le> pos \<and> pos + 3 < nb_in \<and> 4 dvd pos) \<and>
      blocks_ok (drop (nat n) ints) nb_in (tot - n) groups)"
| "blocks_ok _ nb_in tot _ = False"

lemma length_ints_at [simp]: "length (ints_at mem p n) = n"
  by (simp add: ints_at_def)

lemma ints_at_Suc:
  "0 \<le> p \<Longrightarrow> ints_at mem p (Suc n) = le32 (take 4 (drop (nat p) mem)) # ints_at mem (p + 4) n"
  by (intro nth_equalityI)
     (auto simp: ints_at_def nth_Cons nat_add_distrib algebra_simps simp del: upt_Suc split: nat.split)

lemma drop_ints_at:
  "0 \<le> p \<Longrightarrow> k \<le> n \<Longrightarrow> drop k (ints_at mem p n) = ints_at mem (p + 4 * int k) (n - k)"
proof (induction k arbitrary: p n)
  case (Suc k)
  then obtain m where "n = Suc m" by (cases n) auto
  then show ?case using Suc by (simp add: ints_at_Suc algebra_simps)
qed simp

lemma and_3_mod_4: "(x::int) AND 3 = x mod 4"
  using take_bit_eq_mask [of 2 x] by (simp add: take_bit_eq_mod mask_eq_exp_minus_1)

lemma idx_block_sound:
  assumes "idx_block mem nb_in n idx = Some (Some idx')" "0 \<le> idx" "n \<le> m"
    and "\<forall>x\<in>set (ints_at mem idx m). 0 \<le> x"
  shows "\<forall>pos\<in>set (take n (ints_at mem idx m)). 0 \<le> pos \<and> pos + 3 < nb_in \<and> 4 dvd pos"
  using assms
proof (induction n arbitrary: idx m)
  case (Suc n)
  then obtain m' where m: "m = Suc m'" by (cases m) auto
  let ?x = "le32 (take 4 (drop (nat idx) mem))"
  have step: "rd32 mem idx = Some ?x" "?x + 3 < nb_in" "?x AND 3 = 0"
    "idx_block mem nb_in n (idx + 4) = Some (Some idx')"
    using Suc.prems(1)
    by (auto simp: bind_eq_Some_conv rd32_def chk32_def split: if_splits)
  have "\<forall>pos\<in>set (take n (ints_at mem (idx + 4) m')). 0 \<le> pos \<and> pos + 3 < nb_in \<and> 4 dvd pos"
    by (rule Suc.IH [OF step(4)]) (use Suc.prems m in \<open>auto simp: ints_at_Suc\<close>)
  then show ?case
    using step(2,3) Suc.prems m by (auto simp: ints_at_Suc and_3_mod_4 mod_eq_0_iff_dvd)
qed simp

lemma idx_loop_stepD:
  assumes "idx_loop mem nb_in idx remain nb_out tot = Some (Some T)" "0 < remain"
  obtains n idx' where "rd32 mem idx = Some n" "n = le32 (take 4 (drop (nat idx) mem))"
    "chk32 (n + 1) = Some (n + 1)" "n + 1 \<le> remain"
    "idx_block mem nb_in (nat n) (idx + 4) = Some (Some idx')" "idx' = idx + 4 + 4 * int (nat n)"
    "idx_loop mem nb_in idx' (remain - (n + 1)) (nb_out - 8) (tot + n) = Some (Some T)"
proof -
  obtain n where n: "rd32 mem idx = Some n"
    using assms by (auto simp: idx_loop.simps [of mem nb_in idx] split: option.splits)
  obtain n1 where n1: "chk32 (n + 1) = Some n1"
    using assms n by (auto simp: idx_loop.simps [of mem nb_in idx] split: option.splits)
  then have [simp]: "n1 = n + 1" by (simp add: chk32_def split: if_splits)
  have le: "n + 1 \<le> remain"
    using assms n n1 by (simp add: idx_loop.simps [of mem nb_in idx] split: if_splits)
  obtain idx' where b: "idx_block mem nb_in (nat n) (idx + 4) = Some (Some idx')"
    using assms n n1 le by (simp add: idx_loop.simps [of mem nb_in idx] split: option.splits)
  have "idx_loop mem nb_in idx' (remain - (n + 1)) (nb_out - 8) (tot + n) = Some (Some T)"
    using assms n n1 le b by (simp add: idx_loop.simps [of mem nb_in idx])
  moreover have "n = le32 (take 4 (drop (nat idx) mem))"
    using n by (simp add: rd32_def split: if_splits)
  ultimately show ?thesis using that n n1 le b idx_block_end [OF b] by simp
qed

lemma idx_loop_sound:
  assumes "idx_loop mem nb_in idx remain nb_out tot = Some (Some T)" "0 \<le> idx"
    and "\<forall>x\<in>set (ints_at mem idx (nat remain)). 0 \<le> x" "0 \<le> remain"
  shows "nb_out mod 8 = 0 \<and> 0 \<le> nb_out \<and>
    blocks_ok (ints_at mem idx (nat remain)) nb_in (T - tot) (nat (nb_out div 8))"
  using assms
proof (induction mem nb_in idx remain nb_out tot rule: idx_loop.induct)
  case (1 mem nb_in idx remain nb_out tot)
  show ?case
  proof (cases "remain > 0")
    case False
    then have "nb_out = 0" "T = tot" "nat remain = 0"
      using "1.prems" by (auto simp: idx_loop.simps [of mem nb_in idx] split: if_splits)
    then show ?thesis by (simp add: ints_at_def)
  next
    case True
    obtain n idx' where s: "rd32 mem idx = Some n" "n = le32 (take 4 (drop (nat idx) mem))"
      "chk32 (n + 1) = Some (n + 1)" "n + 1 \<le> remain"
      "idx_block mem nb_in (nat n) (idx + 4) = Some (Some idx')" "idx' = idx + 4 + 4 * int (nat n)"
      "idx_loop mem nb_in idx' (remain - (n + 1)) (nb_out - 8) (tot + n) = Some (Some T)"
      by (rule idx_loop_stepD [OF "1.prems"(1) True])
    obtain m where m: "nat remain = Suc m" using True by (cases "nat remain") auto
    have ints: "ints_at mem idx (nat remain) = n # ints_at mem (idx + 4) m"
      using "1.prems"(2) m s(2) by (simp add: ints_at_Suc)
    have n: "0 \<le> n" using "1.prems"(3) ints by simp
    have nm: "nat n \<le> m" using s(4) m n by linarith
    have rest: "drop (nat n) (ints_at mem (idx + 4) m) = ints_at mem idx' (nat (remain - (n + 1)))"
    proof -
      have "m - nat n = nat (remain - (n + 1))" using m n by linarith
      then show ?thesis using "1.prems"(2) nm s(6) by (simp add: drop_ints_at)
    qed
    have nonneg: "\<forall>x\<in>set (ints_at mem idx' (nat (remain - (n + 1)))). 0 \<le> x"
      unfolding rest [symmetric] using "1.prems"(3) ints by (auto dest: in_set_dropD)
    have IH: "(nb_out - 8) mod 8 = 0 \<and> 0 \<le> nb_out - 8 \<and>
        blocks_ok (ints_at mem idx' (nat (remain - (n + 1)))) nb_in (T - (tot + n)) (nat ((nb_out - 8) div 8))"
      by (rule "1.IH" [OF True s(1) s(3) _ s(5) refl s(7)])
        (use s(4,6) n "1.prems"(2) nonneg in simp_all)
    have "\<forall>pos\<in>set (take (nat n) (ints_at mem (idx + 4) m)). 0 \<le> pos \<and> pos + 3 < nb_in \<and> 4 dvd pos"
      by (rule idx_block_sound [OF s(5)]) (use "1.prems"(2,3) nm ints in simp_all)
    moreover have m8: "(nb_out - 8) mod 8 = 0" "0 \<le> nb_out - 8"
      and ok: "blocks_ok (ints_at mem idx' (nat (remain - (n + 1)))) nb_in (T - (tot + n))
        (nat ((nb_out - 8) div 8))" using IH by blast+
    moreover have "nb_out mod 8 = 0" using m8(1) by presburger
    moreover have "nat (nb_out div 8) = Suc (nat ((nb_out - 8) div 8))"
    proof -
      have "nb_out div 8 = (nb_out - 8) div 8 + 1" by simp
      moreover have "0 \<le> (nb_out - 8) div 8" using m8(2) by (simp add: pos_imp_zdiv_nonneg_iff)
      ultimately show ?thesis by (simp only: Suc_nat_eq_nat_zadd1 add.commute)
    qed
    moreover have "T - tot - n = T - (tot + n)" by simp
    ultimately show ?thesis
      using n nm unfolding ints rest [symmetric] by (simp only: blocks_ok.simps length_ints_at) simp
  qed
qed

section \<open>Properties\<close>

text \<open>
  C12. Parsing any file is safe: whatever the bytes, \<open>parse_weights\<close> reads inside the buffer it
  is given, overruns no allocation, terminates, and either rejects the file or returns a list
  in which every array has a terminated name of at most 43 characters and a data pointer with
  its declared size, all inside the buffer, followed by the terminator.
\<close>

theorem parse_weights_safe:
  assumes "0 \<le> len" "len \<le> int (length mem)"
  shows "parse_weights mem len = Some None \<or>
    (\<exists>arrays. parse_weights mem len = Some (Some (int (length arrays) - 1, arrays)) \<and> parsed mem arrays)"
proof -
  have "region mem 0 len" using assms by (simp add: region_def)
  from parse_loop_safe [OF this, of 0 "[]" 20]
  show ?thesis by (auto simp: parse_weights_def parsed_def)
qed

lemma small_file: "parse_weights (replicate 64 0) 64 = Some None"
  by code_simp

theorem parse_weights_safe_witness:
  "parse_weights (replicate 64 0) 64 = Some None \<or>
    (\<exists>arrays. parse_weights (replicate 64 0) 64 = Some (Some (int (length arrays) - 1, arrays)) \<and>
      parsed (replicate 64 0) arrays)"
  by (rule parse_weights_safe) simp_all

text \<open>
  C13. Round trip: a file written record by record in the format of \<open>WeightHead\<close>, with any
  padding, is parsed back to as many arrays, in order, with the same names, types, sizes and
  contents.
\<close>

theorem parse_weights_roundtrip:
  assumes "\<forall>r\<in>set rs. rec_ok r" "mem = concat (map enc_record rs)"
  shows "\<exists>arrs. parse_weights mem (int (length mem)) =
      Some (Some (int (length rs), arrs @ [terminator (int (length rs))])) \<and>
    list_all2 (reads_back mem) arrs rs"
  using parse_loop_enc [OF assms(1), of 0 20 "[]" "[]"] arrays_at_read_back [OF assms(1), of "[]"] assms(2)
  by (auto simp: parse_weights_def)

definition demo_record :: weight_record where
  "demo_record = \<lparr>e_head = [1, 2, 3, 4], e_version = 0, e_type = 1, e_name = [97, 98],
     e_data = [5, 6, 7, 8], e_pad = 4\<rparr>"

theorem parse_weights_roundtrip_witness:
  "\<exists>arrs. parse_weights (enc_record demo_record) 72 = Some (Some (1, arrs @ [terminator 1])) \<and>
     list_all2 (reads_back (enc_record demo_record)) arrs [demo_record]"
proof -
  have "rec_ok demo_record" by (simp add: rec_ok_def demo_record_def)
  moreover from length_enc_record [OF this] have "length (enc_record demo_record) = 72"
    by (simp add: demo_record_def)
  ultimately show ?thesis
    using parse_weights_roundtrip [of "[demo_record]" "enc_record demo_record"] by simp
qed

lemma required_region:
  "parsed mem arrays \<Longrightarrow> required mem arrays nm sz = Some (Some (Some p)) \<Longrightarrow> region mem p sz"
  using required_ok by blast

lemma optional_region:
  "parsed mem arrays \<Longrightarrow> optional mem arrays nm sz = Some (Some (Some p)) \<Longrightarrow> region mem p sz"
  using optional_ok by blast



definition bad_index_file :: "byte list" where
  "bad_index_file = enc_record \<lparr>e_head = [0, 0, 0, 0], e_version = 0, e_type = 1, e_name = [120],
     e_data = [1, 0, 0, 0, 252, 255, 255, 255], e_pad = 0\<rparr>"


section \<open>Witnesses\<close>

definition layer_file :: "byte list" where
  "layer_file = concat (map enc_record
     [\<lparr>e_head = [0, 0, 0, 0], e_version = 0, e_type = 1, e_name = [105],
       e_data = [1, 0, 0, 0, 0, 0, 0, 0], e_pad = 0\<rparr>,
      \<lparr>e_head = [0, 0, 0, 0], e_version = 0, e_type = 0, e_name = [119],
       e_data = replicate 128 0, e_pad = 0\<rparr>])"

definition layer_arrays :: "WeightArray list" where
  "layer_arrays = [\<lparr>wa_name = Some 20, wa_type = 1, wa_size = Some 8, wa_data = 64\<rparr>,
     \<lparr>wa_name = Some 92, wa_type = 0, wa_size = Some 128, wa_data = 136\<rparr>, terminator 2]"

lemma layer_parsed: "parsed layer_file layer_arrays"
proof -
  have "parse_weights layer_file 264 = Some (Some (2, layer_arrays))" "int (length layer_file) = 264"
    by code_simp+
  then show ?thesis using parse_weights_safe [of 264 layer_file] by auto
qed

lemma layer_init:
  "linear_init layer_file layer_arrays None None None (Some [119]) (Some [105]) None [] 4 8 =
    Some (Some \<lparr>bias = None, subias = None, weights = None, float_weights = Some 136,
      weights_idx = Some 64, diag = None, l_scale = None, nb_inputs = 4, nb_outputs = 8\<rparr>)"
  by code_simp



end
