(* ===== verification/Rnn_Nnet.thy ===== *)
theory Rnn_Nnet
  imports Rnn_Weights Rnn_Arch
begin

text \<open>
  The neural network of RNNoise: \<open>vec.h\<close> (the portable kernels, the ones compiled here: no
  \<open>/arch\<close> flag, so neither \<open>__AVX__\<close> nor \<open>__SSE2__\<close> is defined by the compiler),
  \<open>nnet_arch.h\<close>, \<open>nnet.c\<close> and \<open>rnn.c\<close>.

  Arrays of floats are lists over a type \<open>'a\<close> with the operations used and no laws; what is
  proved at \<open>'a\<close> holds with the rounding of \<open>float\<close>. Reads and writes are checked. The
  function \<open>floor\<close> and the conversions of C are the record \<open>fops\<close> of \<open>Rnn_Arch\<close>.
\<close>

section \<open>Dense products\<close>

definition madd ::
  "'a::{plus,times} list \<Rightarrow> nat \<Rightarrow> 'a list \<Rightarrow> nat \<Rightarrow> 'a \<Rightarrow> 'a list option" where
  "madd out i w j xj = do {
     y \<leftarrow> rd out (int i);
     c \<leftarrow> rd w (int j);
     wr out (int i) (y + c * xj)
   }"

text \<open>The unrolled kernels: \<open>n\<close> rows at a time.\<close>

definition sgemv_nx1 ::
  "nat \<Rightarrow> 'a::{zero,plus,times} list \<Rightarrow> nat \<Rightarrow> nat \<Rightarrow> nat \<Rightarrow> 'a list \<Rightarrow> 'a list option" where
  "sgemv_nx1 n w rows cols col_stride x =
     ofold (\<lambda>b out.
         ofold (\<lambda>j out. do {
             xj \<leftarrow> rd x (int j);
             ofold (\<lambda>k out. madd out (n * b + k) w (j * col_stride + n * b + k) xj) [0..<n] out
           }) [0..<cols] out)
       [0..<(rows + n - 1) div n] (replicate rows 0)"

definition sgemv16x1 ::
  "'a::{zero,plus,times} list \<Rightarrow> nat \<Rightarrow> nat \<Rightarrow> nat \<Rightarrow> 'a list \<Rightarrow> 'a list option" where
  "sgemv16x1 w rows cols col_stride x = sgemv_nx1 16 w rows cols col_stride x"

definition sgemv8x1 ::
  "'a::{zero,plus,times} list \<Rightarrow> nat \<Rightarrow> nat \<Rightarrow> nat \<Rightarrow> 'a list \<Rightarrow> 'a list option" where
  "sgemv8x1 w rows cols col_stride x = sgemv_nx1 8 w rows cols col_stride x"

definition sgemv ::
  "'a::{zero,plus,times} list \<Rightarrow> nat \<Rightarrow> nat \<Rightarrow> nat \<Rightarrow> 'a list \<Rightarrow> 'a list option" where
  "sgemv w rows cols col_stride x =
     (if rows AND 15 = 0 then sgemv16x1 w rows cols col_stride x
      else if rows AND 7 = 0 then sgemv8x1 w rows cols col_stride x
      else ofold (\<lambda>i out. do {
             out \<leftarrow> wr out (int i) 0;
             ofold (\<lambda>j out. do {
                 xj \<leftarrow> rd x (int j);
                 madd out i w (j * col_stride + i) xj
               }) [0..<cols] out
           }) [0..<rows] (replicate rows 0))"

text \<open>The value of one row, in the order of the additions.\<close>

definition row_dot :: "'a::{zero,plus,times} list \<Rightarrow> nat \<Rightarrow> nat \<Rightarrow> 'a list \<Rightarrow> nat \<Rightarrow> 'a" where
  "row_dot w cols col_stride x i = foldl (\<lambda>s j. s + w ! (j * col_stride + i) * x ! j) 0 [0..<cols]"

lemma madd_Some:
  "i < length out \<Longrightarrow> j < length w \<Longrightarrow> madd out i w j v = Some (out[i := out ! i + w ! j * v])"
  by (simp add: madd_def mem_simps)

lemma madd_seg:
  assumes "p + n \<le> length out" "q + n \<le> length w"
  shows "ofold (\<lambda>k out. madd out (p + k) w (q + k) v) [0..<n] out =
    Some (seg_upd out p n (\<lambda>i. out ! i + w ! (q + (i - p)) * v))"
proof (rule ofold_upt)
  let ?f = "\<lambda>i. out ! i + w ! (q + (i - p)) * v"
  fix k assume k: "k < n"
  have "madd (seg_upd out p k ?f) (p + k) w (q + k) v =
      Some ((seg_upd out p k ?f)[p + k := ?f (p + k)])"
    using k assms by (simp add: madd_Some)
  then show "madd (seg_upd out p k ?f) (p + k) w (q + k) v = Some (seg_upd out p (Suc k) ?f)"
    using k assms seg_upd_Suc [of p k out ?f] by simp
qed simp

lemma row_dot_Suc:
  "row_dot w (Suc j) cs x i = row_dot w j cs x i + w ! (j * cs + i) * x ! j"
  by (simp add: row_dot_def)

lemma sgemv_nx1_rows:
  assumes n: "0 < n" "n dvd rows" and w: "\<forall>j<cols. j * cs + rows \<le> length w" and x: "cols \<le> length x"
  shows "sgemv_nx1 n w rows cols cs x = Some (map (row_dot w cols cs x) [0..<rows])"
proof -
  obtain m where m: "rows = n * m" using n(2) by auto
  have groups: "(rows + n - 1) div n = m"
  proof -
    have "rows + n - 1 = (n - 1) + n * m" using n(1) by (simp add: m)
    then show ?thesis using n(1) by (simp only: div_mult_self2) simp
  qed
  let ?done = "\<lambda>b. map (\<lambda>i. if i < n * b then row_dot w cols cs x i else 0) [0..<rows]"
  have "sgemv_nx1 n w rows cols cs x = Some (?done m)"
    unfolding sgemv_nx1_def groups
  proof (rule ofold_upt [where g = ?done])
    fix b assume b: "b < m"
    let ?in = "\<lambda>j. map (\<lambda>i. if i < n * b then row_dot w cols cs x i
      else if i < n * b + n then row_dot w j cs x i else 0) [0..<rows]"
    have room: "n * b + n \<le> rows" using b mult_le_mono2 [of "Suc b" m n] by (simp add: m)
    have "ofold (\<lambda>j out. do {
             xj \<leftarrow> rd x (int j);
             ofold (\<lambda>k out. madd out (n * b + k) w (j * cs + n * b + k) xj) [0..<n] out
           }) [0..<cols] (?done b) = Some (?in cols)"
    proof (rule ofold_upt [where g = ?in])
      fix j assume j: "j < cols"
      have "j * cs + rows \<le> length w" using w j by simp
      then have "ofold (\<lambda>k out. madd out (n * b + k) w (j * cs + n * b + k) (x ! j)) [0..<n] (?in j) =
        Some (seg_upd (?in j) (n * b) n (\<lambda>i. ?in j ! i + w ! (j * cs + n * b + (i - n * b)) * x ! j))"
        using room by (intro madd_seg) auto
      also have "seg_upd (?in j) (n * b) n (\<lambda>i. ?in j ! i + w ! (j * cs + n * b + (i - n * b)) * x ! j) =
          ?in (Suc j)"
        by (rule nth_equalityI) (auto simp: row_dot_Suc)
      finally show "do {
             xj \<leftarrow> rd x (int j);
             ofold (\<lambda>k out. madd out (n * b + k) w (j * cs + n * b + k) xj) [0..<n] (?in j)
           } = Some (?in (Suc j))"
        using j x by (simp add: rd_nat)
    qed (auto simp: row_dot_def)
    also have "?in cols = ?done (Suc b)" by (auto simp: add.commute)
    finally show "ofold (\<lambda>j out. do {
             xj \<leftarrow> rd x (int j);
             ofold (\<lambda>k out. madd out (n * b + k) w (j * cs + n * b + k) xj) [0..<n] out
           }) [0..<cols] (?done b) = Some (?done (Suc b))" .
  qed (auto simp: map_replicate_const)
  then show ?thesis by (simp add: m)
qed

lemma nat_and_15: "(n::nat) AND 15 = 0 \<longleftrightarrow> 16 dvd n"
proof -
  have "n AND 15 = n mod 16"
    using take_bit_eq_mask [of 4 n] by (simp add: take_bit_eq_mod mask_eq_exp_minus_1)
  then show ?thesis by (simp add: dvd_eq_mod_eq_0)
qed

lemma nat_and_7: "(n::nat) AND 7 = 0 \<longleftrightarrow> 8 dvd n"
proof -
  have "n AND 7 = n mod 8"
    using take_bit_eq_mask [of 3 n] by (simp add: take_bit_eq_mod mask_eq_exp_minus_1)
  then show ?thesis by (simp add: dvd_eq_mod_eq_0)
qed

lemma sgemv_rows:
  assumes w: "\<forall>j<cols. j * cs + rows \<le> length w" and x: "cols \<le> length x"
  shows "sgemv w rows cols cs x = Some (map (row_dot w cols cs x) [0..<rows])"
proof -
  let ?done = "\<lambda>i. map (\<lambda>k. if k < i then row_dot w cols cs x k else 0) [0..<rows]"
  have loop: "ofold (\<lambda>i out. do {
             out \<leftarrow> wr out (int i) 0;
             ofold (\<lambda>j out. do {
                 xj \<leftarrow> rd x (int j);
                 madd out i w (j * cs + i) xj
               }) [0..<cols] out
           }) [0..<rows] (replicate rows 0) = Some (?done rows)"
  proof (rule ofold_upt [where g = ?done])
    fix i assume i: "i < rows"
    have "(?done i)[i := 0] = ?done i" by (rule nth_equalityI) (auto simp: nth_list_update)
    then have start: "wr (?done i) (int i) 0 = Some (?done i)" using i by (simp add: wr_nat)
    have "ofold (\<lambda>j out. do { xj \<leftarrow> rd x (int j); madd out i w (j * cs + i) xj }) [0..<cols] (?done i) =
      Some ((?done i)[i := row_dot w cols cs x i])"
    proof (rule ofold_upt [where g = "\<lambda>j. (?done i)[i := row_dot w j cs x i]"])
      fix j assume j: "j < cols"
      have "j * cs + i < length w" using w j i by force
      then show "do { xj \<leftarrow> rd x (int j); madd ((?done i)[i := row_dot w j cs x i]) i w (j * cs + i) xj } =
        Some ((?done i)[i := row_dot w (Suc j) cs x i])"
        using i j x by (simp add: rd_nat madd_Some row_dot_Suc)
    qed (use i in \<open>auto simp: row_dot_def intro!: nth_equalityI simp: nth_list_update\<close>)
    moreover have "(?done i)[i := row_dot w cols cs x i] = ?done (Suc i)"
      by (rule nth_equalityI) (auto simp: nth_list_update less_Suc_eq)
    ultimately show "do {
             out \<leftarrow> wr (?done i) (int i) 0;
             ofold (\<lambda>j out. do { xj \<leftarrow> rd x (int j); madd out i w (j * cs + i) xj }) [0..<cols] out
           } = Some (?done (Suc i))" using start by simp
  qed (auto simp: map_replicate_const)
  have "map (row_dot w cols cs x) [0..<rows] = ?done rows" by simp
  then show ?thesis
    using loop sgemv_nx1_rows [OF _ _ w x, of 16] sgemv_nx1_rows [OF _ _ w x, of 8]
    by (simp add: sgemv_def sgemv16x1_def sgemv8x1_def nat_and_15 nat_and_7)
qed

section \<open>Sparse and quantised products\<close>

definition sparse_block ::
  "'a::{plus,times} list \<Rightarrow> nat \<Rightarrow> 'a list \<Rightarrow> nat \<Rightarrow> 'a list \<Rightarrow> int \<Rightarrow> 'a list option" where
  "sparse_block out i w wp x pos = do {
     xj0 \<leftarrow> rd x (pos + 0);
     xj1 \<leftarrow> rd x (pos + 1);
     xj2 \<leftarrow> rd x (pos + 2);
     xj3 \<leftarrow> rd x (pos + 3);
     out \<leftarrow> ofold (\<lambda>k out. madd out (i + k) w (wp + k) xj0) [0..<8] out;
     out \<leftarrow> ofold (\<lambda>k out. madd out (i + k) w (wp + 8 + k) xj1) [0..<8] out;
     out \<leftarrow> ofold (\<lambda>k out. madd out (i + k) w (wp + 16 + k) xj2) [0..<8] out;
     ofold (\<lambda>k out. madd out (i + k) w (wp + 24 + k) xj3) [0..<8] out
   }"

text \<open>The loops over an index, for any block product: the state is output, weight and index pointer.\<close>

definition sparse_group ::
  "('o \<Rightarrow> nat \<Rightarrow> nat \<Rightarrow> int \<Rightarrow> 'o option) \<Rightarrow> int list \<Rightarrow> nat \<Rightarrow> 'o \<times> nat \<times> nat \<Rightarrow> ('o \<times> nat \<times> nat) option" where
  "sparse_group blk idx g = (\<lambda>(out, wp, ip). do {
     cols \<leftarrow> rd idx (int ip);
     ofold (\<lambda>_ (out, wp, ip). do {
         pos \<leftarrow> rd idx (int ip);
         out \<leftarrow> blk out (8 * g) wp pos;
         Some (out, wp + 32, ip + 1)
       }) [0..<nat cols] (out, wp, ip + 1)
   })"

definition sparse_sgemv8x4 ::
  "'a::{zero,plus,times} list \<Rightarrow> int list \<Rightarrow> nat \<Rightarrow> 'a list \<Rightarrow> 'a list option" where
  "sparse_sgemv8x4 w idx rows x =
     map_option fst (ofold (sparse_group (\<lambda>out i wp pos. sparse_block out i w wp x pos) idx)
       [0..<(rows + 7) div 8] (replicate rows 0, 0, 0))"

definition MAX_INPUTS :: nat where "MAX_INPUTS = 2048"

text \<open>\<open>opus_int8 x[i] = (int)floor(.5+127*_x[i])\<close>, into a buffer of \<open>MAX_INPUTS\<close> cells.\<close>

definition int8 :: "int \<Rightarrow> int" where
  "int8 n = sint (word_of_int n :: 8 word)"

definition quantize ::
  "'a::{plus,times,one,scaleR} fops \<Rightarrow> nat \<Rightarrow> 'a list \<Rightarrow> int list option" where
  "quantize ops cols x =
     (if cols \<le> MAX_INPUTS \<and> cols \<le> length x
      then Some (map (\<lambda>v. int8 (f_floor ops (lit 0.5 + lit 127 * v))) (take cols x))
      else None)"

definition csparse_block ::
  "'a::{plus,times} fops \<Rightarrow> 'a list \<Rightarrow> nat \<Rightarrow> int list \<Rightarrow> nat \<Rightarrow> int list \<Rightarrow> int \<Rightarrow> 'a list option" where
  "csparse_block ops out i w wp x pos = do {
     xj0 \<leftarrow> rd x (pos + 0);
     xj1 \<leftarrow> rd x (pos + 1);
     xj2 \<leftarrow> rd x (pos + 2);
     xj3 \<leftarrow> rd x (pos + 3);
     ofold (\<lambda>k out. do {
         y \<leftarrow> rd out (int (i + k));
         w0 \<leftarrow> rd w (int (wp + 4 * k));
         w1 \<leftarrow> rd w (int (wp + 4 * k + 1));
         w2 \<leftarrow> rd w (int (wp + 4 * k + 2));
         w3 \<leftarrow> rd w (int (wp + 4 * k + 3));
         wr out (int (i + k)) (y + f_of_int ops (w0 * xj0 + w1 * xj1 + w2 * xj2 + w3 * xj3))
       }) [0..<8] out
   }"

definition scale_rows :: "'a::times list \<Rightarrow> nat \<Rightarrow> 'a list \<Rightarrow> 'a list option" where
  "scale_rows scale rows out =
     ofold (\<lambda>i out. do { y \<leftarrow> rd out (int i); s \<leftarrow> rd scale (int i); wr out (int i) (y * s) })
       [0..<rows] out"

definition sparse_cgemv8x4 ::
  "'a::{zero,one,plus,times,scaleR} fops \<Rightarrow> int list \<Rightarrow> int list \<Rightarrow> 'a list \<Rightarrow> nat \<Rightarrow> nat \<Rightarrow> 'a list \<Rightarrow>
   'a list option" where
  "sparse_cgemv8x4 ops w idx scale rows cols xf = do {
     x \<leftarrow> quantize ops cols xf;
     (out, _, _) \<leftarrow> ofold (sparse_group (\<lambda>out i wp pos. csparse_block ops out i w wp x pos) idx)
       [0..<(rows + 7) div 8] (replicate rows 0, 0, 0);
     scale_rows scale rows out
   }"

text \<open>In \<open>cgemv8x4\<close> the inputs are converted to \<open>float\<close> first.\<close>

definition cgemv_block ::
  "'a::{plus,times} fops \<Rightarrow> 'a list \<Rightarrow> nat \<Rightarrow> int list \<Rightarrow> nat \<Rightarrow> int list \<Rightarrow> nat \<Rightarrow> 'a list option" where
  "cgemv_block ops out i w wp x j = do {
     xj0 \<leftarrow> rd x (int j + 0);
     xj1 \<leftarrow> rd x (int j + 1);
     xj2 \<leftarrow> rd x (int j + 2);
     xj3 \<leftarrow> rd x (int j + 3);
     ofold (\<lambda>k out. do {
         y \<leftarrow> rd out (int (i + k));
         w0 \<leftarrow> rd w (int (wp + 4 * k));
         w1 \<leftarrow> rd w (int (wp + 4 * k + 1));
         w2 \<leftarrow> rd w (int (wp + 4 * k + 2));
         w3 \<leftarrow> rd w (int (wp + 4 * k + 3));
         wr out (int (i + k)) (y + (f_of_int ops w0 * f_of_int ops xj0 + f_of_int ops w1 * f_of_int ops xj1
           + f_of_int ops w2 * f_of_int ops xj2 + f_of_int ops w3 * f_of_int ops xj3))
       }) [0..<8] out
   }"

definition cgemv8x4 ::
  "'a::{zero,one,plus,times,scaleR} fops \<Rightarrow> int list \<Rightarrow> 'a list \<Rightarrow> nat \<Rightarrow> nat \<Rightarrow> 'a list \<Rightarrow> 'a list option" where
  "cgemv8x4 ops w scale rows cols xf = do {
     x \<leftarrow> quantize ops cols xf;
     (out, _) \<leftarrow> ofold (\<lambda>b (out, wp).
         ofold (\<lambda>c (out, wp). do {
             out \<leftarrow> cgemv_block ops out (8 * b) w wp x (4 * c);
             Some (out, wp + 32)
           }) [0..<(cols + 3) div 4] (out, wp))
       [0..<(rows + 7) div 8] (replicate rows 0, 0);
     scale_rows scale rows out
   }"

section \<open>Activations\<close>

definition fmadd :: "'a::{plus,times} \<Rightarrow> 'a \<Rightarrow> 'a \<Rightarrow> 'a" where "fmadd a b c = a * b + c"

definition lpcnet_exp2 :: "'a::{zero,one,plus,minus,times,scaleR} fops \<Rightarrow> 'a \<Rightarrow> 'a" where
  "lpcnet_exp2 ops x =
     (let n = f_floor ops x
      in if n < -50 then 0
         else let frac = x - f_of_int ops n;
                  r = lit 0.99992522 + frac * (lit 0.69583354
                        + frac * (lit 0.22606716 + lit 0.078024523 * frac))
              in f_of_bits ops ((f_bits ops r + word_of_int (n * 2 ^ 23)) AND 0x7fffffff))"

definition lpcnet_exp :: "'a::{zero,one,plus,minus,times,scaleR} fops \<Rightarrow> 'a \<Rightarrow> 'a" where
  "lpcnet_exp ops x = lpcnet_exp2 ops (x * lit 1.44269504)"

definition tanh_approx :: "'a::{one,plus,times,inverse,uminus,ord,scaleR} \<Rightarrow> 'a" where
  "tanh_approx x =
     (let X2 = x * x;
          num = fmadd (fmadd (lit 0.60863042) X2 (lit 96.39235687)) X2 (lit 952.52801514);
          den = fmadd (fmadd (lit 11.88600922) X2 (lit 413.36801147)) X2 (lit 952.72399902)
      in MAX32 (- lit 1) (MIN32 (lit 1) (num * x / den)))"

definition sigmoid_approx :: "'a::{one,plus,times,inverse,uminus,ord,scaleR} \<Rightarrow> 'a" where
  "sigmoid_approx x = lit 0.5 + lit 0.5 * tanh_approx (lit 0.5 * x)"

definition relu :: "'a::{zero,ord} \<Rightarrow> 'a" where
  "relu x = (if x < 0 then 0 else x)"

datatype activation = ACTIVATION_LINEAR | ACTIVATION_SIGMOID | ACTIVATION_TANH | ACTIVATION_RELU
  | ACTIVATION_SOFTMAX | ACTIVATION_SWISH

definition MAX_ACTIVATIONS :: nat where "MAX_ACTIVATIONS = 4096"

text \<open>Applying \<open>f\<close> in place to \<open>n\<close> cells from \<open>p\<close> on: the loops of \<open>vec_tanh\<close> and its likes.\<close>

definition vec_map :: "('a \<Rightarrow> 'a) \<Rightarrow> nat \<Rightarrow> nat \<Rightarrow> 'a list \<Rightarrow> 'a list option" where
  "vec_map f p n xs = ofold (\<lambda>i xs. do { v \<leftarrow> rd xs (int (p + i)); wr xs (int (p + i)) (f v) }) [0..<n] xs"

text \<open>
  \<open>compute_activation\<close>, with \<open>output == input\<close> as every caller has it: \<open>n\<close> cells of an array
  from \<open>p\<close> on. \<open>SOFTMAX_HACK\<close> is not defined where \<open>nnet_arch.h\<close> is compiled
  (\<open>nnet_default.c\<close>), so the soft-max branch is the full one.
\<close>

definition compute_activation ::
  "'a::{zero,one,plus,minus,times,inverse,uminus,ord,scaleR} fops \<Rightarrow> 'a list \<Rightarrow> nat \<Rightarrow> nat \<Rightarrow> activation \<Rightarrow>
   'a list option" where
  "compute_activation ops xs p n act =
     (case act of
        ACTIVATION_SIGMOID \<Rightarrow> vec_map sigmoid_approx p n xs
      | ACTIVATION_TANH \<Rightarrow> vec_map tanh_approx p n xs
      | ACTIVATION_SWISH \<Rightarrow>
          (if n \<le> MAX_ACTIVATIONS then vec_map (\<lambda>x. x * sigmoid_approx x) p n xs else None)
      | ACTIVATION_RELU \<Rightarrow> vec_map relu p n xs
      | ACTIVATION_SOFTMAX \<Rightarrow> do {
          ys \<leftarrow> vec_map (lpcnet_exp ops) p n xs;
          s \<leftarrow> ofold (\<lambda>i s. do { y \<leftarrow> rd ys (int (p + i)); Some (s + y) }) [0..<n] 0;
          let r = lit 1 / (s + lit (1 / 10 ^ 30));
          vec_map (\<lambda>y. r * y) p n ys
        }
      | ACTIVATION_LINEAR \<Rightarrow> Some xs)"

section \<open>Layers\<close>

text \<open>A \<open>LinearLayer\<close> whose pointers have been followed: an array for each, or NULL.\<close>

record 'a layer =
  ly_bias :: "'a list option"
  ly_weights :: "int list option"
  ly_float_weights :: "'a list option"
  ly_idx :: "int list option"
  ly_diag :: "'a list option"
  ly_scale :: "'a list option"
  ly_inputs :: nat
  ly_outputs :: nat

definition compute_linear ::
  "'a::{zero,one,plus,times,scaleR} fops \<Rightarrow> 'a layer \<Rightarrow> 'a list \<Rightarrow> 'a list option" where
  "compute_linear ops l x =
     (let M = ly_inputs l; N = ly_outputs l
      in do {
        out \<leftarrow> (case ly_float_weights l of
            Some fw \<Rightarrow>
              (case ly_idx l of
                 Some idx \<Rightarrow> sparse_sgemv8x4 fw idx N x
               | None \<Rightarrow> sgemv fw N M N x)
          | None \<Rightarrow>
              (case ly_weights l of
                 Some w \<Rightarrow> do {
                   sc \<leftarrow> ly_scale l;
                   (case ly_idx l of
                      Some idx \<Rightarrow> sparse_cgemv8x4 ops w idx sc N M x
                    | None \<Rightarrow> cgemv8x4 ops w sc N M x)
                 }
               | None \<Rightarrow> Some (replicate N 0)));
        out \<leftarrow> (case ly_bias l of
            None \<Rightarrow> Some out
          | Some b \<Rightarrow> ofold (\<lambda>i out. do {
              y \<leftarrow> rd out (int i); c \<leftarrow> rd b (int i); wr out (int i) (y + c) }) [0..<N] out);
        (case ly_diag l of
           None \<Rightarrow> Some out
         | Some d \<Rightarrow> ofold (\<lambda>i out. do {
             xi \<leftarrow> rd x (int i);
             out \<leftarrow> madd out i d i xi;
             out \<leftarrow> madd out (i + M) d (i + M) xi;
             madd out (i + 2 * M) d (i + 2 * M) xi }) [0..<M] out)
      })"

definition compute_generic_dense ::
  "'a::{zero,one,plus,minus,times,inverse,uminus,ord,scaleR} fops \<Rightarrow> 'a layer \<Rightarrow> 'a list \<Rightarrow> activation \<Rightarrow>
   'a list option" where
  "compute_generic_dense ops l input act = do {
     out \<leftarrow> compute_linear ops l input;
     compute_activation ops out 0 (ly_outputs l) act
   }"

definition MAX_RNN_NEURONS_ALL :: nat where "MAX_RNN_NEURONS_ALL = 1024"

definition compute_generic_gru ::
  "'a::{zero,one,plus,minus,times,inverse,uminus,ord,scaleR} fops \<Rightarrow> 'a layer \<Rightarrow> 'a layer \<Rightarrow> 'a list \<Rightarrow>
   'a list \<Rightarrow> 'a list option" where
  "compute_generic_gru ops input_weights recurrent_weights state inp =
     (let N = ly_inputs recurrent_weights
      in if 3 * MAX_RNN_NEURONS_ALL < ly_outputs input_weights \<or>
            3 * MAX_RNN_NEURONS_ALL < ly_outputs recurrent_weights then None
         else do {
           zrh \<leftarrow> compute_linear ops input_weights inp;
           recur \<leftarrow> compute_linear ops recurrent_weights state;
           zrh \<leftarrow> ofold (\<lambda>i zrh. do {
               a \<leftarrow> rd zrh (int i); b \<leftarrow> rd recur (int i); wr zrh (int i) (a + b) }) [0..<2 * N] zrh;
           zrh \<leftarrow> compute_activation ops zrh 0 (2 * N) ACTIVATION_SIGMOID;
           zrh \<leftarrow> ofold (\<lambda>i zrh. do {
               h \<leftarrow> rd zrh (int (2 * N + i)); c \<leftarrow> rd recur (int (2 * N + i)); r \<leftarrow> rd zrh (int (N + i));
               wr zrh (int (2 * N + i)) (h + c * r) }) [0..<N] zrh;
           zrh \<leftarrow> compute_activation ops zrh (2 * N) N ACTIVATION_TANH;
           zrh \<leftarrow> ofold (\<lambda>i zrh. do {
               z \<leftarrow> rd zrh (int i); s \<leftarrow> rd state (int i); h \<leftarrow> rd zrh (int (2 * N + i));
               wr zrh (int (2 * N + i)) (z * s + (lit 1 - z) * h) }) [0..<N] zrh;
           ofold (\<lambda>i state. do { h \<leftarrow> rd zrh (int (2 * N + i)); wr state (int i) h }) [0..<N] state
         })"

definition compute_glu ::
  "'a::{zero,one,plus,minus,times,inverse,uminus,ord,scaleR} fops \<Rightarrow> 'a layer \<Rightarrow> 'a list \<Rightarrow> 'a list option" where
  "compute_glu ops l input =
     (if MAX_INPUTS < ly_outputs l then None
      else do {
        act2 \<leftarrow> compute_linear ops l input;
        act2 \<leftarrow> compute_activation ops act2 0 (ly_outputs l) ACTIVATION_SIGMOID;
        ofold (\<lambda>i out. do { x \<leftarrow> rd input (int i); a \<leftarrow> rd act2 (int i); Some (out @ [x * a]) })
          [0..<ly_outputs l] []
      })"

definition MAX_CONV_INPUTS_ALL :: nat where "MAX_CONV_INPUTS_ALL = 1024"

text \<open>The result is the output and the memory. \<open>RNN_COPY\<close> of more than there is is undefined.\<close>

definition compute_generic_conv1d ::
  "'a::{zero,one,plus,minus,times,inverse,uminus,ord,scaleR} fops \<Rightarrow> 'a layer \<Rightarrow> 'a list \<Rightarrow> 'a list \<Rightarrow> nat \<Rightarrow>
   activation \<Rightarrow> ('a list \<times> 'a list) option" where
  "compute_generic_conv1d ops l mem input input_size act =
     (let n = ly_inputs l
      in if n < input_size \<or> MAX_CONV_INPUTS_ALL < n \<or> length input < input_size \<or>
            length mem < n - input_size then None
         else do {
           let tmp = take (n - input_size) mem @ take input_size input;
           out \<leftarrow> compute_linear ops l tmp;
           out \<leftarrow> compute_activation ops out 0 (ly_outputs l) act;
           Some (out, if n \<noteq> input_size then blit mem 0 (drop input_size tmp) else mem)
         })"

section \<open>The network\<close>

record 'a RNNoise =
  conv1 :: "'a layer"
  conv2 :: "'a layer"
  gru1_input :: "'a layer"
  gru1_recurrent :: "'a layer"
  gru2_input :: "'a layer"
  gru2_recurrent :: "'a layer"
  gru3_input :: "'a layer"
  gru3_recurrent :: "'a layer"
  dense_out :: "'a layer"
  vad_dense :: "'a layer"

record 'a RNNState =
  conv1_state :: "'a list"
  conv2_state :: "'a list"
  gru1_state :: "'a list"
  gru2_state :: "'a list"
  gru3_state :: "'a list"

definition CONV1_IN_SIZE :: nat where "CONV1_IN_SIZE = 65"
definition CONV1_OUT_SIZE :: nat where "CONV1_OUT_SIZE = 128"
definition CONV1_STATE_SIZE :: nat where "CONV1_STATE_SIZE = 65 * 2"
definition CONV2_IN_SIZE :: nat where "CONV2_IN_SIZE = 128"
definition CONV2_OUT_SIZE :: nat where "CONV2_OUT_SIZE = 384"
definition CONV2_STATE_SIZE :: nat where "CONV2_STATE_SIZE = 128 * 2"
definition GRU_STATE_SIZE :: nat where "GRU_STATE_SIZE = 384"
definition DENSE_OUT_OUT_SIZE :: nat where "DENSE_OUT_OUT_SIZE = 32"
definition VAD_DENSE_OUT_SIZE :: nat where "VAD_DENSE_OUT_SIZE = 1"
definition MAX_NEURONS :: nat where "MAX_NEURONS = 1024"

lemmas rnn_sizes = CONV1_IN_SIZE_def CONV1_OUT_SIZE_def CONV1_STATE_SIZE_def CONV2_IN_SIZE_def
  CONV2_OUT_SIZE_def CONV2_STATE_SIZE_def GRU_STATE_SIZE_def DENSE_OUT_OUT_SIZE_def
  VAD_DENSE_OUT_SIZE_def MAX_NEURONS_def MAX_RNN_NEURONS_ALL_def MAX_CONV_INPUTS_ALL_def
  MAX_INPUTS_def MAX_ACTIVATIONS_def

text \<open>\<open>compute_rnn\<close>: gains, voice activity, and the next state.\<close>

definition compute_rnn ::
  "'a::{zero,one,plus,minus,times,inverse,uminus,ord,scaleR} fops \<Rightarrow> 'a RNNoise \<Rightarrow> 'a RNNState \<Rightarrow> 'a list \<Rightarrow>
   ('a list \<times> 'a list \<times> 'a RNNState) option" where
  "compute_rnn ops model rnn input = do {
     (tmp, c1) \<leftarrow> compute_generic_conv1d ops (conv1 model) (conv1_state rnn) input CONV1_IN_SIZE ACTIVATION_TANH;
     (tmp2, c2) \<leftarrow> compute_generic_conv1d ops (conv2 model) (conv2_state rnn) tmp CONV2_IN_SIZE ACTIVATION_TANH;
     g1 \<leftarrow> compute_generic_gru ops (gru1_input model) (gru1_recurrent model) (gru1_state rnn) tmp2;
     g2 \<leftarrow> compute_generic_gru ops (gru2_input model) (gru2_recurrent model) (gru2_state rnn) g1;
     g3 \<leftarrow> compute_generic_gru ops (gru3_input model) (gru3_recurrent model) (gru3_state rnn) g2;
     gains \<leftarrow> compute_generic_dense ops (dense_out model) g3 ACTIVATION_SIGMOID;
     vad \<leftarrow> compute_generic_dense ops (vad_dense model) g3 ACTIVATION_SIGMOID;
     Some (gains, vad, \<lparr>conv1_state = c1, conv2_state = c2, gru1_state = g1, gru2_state = g2, gru3_state = g3\<rparr>)
   }"

section \<open>The sparse product, row by row\<close>

text \<open>The blocks of each group of eight rows: column position and place of the weights.\<close>

fun sparse_groups :: "int list \<Rightarrow> nat \<Rightarrow> nat \<Rightarrow> (nat \<times> nat) list list" where
  "sparse_groups (n # ints) wp (Suc groups) =
     map (\<lambda>j. (nat (ints ! j), wp + 32 * j)) [0..<nat n] #
     sparse_groups (drop (nat n) ints) (wp + 32 * nat n) groups"
| "sparse_groups _ _ _ = []"

definition block_row :: "'a::{plus,times} list \<Rightarrow> 'a list \<Rightarrow> nat \<Rightarrow> 'a \<Rightarrow> nat \<times> nat \<Rightarrow> 'a" where
  "block_row w x r s = (\<lambda>(pos, wp).
     s + w ! (wp + r) * x ! pos + w ! (wp + 8 + r) * x ! (pos + 1) + w ! (wp + 16 + r) * x ! (pos + 2)
       + w ! (wp + 24 + r) * x ! (pos + 3))"

definition sparse_row :: "'a::{zero,plus,times} list \<Rightarrow> 'a list \<Rightarrow> (nat \<times> nat) list \<Rightarrow> nat \<Rightarrow> 'a" where
  "sparse_row w x blocks r = foldl (block_row w x r) 0 blocks"

lemma sparse_block_Some:
  assumes "i + 8 \<le> length out" "wp + 32 \<le> length w" "0 \<le> pos" "pos + 3 < int (length x)"
  shows "sparse_block out i w wp x pos =
    Some (seg_upd out i 8 (\<lambda>p. block_row w x (p - i) (out ! p) (nat pos, wp)))"
proof -
  have x: "rd x (pos + 0) = Some (x ! nat pos)" "rd x (pos + 1) = Some (x ! (nat pos + 1))"
    "rd x (pos + 2) = Some (x ! (nat pos + 2))" "rd x (pos + 3) = Some (x ! (nat pos + 3))"
    using assms(3,4) by (auto simp: rd_def nat_add_distrib)
  let ?f1 = "\<lambda>p. out ! p + w ! (wp + (p - i)) * x ! nat pos"
  let ?f2 = "\<lambda>p. ?f1 p + w ! (wp + 8 + (p - i)) * x ! (nat pos + 1)"
  let ?f3 = "\<lambda>p. ?f2 p + w ! (wp + 16 + (p - i)) * x ! (nat pos + 2)"
  let ?f4 = "\<lambda>p. ?f3 p + w ! (wp + 24 + (p - i)) * x ! (nat pos + 3)"
  have step: "ofold (\<lambda>k out. madd out (i + k) w (q + k) v) [0..<8] (seg_upd out i 8 f) =
      Some (seg_upd out i 8 (\<lambda>p. f p + w ! (q + (p - i)) * v))"
    if "q + 8 \<le> length w" for q v f
  proof -
    have "seg_upd (seg_upd out i 8 f) i 8 (\<lambda>p. (seg_upd out i 8 f) ! p + w ! (q + (p - i)) * v) =
        seg_upd out i 8 (\<lambda>p. f p + w ! (q + (p - i)) * v)"
      by (rule nth_equalityI) auto
    then show ?thesis using madd_seg [of i 8 "seg_upd out i 8 f" q w v] that assms(1) by simp
  qed
  have "ofold (\<lambda>k out. madd out (i + k) w (wp + k) (x ! nat pos)) [0..<8] out = Some (seg_upd out i 8 ?f1)"
    using assms(1,2) by (intro madd_seg) auto
  then show ?thesis
    unfolding sparse_block_def x bind.bind_lunit
    using step [of "wp + 8" "x ! (nat pos + 1)" ?f1] step [of "wp + 16" "x ! (nat pos + 2)" ?f2]
      step [of "wp + 24" "x ! (nat pos + 3)" ?f3] assms(2)
    by (simp add: block_row_def)
qed

text \<open>The traversal, for any block routine \<open>blk\<close> whose effect on the output is \<open>upd\<close>.\<close>

lemma sparse_group_Some:
  assumes blk: "\<And>j out. j < nat n \<Longrightarrow> P out \<Longrightarrow>
      \<exists>out'. blk out (8 * g) (wp + 32 * j) (idx ! (ip + 1 + j)) = Some out' \<and> out' = upd j out \<and> P out'"
    and ip: "ip < length idx" "idx ! ip = n" "ip + nat n < length idx" and P: "P out"
  shows "sparse_group blk idx g (out, wp, ip) =
    Some (foldl (\<lambda>o' j. upd j o') out [0..<nat n], wp + 32 * nat n, ip + 1 + nat n) \<and>
    P (foldl (\<lambda>o' j. upd j o') out [0..<nat n])"
proof -
  let ?g = "\<lambda>j. (foldl (\<lambda>o' j. upd j o') out [0..<j], wp + 32 * j, ip + 1 + j)"
  have "P (foldl (\<lambda>o' j. upd j o') out [0..<j])" if "j \<le> nat n" for j
    using that
  proof (induction j)
    case (Suc j)
    then show ?case using blk [of j "foldl (\<lambda>o' j. upd j o') out [0..<j]"] by auto
  qed (simp add: P)
  moreover from this have "ofold (\<lambda>_ (out, wp, ip). do {
         pos \<leftarrow> rd idx (int ip);
         out \<leftarrow> blk out (8 * g) wp pos;
         Some (out, wp + 32, ip + 1)
       }) [0..<nat n] (out, wp, ip + 1) = Some (?g (nat n))"
  proof (intro ofold_upt [where g = ?g])
    fix j assume j: "j < nat n"
    let ?o = "foldl (\<lambda>o' j. upd j o') out [0..<j]"
    have "P ?o" using calculation j by simp
    then have "blk ?o (8 * g) (wp + 32 * j) (idx ! (ip + 1 + j)) = Some (upd j ?o)"
      using blk [OF j] by blast
    moreover note rd_nat [of "ip + 1 + j" idx]
    ultimately show "(case ?g j of (out, wp, ip) \<Rightarrow> do {
         pos \<leftarrow> rd idx (int ip);
         out \<leftarrow> blk out (8 * g) wp pos;
         Some (out, wp + 32, ip + 1)
       }) = Some (?g (Suc j))" using j ip by simp
  qed auto
  ultimately show ?thesis
    using ip by (simp add: sparse_group_def rd_nat)
qed

lemma blocks_ok_tot: "blocks_ok ints nb_in tot groups \<Longrightarrow> 0 \<le> tot"
proof (induction ints nb_in tot groups rule: blocks_ok.induct)
  case (2 n ints nb_in tot groups)
  then have "0 \<le> n" "0 \<le> tot - n" by auto
  then show ?case by linarith
qed auto

lemma foldl_seg_upd:
  "foldl (\<lambda>o' j. seg_upd o' p n (\<lambda>i. F i (o' ! i) j)) out js =
   seg_upd out p n (\<lambda>i. foldl (F i) (out ! i) js)" (is "foldl ?f out js = _")
proof (induction js rule: rev_induct)
  case Nil
  then show ?case by (intro nth_equalityI) auto
next
  case (snoc j js)
  then show ?case by (intro nth_equalityI) auto
qed

lemma foldl_map_fun: "foldl f s (map g xs) = foldl (\<lambda>s x. f s (g x)) s xs"
  by (induction xs arbitrary: s) auto

lemma sparse_groups_run:
  fixes w :: "'a::{zero,plus,times} list"
  assumes ok: "blocks_ok (drop ip idx) nb_in tot m" and w: "wp + 32 * nat tot \<le> length w"
    and x: "nb_in \<le> int (length x)" and out: "length out = 8 * (g + m)"
      "\<forall>i. 8 * g \<le> i \<and> i < length out \<longrightarrow> out ! i = 0"
  shows "\<exists>st. ofold (sparse_group (\<lambda>out i wp pos. sparse_block out i w wp x pos) idx) [g..<g + m] (out, wp, ip) =
    Some (map (\<lambda>i. if i < 8 * g then out ! i
      else sparse_row w x (sparse_groups (drop ip idx) wp m ! (i div 8 - g)) (i mod 8)) [0..<length out], st)"
  using assms
proof (induction m arbitrary: g out wp ip tot)
  case 0
  have "map (\<lambda>i. if i < 8 * g then out ! i else z i) [0..<length out] = out" for z
    using 0 by (intro nth_equalityI) auto
  then show ?case by simp
next
  case (Suc m)
  obtain n ints where ni: "drop ip idx = n # ints" using Suc.prems(1) by (cases "drop ip idx") auto
  have bk: "0 \<le> n" "nat n \<le> length ints" "blocks_ok (drop (nat n) ints) nb_in (tot - n) m"
    "\<forall>pos\<in>set (take (nat n) ints). 0 \<le> pos \<and> pos + 3 < nb_in"
    using Suc.prems(1) ni by auto
  have ip: "ip < length idx" "idx ! ip = n" "ints = drop (ip + 1) idx"
  proof -
    show l: "ip < length idx" using ni by (metis drop_all leI list.discI)
    show "idx ! ip = n" "ints = drop (ip + 1) idx" using ni Cons_nth_drop_Suc [OF l] by auto
  qed
  then have ints_nth: "ints ! j = idx ! (ip + 1 + j)" if "j < length ints" for j
    using that by simp
  have len: "ip + nat n < length idx" using bk(2) ip(1,3) by simp
  have tot: "nat n + nat (tot - n) = nat tot" "0 \<le> tot - n"
    using blocks_ok_tot [OF bk(3)] bk(1) by auto
  let ?F = "\<lambda>i s j. block_row w x (i - 8 * g) s (nat (ints ! j), wp + 32 * j)"
  let ?upd = "\<lambda>j o'. seg_upd o' (8 * g) 8 (\<lambda>i. ?F i (o' ! i) j)"
  let ?blk = "\<lambda>out i wp pos. sparse_block out i w wp x pos"
  let ?out = "foldl (\<lambda>o' j. ?upd j o') out [0..<nat n]"
  have one: "sparse_group ?blk idx g (out, wp, ip) = Some (?out, wp + 32 * nat n, ip + 1 + nat n) \<and>
      length ?out = length out"
  proof (rule sparse_group_Some [where P = "\<lambda>o'. length o' = length out"])
    fix j and o' :: "'a list" assume j: "j < nat n" and o': "length o' = length out"
    have "ints ! j \<in> set (take (nat n) ints)" using j bk(2) by (metis in_set_conv_nth length_take min.absorb2 nth_take)
    then have "0 \<le> ints ! j" "ints ! j + 3 < nb_in" using bk(4) by auto
    moreover have "wp + 32 * j + 32 \<le> length w" using j tot Suc.prems(2) by simp
    ultimately have "sparse_block o' (8 * g) w (wp + 32 * j) x (idx ! (ip + 1 + j)) = Some (?upd j o')"
      using o' Suc.prems(3,4) ints_nth [of j] j bk(2) by (subst sparse_block_Some) auto
    then show "\<exists>out'. ?blk o' (8 * g) (wp + 32 * j) (idx ! (ip + 1 + j)) = Some out' \<and>
        out' = ?upd j o' \<and> length out' = length out" using o' by simp
  qed (use ip len in auto)
  have out_eq: "?out = seg_upd out (8 * g) 8 (\<lambda>i. foldl (?F i) (out ! i) [0..<nat n])"
    by (rule foldl_seg_upd)
  have "\<exists>st. ofold (sparse_group ?blk idx) [Suc g..<Suc g + m] (?out, wp + 32 * nat n, ip + 1 + nat n) =
    Some (map (\<lambda>i. if i < 8 * Suc g then ?out ! i
      else sparse_row w x (sparse_groups (drop (ip + 1 + nat n) idx) (wp + 32 * nat n) m ! (i div 8 - Suc g))
        (i mod 8)) [0..<length ?out], st)"
  proof (rule Suc.IH)
    show "blocks_ok (drop (ip + 1 + nat n) idx) nb_in (tot - n) m"
      using bk(3) ip(3) by (simp add: add.commute)
    show "wp + 32 * nat n + 32 * nat (tot - n) \<le> length w" using Suc.prems(2) tot by simp
    show "length ?out = 8 * (Suc g + m)" using one Suc.prems(4) by simp
    show "\<forall>i. 8 * Suc g \<le> i \<and> i < length ?out \<longrightarrow> ?out ! i = 0"
      unfolding out_eq using Suc.prems(5) by auto
  qed (rule Suc.prems(3))
  then obtain st where run: "ofold (sparse_group ?blk idx) [Suc g..<Suc g + m] (?out, wp + 32 * nat n, ip + 1 + nat n) =
    Some (map (\<lambda>i. if i < 8 * Suc g then ?out ! i
      else sparse_row w x (sparse_groups (drop (ip + 1 + nat n) idx) (wp + 32 * nat n) m ! (i div 8 - Suc g))
        (i mod 8)) [0..<length ?out], st)" by blast
  have "(if i < 8 * Suc g then ?out ! i
      else sparse_row w x (sparse_groups (drop (ip + 1 + nat n) idx) (wp + 32 * nat n) m ! (i div 8 - Suc g)) (i mod 8)) =
    (if i < 8 * g then out ! i
      else sparse_row w x (sparse_groups (drop ip idx) wp (Suc m) ! (i div 8 - g)) (i mod 8))"
    if i: "i < length out" for i
  proof -
    have sg: "sparse_groups (drop ip idx) wp (Suc m) = map (\<lambda>j. (nat (ints ! j), wp + 32 * j)) [0..<nat n] #
        sparse_groups (drop (ip + 1 + nat n) idx) (wp + 32 * nat n) m"
      using ni ip(3) by (simp add: add.commute)
    consider "i < 8 * g" | (cur) "8 * g \<le> i" "i < 8 * Suc g" | (later) "8 * Suc g \<le> i" by linarith
    then show ?thesis
    proof cases
      case 1
      then show ?thesis using i unfolding out_eq by simp
    next
      case cur
      then have "i div 8 = g" by simp
      then have "i - 8 * g = i mod 8" by (simp add: minus_mult_div_eq_mod [symmetric])
      then show ?thesis
        using cur i Suc.prems(5) \<open>i div 8 = g\<close> unfolding out_eq sg
        by (simp add: sparse_row_def foldl_map_fun)
    next
      case later
      then have "i div 8 - g = Suc (i div 8 - Suc g)" by simp
      then show ?thesis using later unfolding sg by simp
    qed
  qed
  then have "map (\<lambda>i. if i < 8 * Suc g then ?out ! i
      else sparse_row w x (sparse_groups (drop (ip + 1 + nat n) idx) (wp + 32 * nat n) m ! (i div 8 - Suc g))
        (i mod 8)) [0..<length ?out] =
    map (\<lambda>i. if i < 8 * g then out ! i
      else sparse_row w x (sparse_groups (drop ip idx) wp (Suc m) ! (i div 8 - g)) (i mod 8)) [0..<length out]"
    using one by simp
  then show ?case
    using one run by (simp add: upt_conv_Cons del: upt_Suc)
qed

lemma sparse_sgemv_rows:
  assumes "blocks_ok idx nb_in tot (rows div 8)" "8 dvd rows" "32 * nat tot \<le> length w"
    "nb_in \<le> int (length x)"
  shows "sparse_sgemv8x4 w idx rows x =
    Some (map (\<lambda>i. sparse_row w x (sparse_groups idx 0 (rows div 8) ! (i div 8)) (i mod 8)) [0..<rows])"
proof -
  have m: "(rows + 7) div 8 = rows div 8" using assms(2) by auto
  obtain st where "ofold (sparse_group (\<lambda>out i wp pos. sparse_block out i w wp x pos) idx) [0..<0 + rows div 8]
      (replicate rows 0, 0, 0) =
    Some (map (\<lambda>i. if i < 8 * 0 then replicate rows 0 ! i
      else sparse_row w x (sparse_groups (drop 0 idx) 0 (rows div 8) ! (i div 8 - 0)) (i mod 8))
        [0..<length (replicate rows (0::'a))], st)"
    using sparse_groups_run [of 0 idx nb_in tot "rows div 8" 0 w x "replicate rows 0" 0] assms
    by auto
  then show ?thesis by (simp add: sparse_sgemv8x4_def m)
qed

section \<open>The quantised products return\<close>

lemma sparse_traverse:
  fixes out :: "'a list"
  assumes blk: "\<And>out g wp pos. length out = rows \<Longrightarrow> 8 * g + 8 \<le> rows \<Longrightarrow> wp + 32 \<le> lw \<Longrightarrow>
      0 \<le> pos \<Longrightarrow> pos + 3 < nb_in \<Longrightarrow> \<exists>out'. blk out (8 * g) wp pos = Some out' \<and> length out' = rows"
    and ok: "blocks_ok (drop ip idx) nb_in tot m" and w: "wp + 32 * nat tot \<le> lw"
    and out: "length out = rows" "rows = 8 * (g + m)"
  shows "\<exists>out' st. ofold (sparse_group blk idx) [g..<g + m] (out, wp, ip) = Some (out', st) \<and> length out' = rows"
  using ok w out
proof (induction m arbitrary: g out wp ip tot)
  case (Suc m)
  obtain n ints where ni: "drop ip idx = n # ints" using Suc.prems(1) by (cases "drop ip idx") auto
  have bk: "0 \<le> n" "nat n \<le> length ints" "blocks_ok (drop (nat n) ints) nb_in (tot - n) m"
    "\<forall>pos\<in>set (take (nat n) ints). 0 \<le> pos \<and> pos + 3 < nb_in"
    using Suc.prems(1) ni by auto
  have l: "ip < length idx" using ni by (metis drop_all leI list.discI)
  have ip: "idx ! ip = n" "ints = drop (ip + 1) idx" using ni Cons_nth_drop_Suc [OF l] by auto
  have tot: "nat n + nat (tot - n) = nat tot" using blocks_ok_tot [OF bk(3)] bk(1) by auto
  let ?upd = "\<lambda>j o'. the (blk o' (8 * g) (wp + 32 * j) (idx ! (ip + 1 + j)))"
  let ?out = "foldl (\<lambda>o' j. ?upd j o') out [0..<nat n]"
  have one: "sparse_group blk idx g (out, wp, ip) = Some (?out, wp + 32 * nat n, ip + 1 + nat n) \<and>
      length ?out = rows"
  proof (rule sparse_group_Some [where P = "\<lambda>o'. length o' = rows"])
    fix j and o' :: "'a list" assume j: "j < nat n" and o': "length o' = rows"
    have "ints ! j \<in> set (take (nat n) ints)"
      using j bk(2) by (metis in_set_conv_nth length_take min.absorb2 nth_take)
    moreover have "ints ! j = idx ! (ip + 1 + j)" using ip(2) l by simp
    ultimately have "idx ! (ip + 1 + j) \<in> set (take (nat n) ints)" by simp
    then have "0 \<le> idx ! (ip + 1 + j)" "idx ! (ip + 1 + j) + 3 < nb_in" using bk(4) by auto
    moreover have "wp + 32 * j + 32 \<le> lw" using j tot Suc.prems(2) by simp
    moreover have "8 * g + 8 \<le> rows" using Suc.prems(4) by simp
    ultimately show "\<exists>out'. blk o' (8 * g) (wp + 32 * j) (idx ! (ip + 1 + j)) = Some out' \<and>
        out' = ?upd j o' \<and> length out' = rows"
      using blk [OF o', of g "wp + 32 * j" "idx ! (ip + 1 + j)"] by auto
  qed (use ip l bk(2) Suc.prems(3) in auto)
  have "\<exists>out' st. ofold (sparse_group blk idx) [Suc g..<Suc g + m] (?out, wp + 32 * nat n, ip + 1 + nat n) =
      Some (out', st) \<and> length out' = rows"
    by (rule Suc.IH [of _ "tot - n"])
      (use one bk(3) ip(2) Suc.prems tot in \<open>auto simp: add.commute\<close>)
  then show ?case using one by (simp add: upt_conv_Cons del: upt_Suc)
qed auto

lemma rd_some: "0 \<le> i \<Longrightarrow> i < int (length xs) \<Longrightarrow> \<exists>v. rd xs i = Some v"
  by (simp add: rd_def)

lemma csparse_block_total:
  fixes out :: "'a::{plus,times} list"
  assumes "length out = rows" "i + 8 \<le> rows" "wp + 32 \<le> length w" "0 \<le> pos" "pos + 3 < int (length x)"
  shows "\<exists>out'. csparse_block ops out i w wp x pos = Some out' \<and> length out' = rows"
proof -
  have "pos < int (length x)" "pos + 1 < int (length x)" "pos + 2 < int (length x)"
    using assms(5) by linarith+
  then obtain x0 x1 x2 x3 where x: "rd x (pos + 0) = Some x0" "rd x (pos + 1) = Some x1"
    "rd x (pos + 2) = Some x2" "rd x (pos + 3) = Some x3"
    using assms(4,5) rd_some [of "pos + 0" x] rd_some [of "pos + 1" x] rd_some [of "pos + 2" x]
      rd_some [of "pos + 3" x] by auto
  show ?thesis
    unfolding csparse_block_def x bind.bind_lunit
  proof (rule ofold_inv [where P = "\<lambda>_ o'. length o' = rows"])
    fix k :: nat and o' :: "'a list" assume k: "k < 8" and o': "length o' = rows"
    show "\<exists>s'. do {
         y \<leftarrow> rd o' (int (i + k));
         w0 \<leftarrow> rd w (int (wp + 4 * k));
         w1 \<leftarrow> rd w (int (wp + 4 * k + 1));
         w2 \<leftarrow> rd w (int (wp + 4 * k + 2));
         w3 \<leftarrow> rd w (int (wp + 4 * k + 3));
         wr o' (int (i + k)) (y + f_of_int ops (w0 * x0 + w1 * x1 + w2 * x2 + w3 * x3))
       } = Some s' \<and> length s' = rows"
      using k o' assms(1-3) rd_nat [of "i + k" o'] rd_nat [of "wp + 4 * k" w] rd_nat [of "wp + 4 * k + 1" w]
        rd_nat [of "wp + 4 * k + 2" w] rd_nat [of "wp + 4 * k + 3" w]
        wr_nat [of "i + k" o'] by simp
  qed (use assms in simp)
qed

lemma cgemv_block_total:
  fixes out :: "'a::{plus,times} list"
  assumes "length out = rows" "i + 8 \<le> rows" "wp + 32 \<le> length w" "j + 4 \<le> length x"
  shows "\<exists>out'. cgemv_block ops out i w wp x j = Some out' \<and> length out' = rows"
proof -
  obtain x0 x1 x2 x3 where x: "rd x (int j + 0) = Some x0" "rd x (int j + 1) = Some x1"
    "rd x (int j + 2) = Some x2" "rd x (int j + 3) = Some x3"
    using assms(4) rd_some [of "int j + 0" x] rd_some [of "int j + 1" x] rd_some [of "int j + 2" x]
      rd_some [of "int j + 3" x] by auto
  show ?thesis
    unfolding cgemv_block_def x bind.bind_lunit
  proof (rule ofold_inv [where P = "\<lambda>_ o'. length o' = rows"])
    fix k :: nat and o' :: "'a list" assume k: "k < 8" and o': "length o' = rows"
    show "\<exists>s'. do {
         y \<leftarrow> rd o' (int (i + k));
         w0 \<leftarrow> rd w (int (wp + 4 * k));
         w1 \<leftarrow> rd w (int (wp + 4 * k + 1));
         w2 \<leftarrow> rd w (int (wp + 4 * k + 2));
         w3 \<leftarrow> rd w (int (wp + 4 * k + 3));
         wr o' (int (i + k)) (y + (f_of_int ops w0 * f_of_int ops x0 + f_of_int ops w1 * f_of_int ops x1
           + f_of_int ops w2 * f_of_int ops x2 + f_of_int ops w3 * f_of_int ops x3))
       } = Some s' \<and> length s' = rows"
      using k o' assms(1-3) rd_nat [of "i + k" o'] rd_nat [of "wp + 4 * k" w] rd_nat [of "wp + 4 * k + 1" w]
        rd_nat [of "wp + 4 * k + 2" w] rd_nat [of "wp + 4 * k + 3" w]
        wr_nat [of "i + k" o'] by simp
  qed (use assms in simp)
qed

lemma quantize_total:
  "cols \<le> MAX_INPUTS \<Longrightarrow> cols \<le> length x \<Longrightarrow> \<exists>q. quantize ops cols x = Some q \<and> length q = cols"
  by (simp add: quantize_def)

text \<open>In-place loops over an array.\<close>

lemma loop_total:
  assumes "\<And>i xs. i < n \<Longrightarrow> length xs = m \<Longrightarrow> \<exists>xs'. f i xs = Some xs' \<and> length xs' = m"
    and "length xs = m"
  shows "\<exists>xs'. ofold f [0..<n] xs = Some xs' \<and> length xs' = m"
  using ofold_inv [where P = "\<lambda>_ xs. length xs = m"] assms by blast

lemma scale_rows_total:
  assumes "rows \<le> length scale" "length out = rows"
  shows "\<exists>out'. scale_rows scale rows out = Some out' \<and> length out' = rows"
  unfolding scale_rows_def using assms by (intro loop_total) (auto simp: rd_nat wr_nat)

lemma sparse_cgemv_total:
  fixes x :: "'a::{zero,one,plus,times,scaleR} list"
  assumes "blocks_ok idx (int cols) tot (rows div 8)" "8 dvd rows" "32 * nat tot \<le> length w"
    "cols \<le> length x" "cols \<le> MAX_INPUTS" "rows \<le> length scale"
  shows "\<exists>out. sparse_cgemv8x4 ops w idx scale rows cols x = Some out \<and> length out = rows"
proof -
  obtain q where q: "quantize ops cols x = Some q" "length q = cols"
    using quantize_total assms by blast
  have m: "(rows + 7) div 8 = rows div 8" "rows = 8 * (0 + rows div 8)" using assms(2) by auto
  have "\<exists>out' st. ofold (sparse_group (\<lambda>out i wp pos. csparse_block ops out i w wp q pos) idx)
      [0..<0 + rows div 8] (replicate rows 0, 0, 0) = Some (out', st) \<and> length out' = rows"
  proof (rule sparse_traverse [where nb_in = "int cols" and tot = tot and lw = "length w"])
    fix out :: "'a list" and g wp pos
    assume "length out = rows" "8 * g + 8 \<le> rows" "wp + 32 \<le> length w" "0 \<le> pos" "pos + 3 < int cols"
    then show "\<exists>out'. csparse_block ops out (8 * g) w wp q pos = Some out' \<and> length out' = rows"
      by (intro csparse_block_total) (simp_all add: q)
  qed (use assms m in simp_all)
  then obtain out st where o: "ofold (sparse_group (\<lambda>out i wp pos. csparse_block ops out i w wp q pos) idx)
      [0..<rows div 8] (replicate rows 0, 0, 0) = Some (out, st)" "length out = rows"
    by auto
  obtain a b where "st = (a, b)" by (cases st)
  then show ?thesis
    using q o m scale_rows_total [OF assms(6) o(2)] by (simp add: sparse_cgemv8x4_def)
qed

lemma cgemv_total:
  fixes x :: "'a::{zero,one,plus,times,scaleR} list"
  assumes "8 dvd rows" "4 dvd cols" "rows * cols \<le> length w" "cols \<le> length x" "cols \<le> MAX_INPUTS"
    "rows \<le> length scale"
  shows "\<exists>out. cgemv8x4 ops w scale rows cols x = Some out \<and> length out = rows"
proof -
  obtain q where q: "quantize ops cols x = Some q" "length q = cols"
    using quantize_total assms by blast
  obtain R where R: "rows = 8 * R" using assms(1) by (rule dvdE)
  obtain C where C: "cols = 4 * C" using assms(2) by (rule dvdE)
  note rc = R C
  have m: "(rows + 7) div 8 = R" "(cols + 3) div 4 = C" using rc by auto
  have w: "32 * (R * C) \<le> length w" using assms(3) rc by (simp add: algebra_simps)
  have "\<exists>st. ofold (\<lambda>b (out, wp).
         ofold (\<lambda>c (out, wp). do {
             out \<leftarrow> cgemv_block ops out (8 * b) w wp q (4 * c);
             Some (out, wp + 32)
           }) [0..<C] (out, wp)) [0..<R] (replicate rows 0, 0) = Some st \<and>
      (length (fst st) = rows \<and> snd st = 32 * (R * C))"
  proof (rule ofold_inv [where P = "\<lambda>b st. length (fst st) = rows \<and> snd st = 32 * (b * C)"])
    fix b and st :: "'a list \<times> nat" assume b: "b < R" and st: "length (fst st) = rows \<and> snd st = 32 * (b * C)"
    have "\<exists>st'. ofold (\<lambda>c (out, wp). do {
             out \<leftarrow> cgemv_block ops out (8 * b) w wp q (4 * c);
             Some (out, wp + 32)
           }) [0..<C] st = Some st' \<and> (length (fst st') = rows \<and> snd st' = 32 * (b * C) + 32 * C)"
    proof (rule ofold_inv [where P = "\<lambda>c st'. length (fst st') = rows \<and> snd st' = 32 * (b * C) + 32 * c"])
      fix c and st' :: "'a list \<times> nat" assume c: "c < C" and st': "length (fst st') = rows \<and> snd st' = 32 * (b * C) + 32 * c"
      have "b * C + c + 1 \<le> R * C"
        using b c mult_le_mono1 [of "Suc b" R C] by simp
      then have "snd st' + 32 \<le> length w" using st' w by linarith
      moreover have "8 * b + 8 \<le> rows" "4 * c + 4 \<le> length q" using b c rc q(2) by auto
      ultimately obtain out' where "cgemv_block ops (fst st') (8 * b) w (snd st') q (4 * c) = Some out'"
        "length out' = rows"
        using cgemv_block_total [of "fst st'" rows "8 * b" "snd st'" w "4 * c" q ops] st' by blast
      then show "\<exists>s'. (case st' of (out, wp) \<Rightarrow> do {
             out \<leftarrow> cgemv_block ops out (8 * b) w wp q (4 * c);
             Some (out, wp + 32)
           }) = Some s' \<and> length (fst s') = rows \<and> snd s' = 32 * (b * C) + 32 * Suc c"
        using st' by (cases st') simp
    qed (use st in simp)
    then show "\<exists>s'. (case st of (out, wp) \<Rightarrow> ofold (\<lambda>c (out, wp). do {
             out \<leftarrow> cgemv_block ops out (8 * b) w wp q (4 * c);
             Some (out, wp + 32)
           }) [0..<C] (out, wp)) = Some s' \<and> length (fst s') = rows \<and> snd s' = 32 * (Suc b * C)"
      by (cases st) (simp add: algebra_simps)
  qed simp
  then obtain out wp where o: "ofold (\<lambda>b (out, wp).
         ofold (\<lambda>c (out, wp). do {
             out \<leftarrow> cgemv_block ops out (8 * b) w wp q (4 * c);
             Some (out, wp + 32)
           }) [0..<C] (out, wp)) [0..<R] (replicate rows 0, 0) = Some (out, wp)" "length out = rows"
    by auto
  then show ?thesis
    using q m scale_rows_total [OF assms(6) o(2)] by (simp add: cgemv8x4_def)
qed

section \<open>Activations and layers return\<close>

lemma vec_map_seg:
  assumes "p + n \<le> length xs"
  shows "vec_map f p n xs = Some (seg_upd xs p n (\<lambda>i. f (xs ! i)))"
  unfolding vec_map_def
proof (rule ofold_upt [where g = "\<lambda>n. seg_upd xs p n (\<lambda>i. f (xs ! i))"])
  fix i assume i: "i < n"
  let ?s = "seg_upd xs p i (\<lambda>i. f (xs ! i))"
  have "rd ?s (int (p + i)) = Some (xs ! (p + i))"
    "wr ?s (int (p + i)) (f (xs ! (p + i))) = Some (?s[p + i := f (xs ! (p + i))])"
    using i assms by (simp_all add: rd_nat wr_nat del: of_nat_add)
  moreover have "?s[p + i := f (xs ! (p + i))] = seg_upd xs p (Suc i) (\<lambda>i. f (xs ! i))"
    using seg_upd_Suc [of p i xs "\<lambda>i. f (xs ! i)"] i assms by simp
  ultimately show "do { v \<leftarrow> rd ?s (int (p + i)); wr ?s (int (p + i)) (f v) } =
      Some (seg_upd xs p (Suc i) (\<lambda>i. f (xs ! i)))" by simp
qed simp

lemma compute_activation_total:
  assumes "p + n \<le> length xs" "n \<le> MAX_ACTIVATIONS"
  shows "\<exists>ys. compute_activation ops xs p n act = Some ys \<and> length ys = length xs"
proof (cases act)
  case ACTIVATION_SOFTMAX
  let ?ys = "seg_upd xs p n (\<lambda>i. lpcnet_exp ops (xs ! i))"
  have "\<exists>s. ofold (\<lambda>i s. do { y \<leftarrow> rd ?ys (int (p + i)); Some (s + y) }) [0..<n] 0 = Some s \<and> True"
    by (rule ofold_inv [where P = "\<lambda>_ _. True"])
       (use assms in \<open>auto simp: rd_nat simp del: of_nat_add\<close>)
  then show ?thesis
    using ACTIVATION_SOFTMAX assms by (auto simp: compute_activation_def vec_map_seg Let_def)
qed (use assms in \<open>simp_all add: compute_activation_def vec_map_seg\<close>)

definition layer_ok :: "'a layer \<Rightarrow> nat \<Rightarrow> nat \<Rightarrow> bool" where
  "layer_ok l nin nout \<longleftrightarrow> ly_inputs l = nin \<and> ly_outputs l = nout \<and>
     (\<forall>fw. ly_float_weights l = Some fw \<longrightarrow>
        (case ly_idx l of
           None \<Rightarrow> nin * nout \<le> length fw
         | Some idx \<Rightarrow> 8 dvd nout \<and> (\<exists>tot. blocks_ok idx (int nin) tot (nout div 8) \<and> 32 * nat tot \<le> length fw))) \<and>
     (\<forall>w. ly_float_weights l = None \<and> ly_weights l = Some w \<longrightarrow>
        8 dvd nout \<and> nin \<le> MAX_INPUTS \<and> (\<exists>sc. ly_scale l = Some sc \<and> nout \<le> length sc) \<and>
        (case ly_idx l of
           None \<Rightarrow> 4 dvd nin \<and> nout * nin \<le> length w
         | Some idx \<Rightarrow> (\<exists>tot. blocks_ok idx (int nin) tot (nout div 8) \<and> 32 * nat tot \<le> length w))) \<and>
     (\<forall>b. ly_bias l = Some b \<longrightarrow> nout \<le> length b) \<and>
     (\<forall>d. ly_diag l = Some d \<longrightarrow> nout = 3 * nin \<and> nout \<le> length d)"

lemma product_total:
  fixes x :: "'a::{zero,one,plus,times,scaleR} list"
  assumes ok: "layer_ok l nin nout" and x: "nin \<le> length x"
  shows "\<exists>out. (case ly_float_weights l of
            Some fw \<Rightarrow>
              (case ly_idx l of
                 Some idx \<Rightarrow> sparse_sgemv8x4 fw idx nout x
               | None \<Rightarrow> sgemv fw nout nin nout x)
          | None \<Rightarrow>
              (case ly_weights l of
                 Some w \<Rightarrow> do {
                   sc \<leftarrow> ly_scale l;
                   (case ly_idx l of
                      Some idx \<Rightarrow> sparse_cgemv8x4 ops w idx sc nout nin x
                    | None \<Rightarrow> cgemv8x4 ops w sc nout nin x)
                 }
               | None \<Rightarrow> Some (replicate nout 0))) = Some out \<and> length out = nout"
proof (cases "ly_float_weights l")
  case (Some fw)
  show ?thesis
  proof (cases "ly_idx l")
    case None
    have "\<forall>j<nin. j * nout + nout \<le> length fw"
    proof (intro allI impI)
      fix j assume "j < nin"
      then have "Suc j * nout \<le> nin * nout" by (intro mult_le_mono1) simp
      then show "j * nout + nout \<le> length fw" using ok Some None by (simp add: layer_ok_def)
    qed
    then show ?thesis using Some None sgemv_rows [of nin nout nout fw x] x by simp
  next
    case (Some idx)
    then obtain tot where "8 dvd nout" "blocks_ok idx (int nin) tot (nout div 8)" "32 * nat tot \<le> length fw"
      using ok \<open>ly_float_weights l = Some fw\<close> by (auto simp: layer_ok_def)
    then show ?thesis
      using Some \<open>ly_float_weights l = Some fw\<close> x sparse_sgemv_rows [of idx "int nin" tot nout fw x] by simp
  qed
next
  case None
  show ?thesis
  proof (cases "ly_weights l")
    case (Some w)
    then obtain sc where sc: "8 dvd nout" "nin \<le> MAX_INPUTS" "ly_scale l = Some sc" "nout \<le> length sc"
      using ok None by (auto simp: layer_ok_def)
    show ?thesis
    proof (cases "ly_idx l")
      case idx: None
      then have "4 dvd nin" "nout * nin \<le> length w" using ok None Some by (auto simp: layer_ok_def)
      then show ?thesis using None Some idx sc x cgemv_total [of nout nin w x sc ops] by simp
    next
      case idx: (Some idx)
      then obtain tot where "blocks_ok idx (int nin) tot (nout div 8)" "32 * nat tot \<le> length w"
        using ok None Some by (auto simp: layer_ok_def)
      then show ?thesis
        using None Some idx sc x sparse_cgemv_total [of idx nin tot nout w x sc ops] by simp
    qed
  qed (use None in simp)
qed

lemma madd_total:
  "i < length out \<Longrightarrow> j < length w \<Longrightarrow> \<exists>out'. madd out i w j v = Some out' \<and> length out' = length out"
  by (simp add: madd_Some)

lemma compute_linear_total:
  fixes x :: "'a::{zero,one,plus,times,scaleR} list"
  assumes ok: "layer_ok l nin nout" and x: "nin \<le> length x"
  shows "\<exists>out. compute_linear ops l x = Some out \<and> length out = nout"
proof -
  have dims: "ly_inputs l = nin" "ly_outputs l = nout" using ok by (auto simp: layer_ok_def)
  have bias: "\<exists>o2. (case ly_bias l of
            None \<Rightarrow> Some out
          | Some b \<Rightarrow> ofold (\<lambda>i out. do {
              y \<leftarrow> rd out (int i); c \<leftarrow> rd b (int i); wr out (int i) (y + c) }) [0..<nout] out) = Some o2 \<and>
       length o2 = nout" if out: "length out = nout" for out :: "'a list"
  proof (cases "ly_bias l")
    case (Some b)
    then have "nout \<le> length b" using ok by (simp add: layer_ok_def)
    then show ?thesis
      using Some out by (simp, intro loop_total) (auto simp: rd_nat wr_nat)
  qed (use out in simp)
  have diag: "\<exists>o2. (case ly_diag l of
           None \<Rightarrow> Some out
         | Some d \<Rightarrow> ofold (\<lambda>i out. do {
             xi \<leftarrow> rd x (int i);
             out \<leftarrow> madd out i d i xi;
             out \<leftarrow> madd out (i + nin) d (i + nin) xi;
             madd out (i + 2 * nin) d (i + 2 * nin) xi }) [0..<nin] out) = Some o2 \<and> length o2 = nout"
    if out: "length out = nout" for out :: "'a list"
  proof (cases "ly_diag l")
    case (Some d)
    then have d: "nout = 3 * nin" "nout \<le> length d" using ok by (auto simp: layer_ok_def)
    then show ?thesis
      using Some out x by (simp, intro loop_total) (auto simp: rd_nat madd_Some)
  qed (use out in simp)
  obtain o1 where o1: "(case ly_float_weights l of
            Some fw \<Rightarrow>
              (case ly_idx l of
                 Some idx \<Rightarrow> sparse_sgemv8x4 fw idx nout x
               | None \<Rightarrow> sgemv fw nout nin nout x)
          | None \<Rightarrow>
              (case ly_weights l of
                 Some w \<Rightarrow> do {
                   sc \<leftarrow> ly_scale l;
                   (case ly_idx l of
                      Some idx \<Rightarrow> sparse_cgemv8x4 ops w idx sc nout nin x
                    | None \<Rightarrow> cgemv8x4 ops w sc nout nin x)
                 }
               | None \<Rightarrow> Some (replicate nout 0))) = Some o1" "length o1 = nout"
    using product_total [OF ok x, of ops] by blast
  obtain o2 where o2: "(case ly_bias l of
            None \<Rightarrow> Some o1
          | Some b \<Rightarrow> ofold (\<lambda>i out. do {
              y \<leftarrow> rd out (int i); c \<leftarrow> rd b (int i); wr out (int i) (y + c) }) [0..<nout] o1) = Some o2"
       "length o2 = nout" using bias [OF o1(2)] by blast
  show ?thesis
    unfolding compute_linear_def Let_def dims o1(1) bind.bind_lunit o2(1)
    by (rule diag [OF o2(2)])
qed

lemma dense_total:
  fixes x :: "'a::{zero,one,plus,minus,times,inverse,uminus,ord,scaleR} list"
  assumes "layer_ok l nin nout" "nin \<le> length x" "nout \<le> MAX_ACTIVATIONS"
  shows "\<exists>out. compute_generic_dense ops l x act = Some out \<and> length out = nout"
proof -
  obtain o1 where o1: "compute_linear ops l x = Some o1" "length o1 = nout"
    using compute_linear_total [OF assms(1,2)] by blast
  have "ly_outputs l = nout" using assms(1) by (simp add: layer_ok_def)
  then show ?thesis
    using o1 compute_activation_total [of 0 nout o1 ops act] assms(3)
    by (simp add: compute_generic_dense_def)
qed

section \<open>The recurrent layer, in closed form\<close>

definition gru_value ::
  "'a::{zero,one,plus,minus,times,inverse,uminus,ord,scaleR} list \<Rightarrow> 'a list \<Rightarrow> 'a list \<Rightarrow> nat \<Rightarrow> nat \<Rightarrow> 'a" where
  "gru_value zrh recur state N i =
     (let z = sigmoid_approx (zrh ! i + recur ! i);
          r = sigmoid_approx (zrh ! (N + i) + recur ! (N + i));
          h = tanh_approx (zrh ! (2 * N + i) + recur ! (2 * N + i) * r)
      in z * state ! i + (lit 1 - z) * h)"

lemma gru_closed_form:
  fixes inp :: "'a::{zero,one,plus,minus,times,inverse,uminus,ord,scaleR} list"
  assumes inl: "layer_ok il nin (3 * N)" "nin \<le> length inp" and rl: "layer_ok rl N (3 * N)"
    and N: "N \<le> MAX_RNN_NEURONS_ALL" and state: "length state = N"
  shows "\<exists>zrh recur. compute_generic_gru ops il rl state inp =
    Some (map (gru_value zrh recur state N) [0..<N])"
proof -
  obtain zrh recur where c: "compute_linear ops il inp = Some zrh" "length zrh = 3 * N"
      "compute_linear ops rl state = Some recur" "length recur = 3 * N"
    using compute_linear_total [OF inl, of ops] compute_linear_total [OF rl, of state ops] state by auto
  have dims: "ly_inputs rl = N" "ly_outputs il = 3 * N" "ly_outputs rl = 3 * N"
    using inl rl by (auto simp: layer_ok_def)
  let ?a = "seg_upd zrh 0 (2 * N) (\<lambda>i. zrh ! i + recur ! i)"
  let ?b = "seg_upd ?a 0 (2 * N) (\<lambda>i. sigmoid_approx (?a ! i))"
  let ?c = "seg_upd ?b (2 * N) N (\<lambda>i. ?b ! i + recur ! i * ?b ! (i - N))"
  let ?d = "seg_upd ?c (2 * N) N (\<lambda>i. tanh_approx (?c ! i))"
  let ?e = "seg_upd ?d (2 * N) N (\<lambda>i. ?d ! (i - 2 * N) * state ! (i - 2 * N) + (lit 1 - ?d ! (i - 2 * N)) * ?d ! i)"
  let ?f = "seg_upd state 0 N (\<lambda>i. ?e ! (2 * N + i))"
  have a: "ofold (\<lambda>i zrh. do {
               a \<leftarrow> rd zrh (int i); b \<leftarrow> rd recur (int i); wr zrh (int i) (a + b) }) [0..<2 * N] zrh = Some ?a"
    using c by (intro ofold_seg) (auto simp: rd_nat wr_nat)
  have b: "compute_activation ops ?a 0 (2 * N) ACTIVATION_SIGMOID = Some ?b"
    using c by (simp add: compute_activation_def vec_map_seg)
  have cc: "ofold (\<lambda>i zrh. do {
               h \<leftarrow> rd zrh (int (2 * N + i)); c \<leftarrow> rd recur (int (2 * N + i)); r \<leftarrow> rd zrh (int (N + i));
               wr zrh (int (2 * N + i)) (h + c * r) }) [0..<N] ?b = Some ?c"
    using c by (intro ofold_seg) (auto simp: rd_nat wr_nat simp del: of_nat_add of_nat_mult)
  have d: "compute_activation ops ?c (2 * N) N ACTIVATION_TANH = Some ?d"
    using c by (simp add: compute_activation_def vec_map_seg)
  have e: "ofold (\<lambda>i zrh. do {
               z \<leftarrow> rd zrh (int i); s \<leftarrow> rd state (int i); h \<leftarrow> rd zrh (int (2 * N + i));
               wr zrh (int (2 * N + i)) (z * s + (lit 1 - z) * h) }) [0..<N] ?d = Some ?e"
    using c state by (intro ofold_seg) (auto simp: rd_nat wr_nat simp del: of_nat_add of_nat_mult)
  have f: "ofold (\<lambda>i state. do { h \<leftarrow> rd ?e (int (2 * N + i)); wr state (int i) h }) [0..<N] state = Some ?f"
    using c state by (intro ofold_seg) (auto simp: rd_nat wr_nat simp del: of_nat_add of_nat_mult)
  have "compute_generic_gru ops il rl state inp = Some ?f"
    using N by (simp only: compute_generic_gru_def Let_def dims c a b cc d e f bind.bind_lunit) simp
  also have "?f = map (gru_value zrh recur state N) [0..<N]"
    using c state by (intro nth_equalityI) (auto simp: gru_value_def Let_def)
  finally show ?thesis by blast
qed

section \<open>Bounds, in exact arithmetic\<close>

lemma tanh_approx_range: "-1 \<le> tanh_approx (x::real)" "tanh_approx (x::real) \<le> 1"
  by (auto simp: tanh_approx_def Let_def MAX32_def MIN32_def)

lemma sigmoid_approx_range: "0 \<le> sigmoid_approx (x::real)" "sigmoid_approx (x::real) \<le> 1"
  using tanh_approx_range [of "lit 0.5 * x"] by (simp_all add: sigmoid_approx_def)

definition unit_range :: "real list \<Rightarrow> bool" where
  "unit_range xs \<longleftrightarrow> (\<forall>x\<in>set xs. \<bar>x\<bar> \<le> 1)"

definition gain_range :: "real list \<Rightarrow> bool" where
  "gain_range xs \<longleftrightarrow> (\<forall>x\<in>set xs. 0 \<le> x \<and> x \<le> 1)"

lemma convex_unit:
  fixes z s h :: real
  assumes "0 \<le> z" "z \<le> 1" "\<bar>s\<bar> \<le> 1" "\<bar>h\<bar> \<le> 1"
  shows "\<bar>z * s + (1 - z) * h\<bar> \<le> 1"
proof -
  have "\<bar>z * s + (1 - z) * h\<bar> \<le> \<bar>z * s\<bar> + \<bar>(1 - z) * h\<bar>" by (rule abs_triangle_ineq)
  also have "\<dots> \<le> z * 1 + (1 - z) * 1"
    using assms mult_left_mono [of "\<bar>s\<bar>" 1 z] mult_left_mono [of "\<bar>h\<bar>" 1 "1 - z"]
    by (simp add: abs_mult)
  finally show ?thesis by simp
qed

lemma gru_value_unit:
  "\<bar>state ! i\<bar> \<le> 1 \<Longrightarrow> \<bar>gru_value zrh recur state N i\<bar> \<le> (1::real)"
  using convex_unit sigmoid_approx_range tanh_approx_range by (simp add: gru_value_def Let_def abs_le_iff)

lemma gru_bounded:
  assumes "layer_ok il nin (3 * N)" "nin \<le> length inp" "layer_ok rl N (3 * N)"
    "N \<le> MAX_RNN_NEURONS_ALL" "length state = N" "unit_range state"
  shows "\<exists>st. compute_generic_gru ops il rl state inp = Some st \<and> length st = N \<and> unit_range st"
  using gru_closed_form [OF assms(1-5), of ops] assms(5,6) gru_value_unit
  by (force simp: unit_range_def)

lemma seg_range:
  assumes "\<And>i. P (f i)" "n = length xs"
  shows "\<forall>x\<in>set (seg_upd xs 0 n f). P x"
  using assms by (auto simp: seg_upd_def)

lemma sigmoid_dense_range:
  fixes x :: "real list"
  assumes "layer_ok l nin nout" "nin \<le> length x"
  shows "\<exists>out. compute_generic_dense ops l x ACTIVATION_SIGMOID = Some out \<and> length out = nout \<and> gain_range out"
proof -
  obtain o1 where o1: "compute_linear ops l x = Some o1" "length o1 = nout"
    using compute_linear_total [OF assms] by blast
  have "ly_outputs l = nout" using assms(1) by (simp add: layer_ok_def)
  then have "compute_generic_dense ops l x ACTIVATION_SIGMOID =
      Some (seg_upd o1 0 nout (\<lambda>i. sigmoid_approx (o1 ! i)))"
    using o1 by (simp add: compute_generic_dense_def compute_activation_def vec_map_seg)
  moreover have "gain_range (seg_upd o1 0 nout (\<lambda>i. sigmoid_approx (o1 ! i)))"
    unfolding gain_range_def by (rule seg_range) (use o1 sigmoid_approx_range in auto)
  ultimately show ?thesis using o1 by simp
qed

lemma tanh_conv1d_range:
  fixes x :: "real list"
  assumes "layer_ok l nin nout" "isz \<le> length x" "isz \<le> nin" "nin \<le> MAX_CONV_INPUTS_ALL"
    "length mem = nin - isz" "isz \<noteq> nin"
  shows "\<exists>out mem'. compute_generic_conv1d ops l mem x isz ACTIVATION_TANH = Some (out, mem') \<and>
    length out = nout \<and> unit_range out \<and>
    mem' = drop isz (mem @ take isz x) \<and> length mem' = length mem"
proof -
  let ?tmp = "mem @ take isz x"
  have tmp: "length ?tmp = nin" using assms by simp
  obtain o1 where o1: "compute_linear ops l ?tmp = Some o1" "length o1 = nout"
    using compute_linear_total [OF assms(1), of ?tmp ops] tmp by auto
  have dims: "ly_inputs l = nin" "ly_outputs l = nout" using assms(1) by (auto simp: layer_ok_def)
  let ?out = "seg_upd o1 0 nout (\<lambda>i. tanh_approx (o1 ! i))"
  have m: "take (nin - isz) mem = mem" using assms(5) by simp
  have "compute_generic_conv1d ops l mem x isz ACTIVATION_TANH = Some (?out, blit mem 0 (drop isz ?tmp))"
    using o1 dims assms by (simp add: compute_generic_conv1d_def Let_def m compute_activation_def vec_map_seg)
  moreover have "blit mem 0 (drop isz ?tmp) = drop isz ?tmp"
    using tmp assms(5) by (simp add: blit_def)
  moreover have "unit_range ?out"
    unfolding unit_range_def by (rule seg_range) (use o1 tanh_approx_range in \<open>auto simp: abs_le_iff minus_le_iff\<close>)
  ultimately show ?thesis using o1 tmp assms(5) by simp
qed

definition model_ok :: "'a RNNoise \<Rightarrow> bool" where
  "model_ok m \<longleftrightarrow> layer_ok (conv1 m) (CONV1_STATE_SIZE + CONV1_IN_SIZE) CONV1_OUT_SIZE \<and>
     layer_ok (conv2 m) (CONV2_STATE_SIZE + CONV2_IN_SIZE) CONV2_OUT_SIZE \<and>
     layer_ok (gru1_input m) CONV2_OUT_SIZE (3 * GRU_STATE_SIZE) \<and>
     layer_ok (gru1_recurrent m) GRU_STATE_SIZE (3 * GRU_STATE_SIZE) \<and>
     layer_ok (gru2_input m) GRU_STATE_SIZE (3 * GRU_STATE_SIZE) \<and>
     layer_ok (gru2_recurrent m) GRU_STATE_SIZE (3 * GRU_STATE_SIZE) \<and>
     layer_ok (gru3_input m) GRU_STATE_SIZE (3 * GRU_STATE_SIZE) \<and>
     layer_ok (gru3_recurrent m) GRU_STATE_SIZE (3 * GRU_STATE_SIZE) \<and>
     layer_ok (dense_out m) GRU_STATE_SIZE DENSE_OUT_OUT_SIZE \<and>
     layer_ok (vad_dense m) GRU_STATE_SIZE VAD_DENSE_OUT_SIZE"

definition rnn_state_ok :: "real RNNState \<Rightarrow> bool" where
  "rnn_state_ok st \<longleftrightarrow> length (conv1_state st) = CONV1_STATE_SIZE \<and> length (conv2_state st) = CONV2_STATE_SIZE \<and>
     length (gru1_state st) = GRU_STATE_SIZE \<and> unit_range (gru1_state st) \<and>
     length (gru2_state st) = GRU_STATE_SIZE \<and> unit_range (gru2_state st) \<and>
     length (gru3_state st) = GRU_STATE_SIZE \<and> unit_range (gru3_state st)"

definition zero_rnn_state :: "real RNNState" where
  "zero_rnn_state = \<lparr>conv1_state = replicate CONV1_STATE_SIZE 0, conv2_state = replicate CONV2_STATE_SIZE 0,
     gru1_state = replicate GRU_STATE_SIZE 0, gru2_state = replicate GRU_STATE_SIZE 0,
     gru3_state = replicate GRU_STATE_SIZE 0\<rparr>"

lemma zero_rnn_state_ok: "rnn_state_ok zero_rnn_state"
  by (simp add: rnn_state_ok_def zero_rnn_state_def unit_range_def)

lemma compute_rnn_ok:
  assumes m: "model_ok model" and st: "rnn_state_ok rnn" and x: "CONV1_IN_SIZE \<le> length input"
  shows "\<exists>gains vad rnn'. compute_rnn ops model rnn input = Some (gains, vad, rnn') \<and>
    length gains = DENSE_OUT_OUT_SIZE \<and> gain_range gains \<and>
    length vad = VAD_DENSE_OUT_SIZE \<and> gain_range vad \<and> rnn_state_ok rnn'"
proof -
  note l = m [unfolded model_ok_def]
  obtain t1 c1 where 1: "compute_generic_conv1d ops (conv1 model) (conv1_state rnn) input CONV1_IN_SIZE
      ACTIVATION_TANH = Some (t1, c1)" "length t1 = CONV1_OUT_SIZE" "length c1 = CONV1_STATE_SIZE"
    using tanh_conv1d_range [of "conv1 model" "CONV1_STATE_SIZE + CONV1_IN_SIZE" CONV1_OUT_SIZE
        CONV1_IN_SIZE input "conv1_state rnn" ops] l st x
    by (auto simp: rnn_state_ok_def rnn_sizes)
  obtain t2 c2 where 2: "compute_generic_conv1d ops (conv2 model) (conv2_state rnn) t1 CONV2_IN_SIZE
      ACTIVATION_TANH = Some (t2, c2)" "length t2 = CONV2_OUT_SIZE" "length c2 = CONV2_STATE_SIZE"
    using tanh_conv1d_range [of "conv2 model" "CONV2_STATE_SIZE + CONV2_IN_SIZE" CONV2_OUT_SIZE
        CONV2_IN_SIZE t1 "conv2_state rnn" ops] l st 1(2)
    by (auto simp: rnn_state_ok_def rnn_sizes)
  have gru: "\<exists>g. compute_generic_gru ops il rl s inp = Some g \<and> length g = GRU_STATE_SIZE \<and> unit_range g"
    if "layer_ok il n (3 * GRU_STATE_SIZE)" "n \<le> length inp" "layer_ok rl GRU_STATE_SIZE (3 * GRU_STATE_SIZE)"
      "length s = GRU_STATE_SIZE" "unit_range s" for il rl s inp n
    using gru_bounded [OF that(1-3) _ that(4,5), of ops] by (simp add: rnn_sizes)
  obtain g1 where g1: "compute_generic_gru ops (gru1_input model) (gru1_recurrent model) (gru1_state rnn) t2 =
      Some g1" "length g1 = GRU_STATE_SIZE" "unit_range g1"
    using gru [of "gru1_input model" CONV2_OUT_SIZE t2 "gru1_recurrent model" "gru1_state rnn"] l st 2(2)
    by (auto simp: rnn_state_ok_def)
  obtain g2 where g2: "compute_generic_gru ops (gru2_input model) (gru2_recurrent model) (gru2_state rnn) g1 =
      Some g2" "length g2 = GRU_STATE_SIZE" "unit_range g2"
    using gru [of "gru2_input model" GRU_STATE_SIZE g1 "gru2_recurrent model" "gru2_state rnn"] l st g1(2)
    by (auto simp: rnn_state_ok_def)
  obtain g3 where g3: "compute_generic_gru ops (gru3_input model) (gru3_recurrent model) (gru3_state rnn) g2 =
      Some g3" "length g3 = GRU_STATE_SIZE" "unit_range g3"
    using gru [of "gru3_input model" GRU_STATE_SIZE g2 "gru3_recurrent model" "gru3_state rnn"] l st g2(2)
    by (auto simp: rnn_state_ok_def)
  obtain gains where gains: "compute_generic_dense ops (dense_out model) g3 ACTIVATION_SIGMOID = Some gains"
    "length gains = DENSE_OUT_OUT_SIZE" "gain_range gains"
    using sigmoid_dense_range [of "dense_out model" GRU_STATE_SIZE DENSE_OUT_OUT_SIZE g3 ops] l g3(2) by auto
  obtain vad where vad: "compute_generic_dense ops (vad_dense model) g3 ACTIVATION_SIGMOID = Some vad"
    "length vad = VAD_DENSE_OUT_SIZE" "gain_range vad"
    using sigmoid_dense_range [of "vad_dense model" GRU_STATE_SIZE VAD_DENSE_OUT_SIZE g3 ops] l g3(2) by auto
  show ?thesis
    unfolding compute_rnn_def 1(1) bind.bind_lunit prod.case 2(1) g1(1) g2(1) g3(1) gains(1) vad(1)
    using 1(3) 2(3) g1 g2 g3 gains vad by (simp add: rnn_state_ok_def)
qed

section \<open>Properties\<close>

text \<open>
  C17. The unrolled matrix-vector products compute what the plain double loop computes, with
  the same order of additions, so bit for bit: for any row count \<open>sgemv\<close> (which picks the
  16-row, the 8-row or the plain loop) returns for each row the sum over the columns, and
  reads and writes only inside the arrays.
\<close>

theorem sgemv_exact:
  fixes w x :: "'a::{zero,plus,times} list"
  assumes "\<forall>j<cols. j * col_stride + rows \<le> length w" "cols \<le> length x"
  shows "sgemv w rows cols col_stride x =
    Some (map (\<lambda>i. foldl (\<lambda>s j. s + w ! (j * col_stride + i) * x ! j) 0 [0..<cols]) [0..<rows])"
  using sgemv_rows [OF assms] by (simp add: row_dot_def [abs_def])

theorem sgemv_exact_witness:
  "sgemv (replicate 16 2) 8 2 8 [3, 5] = Some (replicate 8 (16::int))"
proof -
  have "sgemv (replicate 16 2) 8 2 8 [3, 5::int] =
      Some (map (\<lambda>i. foldl (\<lambda>s j. s + replicate 16 2 ! (j * 8 + i) * [3, 5] ! j) 0 [0..<2]) [0..<8])"
    by (rule sgemv_exact) auto
  also have "map (\<lambda>i. foldl (\<lambda>s j. s + replicate 16 2 ! (j * 8 + i) * [3, 5::int] ! j) 0 [0..<2]) [0..<8] =
      replicate 8 16"
    by (simp add: upt_rec eval_nat_numeral)
  finally show ?thesis .
qed

text \<open>
  C18. The sparse product is memory-safe on every index that describes a layer, and each of its
  rows is the sum over the blocks of its group, in the order they are stored.
\<close>

theorem sparse_sgemv8x4_exact:
  fixes w x :: "'a::{zero,plus,times} list"
  assumes "blocks_ok idx nb_in tot (rows div 8)" "8 dvd rows" "32 * nat tot \<le> length w"
    "nb_in \<le> int (length x)"
  shows "sparse_sgemv8x4 w idx rows x =
    Some (map (\<lambda>i. sparse_row w x (sparse_groups idx 0 (rows div 8) ! (i div 8)) (i mod 8)) [0..<rows])"
  by (rule sparse_sgemv_rows [OF assms])

theorem sparse_sgemv8x4_exact_witness:
  "sparse_sgemv8x4 (replicate 32 (1::int)) [1, 4] 8 [9, 9, 9, 9, 1, 2, 3, 4] = Some (replicate 8 10)"
proof -
  have "sparse_sgemv8x4 (replicate 32 (1::int)) [1, 4] 8 [9, 9, 9, 9, 1, 2, 3, 4] =
    Some (map (\<lambda>i. sparse_row (replicate 32 1) [9, 9, 9, 9, 1, 2, 3, 4]
      (sparse_groups [1, 4] 0 (8 div 8) ! (i div 8)) (i mod 8)) [0..<8])"
    by (rule sparse_sgemv8x4_exact [where nb_in = 8 and tot = 1]) auto
  also have "\<dots> = Some (replicate 8 10)" by code_simp
  finally show ?thesis .
qed


definition empty_layer :: "nat \<Rightarrow> nat \<Rightarrow> real layer" where
  "empty_layer nin nout = \<lparr>ly_bias = None, ly_weights = None, ly_float_weights = None, ly_idx = None,
     ly_diag = None, ly_scale = None, ly_inputs = nin, ly_outputs = nout\<rparr>"

definition empty_model :: "real RNNoise" where
  "empty_model = \<lparr>conv1 = (empty_layer 195 128)\<lparr>ly_bias := Some (replicate 128 1)\<rparr>,
     conv2 = empty_layer 384 384,
     gru1_input = empty_layer 384 1152, gru1_recurrent = empty_layer 384 1152,
     gru2_input = empty_layer 384 1152, gru2_recurrent = empty_layer 384 1152,
     gru3_input = empty_layer 384 1152, gru3_recurrent = empty_layer 384 1152,
     dense_out = empty_layer 384 32, vad_dense = empty_layer 384 1\<rparr>"

lemma empty_model_ok: "model_ok empty_model"
  by (simp add: model_ok_def empty_model_def empty_layer_def layer_ok_def rnn_sizes)

definition real_fops :: "real fops" where
  "real_fops = \<lparr>f_of_int = of_int, f_floor = floor, f_bits = \<lambda>_. 0, f_of_bits = \<lambda>_. 0\<rparr>"


end
