(* ===== verification/Rnn_Denoise.thy ===== *)
theory Rnn_Denoise
  imports Rnn_Tables Rnn_Pitch Rnn_Nnet
begin

text \<open>
  The noise suppressor: \<open>denoise.c\<close>. The state is the C structure field by field, the functions are
  those of the file, with checked array accesses, and \<open>None\<close> where C is undefined. Local arrays that C
  leaves uninitialised start as zeros; they are written before they are read.

  The environment holds what is not code of this file: the library functions, the plan of the
  transform (static: \<open>rnn_kfft\<close>), the cosine table, and \<open>rnnoise_data.c\<close>, which is not part of the
  repository: the built-in weights and \<open>init_rnnoise\<close>, which fills the model from a list of arrays.
\<close>

section \<open>Environment and state\<close>

record 'a denoise_env =
  e_ops :: "'a fops"
  e_libm :: "'a libm"
  e_kfft :: "'a fft_state"
  e_dct :: "'a list"
  e_arrays :: "WeightArray list"
  e_init_rnnoise :: "WeightArray list \<Rightarrow> int \<times> 'a RNNoise"

definition eband20ms :: "nat list" where
  "eband20ms = [0, 2, 4, 6, 8, 10, 12, 15, 18, 21, 24, 28, 32, 36, 41, 47, 53, 60, 68, 77, 87, 98, 110, 124,
     140, 157, 176, 198, 223, 251, 282, 317, 356, 400]"

record 'a DenoiseState =
  st_model :: "'a RNNoise"
  analysis_mem :: "'a list"
  memid :: int
  synthesis_mem :: "'a list"
  pitch_buf :: "'a list"
  pitch_enh_buf :: "'a list"
  last_gain :: 'a
  last_period :: int
  mem_hp_x :: "'a list"
  lastg :: "'a list"
  st_rnn :: "'a RNNState"
  delayed_X :: "'a cpx list"
  delayed_P :: "'a cpx list"
  delayed_Ex :: "'a list"
  delayed_Ep :: "'a list"
  delayed_Exp :: "'a list"
  strength :: 'a

definition MIN16 :: "'a::ord \<Rightarrow> 'a \<Rightarrow> 'a" where "MIN16 a b = (if a < b then a else b)"
definition MAX16 :: "'a::ord \<Rightarrow> 'a \<Rightarrow> 'a" where "MAX16 a b = (if b < a then a else b)"

definition SQUARE :: "'a::times \<Rightarrow> 'a" where "SQUARE x = x * x"

section \<open>Bands\<close>

text \<open>The triangular bands of \<open>compute_band_energy\<close> and \<open>compute_band_corr\<close>; \<open>val\<close> is \<open>tmp\<close> at a bin.\<close>

definition band_sums ::
  "'a fops \<Rightarrow> (nat \<Rightarrow> 'a option) \<Rightarrow> 'a::{one,plus,minus,times,inverse} list \<Rightarrow> 'a list option" where
  "band_sums P val acc = ofold (\<lambda>i acc. do {
     lo \<leftarrow> rd eband20ms (int i);
     hi \<leftarrow> rd eband20ms (int (i + 1));
     let band_size = hi - lo;
     ofold (\<lambda>j acc. do {
       let frac = f_of_int P (int j) / f_of_int P (int band_size);
       tmp \<leftarrow> val (lo + j);
       a \<leftarrow> rd acc (int i);
       acc \<leftarrow> wr acc (int i) (a + (1 - frac) * tmp);
       b \<leftarrow> rd acc (int (i + 1));
       wr acc (int (i + 1)) (b + frac * tmp)
     }) [0..<band_size] acc
   }) [0..<NB_BANDS + 1] acc"

definition band_finish :: "'a::{zero,one,plus,times,inverse,scaleR} list \<Rightarrow> 'a list option" where
  "band_finish acc = do {
     s0 \<leftarrow> rd acc 0;
     s1 \<leftarrow> rd acc 1;
     acc \<leftarrow> wr acc 1 ((s0 + s1) * lit 2 / lit 3);
     sa \<leftarrow> rd acc (int NB_BANDS);
     sb \<leftarrow> rd acc (int (NB_BANDS + 1));
     acc \<leftarrow> wr acc (int NB_BANDS) ((sa + sb) * lit 2 / lit 3);
     ofold (\<lambda>i bandE. do { s \<leftarrow> rd acc (int (i + 1)); wr bandE (int i) s }) [0..<NB_BANDS] (replicate NB_BANDS 0)
   }"

definition compute_band_energy ::
  "'a fops \<Rightarrow> 'a::{zero,one,plus,minus,times,inverse,scaleR} cpx list \<Rightarrow> 'a list option" where
  "compute_band_energy P X = do {
     acc \<leftarrow> band_sums P (\<lambda>k. do { x \<leftarrow> rd X (int k); Some (SQUARE (cr x) + SQUARE (ci x)) }) (replicate (NB_BANDS + 2) 0);
     band_finish acc
   }"

definition compute_band_corr ::
  "'a fops \<Rightarrow> 'a::{zero,one,plus,minus,times,inverse,scaleR} cpx list \<Rightarrow> 'a cpx list \<Rightarrow> 'a list option" where
  "compute_band_corr P X Q = do {
     acc \<leftarrow> band_sums P (\<lambda>k. do { x \<leftarrow> rd X (int k); p \<leftarrow> rd Q (int k); Some (cr x * cr p + ci x * ci p) })
       (replicate (NB_BANDS + 2) 0);
     band_finish acc
   }"

text \<open>
  \<open>memset(g, 0, FREQ_SIZE)\<close> counts bytes: it clears the first 120 cells and the low byte of the next.
\<close>

definition clear_bytes :: "'a fops \<Rightarrow> nat \<Rightarrow> 'a::zero list \<Rightarrow> 'a list option" where
  "clear_bytes P n g = do {
     g \<leftarrow> ofold (\<lambda>i g. wr g (int i) 0) [0..<n div 4] g;
     if n mod 4 = 0 then Some g
     else do {
       v \<leftarrow> rd g (int (n div 4));
       wr g (int (n div 4)) (f_of_bits P (push_bit (8 * (n mod 4)) (drop_bit (8 * (n mod 4)) (f_bits P v))))
     }
   }"

definition interp_band_gain ::
  "'a fops \<Rightarrow> 'a::{zero,one,plus,minus,times,inverse} list \<Rightarrow> 'a list \<Rightarrow> 'a list option" where
  "interp_band_gain P g bandE = do {
     g \<leftarrow> clear_bytes P FREQ_SIZE g;
     g \<leftarrow> ofold (\<lambda>i g. do {
         lo \<leftarrow> rd eband20ms (int i);
         hi \<leftarrow> rd eband20ms (int (i + 1));
         let band_size = hi - lo;
         ofold (\<lambda>j g. do {
           let frac = f_of_int P (int j) / f_of_int P (int band_size);
           a \<leftarrow> rd bandE (int i - 1);
           b \<leftarrow> rd bandE (int i);
           wr g (int (lo + j)) ((1 - frac) * a + frac * b)
         }) [0..<band_size] g
       }) [1..<NB_BANDS] g;
     e1 \<leftarrow> rd eband20ms 1;
     b0 \<leftarrow> rd bandE 0;
     g \<leftarrow> ofold (\<lambda>j g. wr g (int j) b0) [0..<e1] g;
     lo \<leftarrow> rd eband20ms (int NB_BANDS);
     hi \<leftarrow> rd eband20ms (int (NB_BANDS + 1));
     b1 \<leftarrow> rd bandE (int (NB_BANDS - 1));
     ofold (\<lambda>j g. wr g (int j) b1) [lo..<hi] g
   }"

text \<open>\<open>dct\<close>, writing from the cell \<open>pos\<close> of its output on.\<close>

definition dct ::
  "'a denoise_env \<Rightarrow> 'a::{zero,one,plus,times,inverse,scaleR} list \<Rightarrow> nat \<Rightarrow> 'a list \<Rightarrow> 'a list option" where
  "dct E out pos xs = ofold (\<lambda>i out. do {
     s \<leftarrow> ofold (\<lambda>j s. do {
         x \<leftarrow> rd xs (int j);
         c \<leftarrow> rd (e_dct E) (int (j * NB_BANDS + i));
         Some (s + x * c)
       }) [0..<NB_BANDS] 0;
     wr out (int (pos + i)) (s * c_sqrt (e_libm E) (lit 2 / lit 22))
   }) [0..<NB_BANDS] out"

section \<open>Transforms and window\<close>

definition forward_transform ::
  "'a fft_state \<Rightarrow> 'a::{zero,one,plus,minus,uminus,times,scaleR} list \<Rightarrow> 'a cpx list option" where
  "forward_transform K xs = do {
     x \<leftarrow> ofold (\<lambda>i x. do { v \<leftarrow> rd xs (int i); wr x (int i) \<lparr>cr = v, ci = 0\<rparr> }) [0..<WINDOW_SIZE]
       (replicate WINDOW_SIZE \<lparr>cr = 0, ci = 0\<rparr>);
     y \<leftarrow> rnn_fft_c K x (replicate WINDOW_SIZE \<lparr>cr = 0, ci = 0\<rparr>);
     ofold (\<lambda>i out. do { v \<leftarrow> rd y (int i); wr out (int i) v }) [0..<FREQ_SIZE] (replicate FREQ_SIZE \<lparr>cr = 0, ci = 0\<rparr>)
   }"

definition inverse_transform ::
  "'a fops \<Rightarrow> 'a fft_state \<Rightarrow> 'a::{zero,one,plus,minus,uminus,times,scaleR} cpx list \<Rightarrow> 'a list option" where
  "inverse_transform P K xs = do {
     x \<leftarrow> ofold (\<lambda>i x. do { v \<leftarrow> rd xs (int i); wr x (int i) v }) [0..<FREQ_SIZE]
       (replicate WINDOW_SIZE \<lparr>cr = 0, ci = 0\<rparr>);
     x \<leftarrow> ofold (\<lambda>i x. do { v \<leftarrow> rd x (int (WINDOW_SIZE - i)); wr x (int i) \<lparr>cr = cr v, ci = - ci v\<rparr> })
       [FREQ_SIZE..<WINDOW_SIZE] x;
     y \<leftarrow> rnn_fft_c K x (replicate WINDOW_SIZE \<lparr>cr = 0, ci = 0\<rparr>);
     y0 \<leftarrow> rd y 0;
     out \<leftarrow> wr (replicate WINDOW_SIZE 0) 0 (f_of_int P (int WINDOW_SIZE) * cr y0);
     ofold (\<lambda>i out. do { v \<leftarrow> rd y (int (WINDOW_SIZE - i)); wr out (int i) (f_of_int P (int WINDOW_SIZE) * cr v) })
       [1..<WINDOW_SIZE] out
   }"

definition apply_window :: "'a::{one,times,scaleR} list \<Rightarrow> 'a list option" where
  "apply_window x = ofold (\<lambda>i x. do {
     w \<leftarrow> rd rnn_half_window (int i);
     a \<leftarrow> rd x (int i);
     x \<leftarrow> wr x (int i) (a * w);
     b \<leftarrow> rd x (int WINDOW_SIZE - 1 - int i);
     wr x (int WINDOW_SIZE - 1 - int i) (b * w)
   }) [0..<FRAME_SIZE] x"

section \<open>Models\<close>

text \<open>\<open>model_file\<close> is \<open>None\<close> as long as the field is not set, else the pointer it holds.\<close>

record RNNModel =
  const_blob :: "byte list option"
  blob :: "byte list option"
  blob_len :: int
  model_file :: "nat option option"

definition rnnoise_model_from_buffer :: "byte list \<Rightarrow> int \<Rightarrow> RNNModel" where
  "rnnoise_model_from_buffer ptr len = \<lparr>const_blob = Some ptr, blob = None, blob_len = len, model_file = None\<rparr>"

text \<open>
  The value of \<open>rnnoise_model_free\<close> is the list of what it closes and frees; it reads \<open>model_file\<close>.
\<close>

datatype release = Fclose nat | FreeBlob | FreeModel

definition rnnoise_model_free :: "RNNModel \<Rightarrow> release list option" where
  "rnnoise_model_free model = do {
     f \<leftarrow> model_file model;
     Some ((case f of Some h \<Rightarrow> [Fclose h] | None \<Rightarrow> []) @ (if blob model \<noteq> None then [FreeBlob] else []) @ [FreeModel])
   }"

text \<open>
  A file is its handle, its bytes and how many of them \<open>fread\<close> delivers; \<open>fread\<close> of one item returns 1
  when it has them all and there is at least one. The result is \<open>None\<close> for a null \<open>f\<close> (undefined), else
  the pointer returned and what was released.
\<close>

definition rnnoise_model_from_file ::
  "(nat \<times> byte list \<times> nat) option \<Rightarrow> (RNNModel option \<times> release list) option" where
  "rnnoise_model_from_file f = do {
     (h, bytes, got) \<leftarrow> f;
     let model = \<lparr>const_blob = None, blob = Some bytes, blob_len = int (length bytes), model_file = Some None\<rparr>;
     if \<not> (0 < length bytes \<and> length bytes \<le> got) then do { r \<leftarrow> rnnoise_model_free model; Some (None, r) }
     else Some (Some model, [])
   }"

definition rnnoise_model_from_filename :: "(nat \<times> byte list \<times> nat) option \<Rightarrow> RNNModel option" where
  "rnnoise_model_from_filename f = do {
     (model, r) \<leftarrow> rnnoise_model_from_file f;
     m \<leftarrow> model;
     Some (m\<lparr>model_file := Some (map_option fst f)\<rparr>)
   }"

section \<open>Life cycle\<close>

text \<open>The layers of a model cleared by \<open>memset\<close>.\<close>

definition null_layer :: "'a layer" where
  "null_layer = \<lparr>ly_bias = None, ly_weights = None, ly_float_weights = None, ly_idx = None, ly_diag = None,
     ly_scale = None, ly_inputs = 0, ly_outputs = 0\<rparr>"

definition null_model :: "'a RNNoise" where
  "null_model = \<lparr>conv1 = null_layer, conv2 = null_layer, gru1_input = null_layer, gru1_recurrent = null_layer,
     gru2_input = null_layer, gru2_recurrent = null_layer, gru3_input = null_layer, gru3_recurrent = null_layer,
     dense_out = null_layer, vad_dense = null_layer\<rparr>"

definition zero_state :: "'a::zero DenoiseState" where
  "zero_state = \<lparr>st_model = null_model, analysis_mem = replicate FRAME_SIZE 0, memid = 0,
     synthesis_mem = replicate FRAME_SIZE 0, pitch_buf = replicate PITCH_BUF_SIZE 0,
     pitch_enh_buf = replicate PITCH_BUF_SIZE 0, last_gain = 0, last_period = 0, mem_hp_x = replicate 2 0,
     lastg = replicate NB_BANDS 0,
     st_rnn = \<lparr>conv1_state = replicate CONV1_STATE_SIZE 0, conv2_state = replicate CONV2_STATE_SIZE 0,
       gru1_state = replicate GRU_STATE_SIZE 0, gru2_state = replicate GRU_STATE_SIZE 0,
       gru3_state = replicate GRU_STATE_SIZE 0\<rparr>,
     delayed_X = replicate FREQ_SIZE \<lparr>cr = 0, ci = 0\<rparr>, delayed_P = replicate FREQ_SIZE \<lparr>cr = 0, ci = 0\<rparr>,
     delayed_Ex = replicate NB_BANDS 0, delayed_Ep = replicate NB_BANDS 0, delayed_Exp = replicate NB_BANDS 0,
     strength = 0\<rparr>"

definition rnnoise_init ::
  "'a denoise_env \<Rightarrow> RNNModel option \<Rightarrow> (int \<times> 'a::{zero,one,scaleR} DenoiseState) option" where
  "rnnoise_init E model =
     (let st = zero_state\<lparr>strength := lit 0.6\<rparr>
      in case model of
           Some m \<Rightarrow> do {
             bytes \<leftarrow> (if blob m \<noteq> None then blob m else const_blob m);
             parsed \<leftarrow> parse_weights bytes (blob_len m);
             (case parsed of
                None \<Rightarrow> Some (-1, st)
              | Some (n, arrs) \<Rightarrow>
                  (let (ret, mdl) = e_init_rnnoise E arrs; st = st\<lparr>st_model := mdl\<rparr>
                   in if ret \<noteq> 0 then Some (-1, st) else Some (0, st)))
           }
         | None \<Rightarrow>
             (let (ret, mdl) = e_init_rnnoise E (e_arrays E); st = st\<lparr>st_model := mdl\<rparr>
              in if ret \<noteq> 0 then Some (-1, st) else Some (0, st)))"

text \<open>The allocation of the state succeeds or not; the state is then cleared through the pointer.\<close>

definition rnnoise_create ::
  "'a denoise_env \<Rightarrow> bool \<Rightarrow> RNNModel option \<Rightarrow> 'a::{zero,one,scaleR} DenoiseState option option" where
  "rnnoise_create E alloc_ok model =
     (if \<not> alloc_ok then None
      else do {
        (ret, st) \<leftarrow> rnnoise_init E model;
        if ret \<noteq> 0 then Some None else Some (Some st)
      })"

definition rnnoise_reset ::
  "'a denoise_env \<Rightarrow> 'a::{zero,one,scaleR} DenoiseState option \<Rightarrow> 'a DenoiseState option option" where
  "rnnoise_reset E st = (case st of None \<Rightarrow> Some None
     | Some st \<Rightarrow> do {
         let old = strength st;
         (ret, st) \<leftarrow> rnnoise_init E None;
         Some (Some (st\<lparr>strength := old\<rparr>))
       })"

definition rnnoise_set_strength ::
  "'a::{one,ord,scaleR} DenoiseState \<Rightarrow> 'a \<Rightarrow> 'a DenoiseState" where
  "rnnoise_set_strength st v =
     (let v = (if v < lit 0.3 then lit 0.3 else v);
          v = (if lit 0.95 < v then lit 0.95 else v)
      in st\<lparr>strength := v\<rparr>)"

definition rnnoise_get_frame_size :: nat where "rnnoise_get_frame_size = FRAME_SIZE"

section \<open>A frame\<close>

definition rnn_frame_analysis ::
  "'a denoise_env \<Rightarrow> 'a::{zero,one,plus,minus,uminus,times,inverse,scaleR} DenoiseState \<Rightarrow> 'a list \<Rightarrow>
   ('a DenoiseState \<times> 'a cpx list \<times> 'a list) option" where
  "rnn_frame_analysis E st inp = do {
     x \<leftarrow> ofold (\<lambda>i x. do { v \<leftarrow> rd (analysis_mem st) (int i); wr x (int i) v }) [0..<FRAME_SIZE] (replicate WINDOW_SIZE 0);
     x \<leftarrow> ofold (\<lambda>i x. do { v \<leftarrow> rd inp (int i); wr x (int (FRAME_SIZE + i)) v }) [0..<FRAME_SIZE] x;
     am \<leftarrow> ofold (\<lambda>i am. do { v \<leftarrow> rd inp (int i); wr am (int i) v }) [0..<FRAME_SIZE] (analysis_mem st);
     x \<leftarrow> apply_window x;
     X \<leftarrow> forward_transform (e_kfft E) x;
     Ebx \<leftarrow> compute_band_energy (e_ops E) X;
     Some (st\<lparr>analysis_mem := am\<rparr>, X, Ebx)
   }"

text \<open>The move of the pitch buffer by one frame, and the new frame at its end.\<close>

definition shift_pitch_buf :: "'a list \<Rightarrow> 'a list \<Rightarrow> 'a list option" where
  "shift_pitch_buf buf inp = do {
     moved \<leftarrow> ofold (\<lambda>i b. do { v \<leftarrow> rd buf (int (FRAME_SIZE + i)); wr b (int i) v }) [0..<PITCH_BUF_SIZE - FRAME_SIZE] buf;
     ofold (\<lambda>i b. do { v \<leftarrow> rd inp (int i); wr b (int (PITCH_BUF_SIZE - FRAME_SIZE + i)) v }) [0..<FRAME_SIZE] moved
   }"

text \<open>The energies in decibels, limited from below by their surroundings, and the sum of the energies.\<close>

definition log_energies ::
  "'a libm \<Rightarrow> 'a::{zero,one,plus,minus,uminus,inverse,ord,scaleR} list \<Rightarrow> ('a list \<times> 'a) option" where
  "log_energies m Ebx = do {
     (Ly, logMax, follow, en) \<leftarrow> ofold (\<lambda>i (Ly, logMax, follow, en). do {
         e \<leftarrow> rd Ebx (int i);
         let v = c_log10 m (lit 0.01 + e);
         let v = MAX16 (logMax - lit 7) (MAX16 (follow - lit 1.5) v);
         Ly \<leftarrow> wr Ly (int i) v;
         Some (Ly, MAX16 logMax v, MAX16 (follow - lit 1.5) v, en + e)
       }) [0..<NB_BANDS] (replicate NB_BANDS 0, - lit 2, - lit 2, 0);
     Some (Ly, en)
   }"

definition rnn_compute_frame_features ::
  "'a denoise_env \<Rightarrow> 'a::{zero,one,plus,minus,uminus,times,inverse,ord,scaleR} DenoiseState \<Rightarrow> 'a list \<Rightarrow>
   ('a DenoiseState \<times> 'a cpx list \<times> 'a cpx list \<times> 'a list \<times> 'a list \<times> 'a list \<times> 'a list \<times> int) option" where
  "rnn_compute_frame_features E st inp = do {
     (st, X, Ebx) \<leftarrow> rnn_frame_analysis E st inp;
     buf \<leftarrow> shift_pitch_buf (pitch_buf st) inp;
     let st = st\<lparr>pitch_buf := buf\<rparr>;
     lp \<leftarrow> rnn_pitch_downsample [buf] (replicate (PITCH_BUF_SIZE div 2) 0) PITCH_BUF_SIZE 1;
     pitch_index \<leftarrow> rnn_pitch_search lp (int (PITCH_MAX_PERIOD div 2)) lp PITCH_FRAME_SIZE
       (PITCH_MAX_PERIOD - 3 * PITCH_MIN_PERIOD);
     let pitch_index = int PITCH_MAX_PERIOD - pitch_index;
     (gain, pitch_index) \<leftarrow> rnn_remove_doubling (e_libm E) lp PITCH_MAX_PERIOD PITCH_MIN_PERIOD PITCH_FRAME_SIZE
       pitch_index (last_period st) (last_gain st);
     let st = st\<lparr>last_period := pitch_index, last_gain := gain\<rparr>;
     p \<leftarrow> ofold (\<lambda>i p. do {
         v \<leftarrow> rd buf (int PITCH_BUF_SIZE - int WINDOW_SIZE - pitch_index + int i);
         wr p (int i) v
       }) [0..<WINDOW_SIZE] (replicate WINDOW_SIZE 0);
     p \<leftarrow> apply_window p;
     P \<leftarrow> forward_transform (e_kfft E) p;
     Ebp \<leftarrow> compute_band_energy (e_ops E) P;
     Ebxp \<leftarrow> compute_band_corr (e_ops E) X P;
     Ebxp \<leftarrow> ofold (\<lambda>i Ebxp. do {
         v \<leftarrow> rd Ebxp (int i);
         ex \<leftarrow> rd Ebx (int i);
         ep \<leftarrow> rd Ebp (int i);
         wr Ebxp (int i) (v / c_sqrt (e_libm E) (lit 0.001 + ex * ep))
       }) [0..<NB_BANDS] Ebxp;
     features \<leftarrow> dct E (replicate NB_FEATURES 0) NB_BANDS Ebxp;
     features \<leftarrow> wr features (int (2 * NB_BANDS)) (lit 0.01 * f_of_int (e_ops E) (pitch_index - 300));
     (Ly, en) \<leftarrow> log_energies (e_libm E) Ebx;
     if en < lit 0.04 then Some (st, X, P, Ebx, Ebp, Ebxp, replicate NB_FEATURES 0, 1)
     else do {
       features \<leftarrow> dct E features 0 Ly;
       f0 \<leftarrow> rd features 0;
       features \<leftarrow> wr features 0 (f0 - lit 12);
       f1 \<leftarrow> rd features 1;
       features \<leftarrow> wr features 1 (f1 - lit 4);
       Some (st, X, P, Ebx, Ebp, Ebxp, features, 0)
     }
   }"

definition frame_synthesis ::
  "'a denoise_env \<Rightarrow> 'a::{zero,one,plus,minus,uminus,times,scaleR} DenoiseState \<Rightarrow> 'a cpx list \<Rightarrow>
   ('a DenoiseState \<times> 'a list) option" where
  "frame_synthesis E st y = do {
     x \<leftarrow> inverse_transform (e_ops E) (e_kfft E) y;
     x \<leftarrow> apply_window x;
     out \<leftarrow> ofold (\<lambda>i out. do {
         a \<leftarrow> rd x (int i);
         b \<leftarrow> rd (synthesis_mem st) (int i);
         wr out (int i) (a + b)
       }) [0..<FRAME_SIZE] (replicate FRAME_SIZE 0);
     sm \<leftarrow> ofold (\<lambda>i sm. do { v \<leftarrow> rd x (int (FRAME_SIZE + i)); wr sm (int i) v }) [0..<FRAME_SIZE] (synthesis_mem st);
     Some (st\<lparr>synthesis_mem := sm\<rparr>, out)
   }"

definition rnn_biquad ::
  "'a::{zero,plus,minus,times} list \<Rightarrow> 'a list \<Rightarrow> 'a list \<Rightarrow> 'a list \<Rightarrow> nat \<Rightarrow> ('a list \<times> 'a list) option" where
  "rnn_biquad mem xs b a N = ofold (\<lambda>i (y, mem). do {
     xi \<leftarrow> rd xs (int i);
     m0 \<leftarrow> rd mem 0;
     let yi = xi + m0;
     m1 \<leftarrow> rd mem 1;
     b0 \<leftarrow> rd b 0;
     a0 \<leftarrow> rd a 0;
     mem \<leftarrow> wr mem 0 (m1 + (b0 * xi - a0 * yi));
     b1 \<leftarrow> rd b 1;
     a1 \<leftarrow> rd a 1;
     mem \<leftarrow> wr mem 1 (b1 * xi - a1 * yi);
     y \<leftarrow> wr y (int i) yi;
     Some (y, mem)
   }) [0..<N] (replicate N 0, mem)"

text \<open>The multiplication of each bin by its gain, in place.\<close>

definition scale_bins :: "'a::times list \<Rightarrow> 'a cpx list \<Rightarrow> 'a cpx list option" where
  "scale_bins gf X = ofold (\<lambda>i X. do {
     x \<leftarrow> rd X (int i);
     g \<leftarrow> rd gf (int i);
     wr X (int i) \<lparr>cr = cr x * g, ci = ci x * g\<rparr>
   }) [0..<FREQ_SIZE] X"

definition rnn_pitch_filter ::
  "'a denoise_env \<Rightarrow> 'a::{zero,one,plus,minus,times,inverse,ord,scaleR} cpx list \<Rightarrow> 'a cpx list \<Rightarrow> 'a list \<Rightarrow> 'a list \<Rightarrow>
   'a list \<Rightarrow> 'a list \<Rightarrow> 'a cpx list option" where
  "rnn_pitch_filter E X P Ebx Ebp Ebxp g = do {
     let sq = c_sqrt (e_libm E);
     r \<leftarrow> ofold (\<lambda>i r. do {
         xp \<leftarrow> rd Ebxp (int i);
         gi \<leftarrow> rd g (int i);
         let ri = (if gi < xp then 1
           else SQUARE xp * (1 - SQUARE gi) / (lit 0.001 + SQUARE gi * (1 - SQUARE xp)));
         let ri = sq (MIN16 1 (MAX16 0 ri));
         ex \<leftarrow> rd Ebx (int i);
         ep \<leftarrow> rd Ebp (int i);
         wr r (int i) (ri * sq (ex / (lit 0.00000001 + ep)))
       }) [0..<NB_BANDS] (replicate NB_BANDS 0);
     rf \<leftarrow> interp_band_gain (e_ops E) (replicate FREQ_SIZE 0) r;
     X \<leftarrow> ofold (\<lambda>i X. do {
         x \<leftarrow> rd X (int i);
         f \<leftarrow> rd rf (int i);
         p \<leftarrow> rd P (int i);
         wr X (int i) \<lparr>cr = cr x + f * cr p, ci = ci x + f * ci p\<rparr>
       }) [0..<FREQ_SIZE] X;
     newE \<leftarrow> compute_band_energy (e_ops E) X;
     norm \<leftarrow> ofold (\<lambda>i norm. do {
         ex \<leftarrow> rd Ebx (int i);
         ne \<leftarrow> rd newE (int i);
         wr norm (int i) (sq (ex / (lit 0.00000001 + ne)))
       }) [0..<NB_BANDS] (replicate NB_BANDS 0);
     normf \<leftarrow> interp_band_gain (e_ops E) (replicate FREQ_SIZE 0) norm;
     scale_bins normf X
   }"

text \<open>The gains held from falling faster than \<open>strength\<close> allows.\<close>

definition smooth_gains :: "'a::{times,ord} \<Rightarrow> 'a list \<Rightarrow> 'a list \<Rightarrow> ('a list \<times> 'a list) option" where
  "smooth_gains alpha g lg = ofold (\<lambda>i (g, lg). do {
     gi \<leftarrow> rd g (int i);
     li \<leftarrow> rd lg (int i);
     let v = MAX16 gi (alpha * li);
     g \<leftarrow> wr g (int i) v;
     lg \<leftarrow> wr lg (int i) v;
     Some (g, lg)
   }) [0..<NB_BANDS] (g, lg)"

definition rnnoise_process_frame ::
  "'a denoise_env \<Rightarrow> 'a::{zero,one,plus,minus,uminus,times,inverse,ord,scaleR} DenoiseState \<Rightarrow> 'a list \<Rightarrow>
   ('a DenoiseState \<times> 'a list \<times> 'a) option" where
  "rnnoise_process_frame E st inp = do {
     (x, hp) \<leftarrow> rnn_biquad (mem_hp_x st) inp [- lit 2, 1] [- lit 1.99599, lit 0.99600] FRAME_SIZE;
     let st = st\<lparr>mem_hp_x := hp\<rparr>;
     (st, X, P, Ebx, Ebp, Ebxp, features, silence) \<leftarrow> rnn_compute_frame_features E st x;
     (st, vad_prob) \<leftarrow>
       (if silence = 0 then do {
          (g, vad, rnn') \<leftarrow> compute_rnn (e_ops E) (st_model st) (st_rnn st) features;
          vad_prob \<leftarrow> rd vad 0;
          dX \<leftarrow> rnn_pitch_filter E (delayed_X st) (delayed_P st) (delayed_Ex st) (delayed_Ep st) (delayed_Exp st) g;
          (g, lg) \<leftarrow> smooth_gains (strength st) g (lastg st);
          gf \<leftarrow> interp_band_gain (e_ops E) (1 # replicate (FREQ_SIZE - 1) 0) g;
          dX \<leftarrow> scale_bins gf dX;
          Some (st\<lparr>st_rnn := rnn', delayed_X := dX, lastg := lg\<rparr>, vad_prob)
        } else Some (st, 0));
     (st, out) \<leftarrow> frame_synthesis E st (delayed_X st);
     Some (st\<lparr>delayed_X := X, delayed_P := P, delayed_Ex := Ebx, delayed_Ep := Ebp, delayed_Exp := Ebxp\<rparr>, out, vad_prob)
   }"

end
