(* ===== verification/Dsp_Pipeline.thy ===== *)
theory Dsp_Pipeline
  imports App_State Dsp_Biquad Dpdfnet_Processor Rnn_Denoise
begin

text \<open>
  \<open>src/dsp/pipeline.h\<close>: \<open>DspPipeline\<close>, which takes each block of 480 samples through one of the two denoisers,
  the equaliser, the compressor and the limiter, and which falls back to RNNoise when the DPDFNet worker
  fails or produces nothing.

  An operation maps the pipeline and the shared state to themselves; it is \<open>None\<close> where a function it calls is
  undefined. Each load of an atomic is the value the shared state has when the operation starts: the render
  thread reads each setting once. The worker of \<open>Dpdfnet_Processor\<close> goes on while \<open>process\<close> runs; how many
  steps it makes at the two places where that can be seen is an argument. Log lines are left out, except
  that \<open>process\<close> also tells where its samples came from (\<open>block_source\<close>), on which nothing depends.
\<close>

section \<open>State\<close>

record 'a pipe_env =
  pe_denoise :: "'a denoise_env"
  pe_sherpa :: "'a sherpa"
  pe_math :: "'a fmath"
  pe_load :: load_env

definition DPDFNET_WARMUP_UNDERFLOW_BLOCKS :: u32 where "DPDFNET_WARMUP_UNDERFLOW_BLOCKS = 4"
definition DPDFNET_STEADY_UNDERFLOW_BLOCKS :: u32 where "DPDFNET_STEADY_UNDERFLOW_BLOCKS = 3"

record 'a CompState =
  rmsState :: 'a
  envDb :: 'a

record 'a pipeline =
  m_rnnoise :: "'a DenoiseState option"
  m_dpdfnet :: "'a impl"
  m_runtimeDirectory :: string
  m_modelPath :: string
  m_sampleRate :: 'a
  m_rnnoiseStrength :: 'a
  m_nrActive :: bool
  m_eqActive :: bool
  m_lastPresence :: 'a
  m_lastBassCut :: 'a
  m_compActive :: bool
  m_lastConfiguredCompActive :: bool
  m_lastRequestedBackend :: int
  m_seenGlobalEpoch :: u64
  m_streamEpoch :: u64
  m_activeBackend :: DenoiseBackendKind
  m_dpdfnetSeenOutput :: bool
  m_consecutiveDpdfnetUnderflows :: u32
  m_dpdfnetDegraded :: bool
  m_loggedFallbackSize :: bool
  m_bq :: "'a Biquad list"
  m_comp :: "'a CompState"
  m_limiterGain :: 'a

definition pipeline_new :: "'a::{zero,one,uminus,scaleR} pipeline" where
  "pipeline_new = \<lparr>m_rnnoise = None, m_dpdfnet = impl_new, m_runtimeDirectory = '''', m_modelPath = '''',
     m_sampleRate = lit 48000, m_rnnoiseStrength = lit 0.6, m_nrActive = True, m_eqActive = True,
     m_lastPresence = lit 3, m_lastBassCut = - lit 3, m_compActive = True, m_lastConfiguredCompActive = True,
     m_lastRequestedBackend = - 1, m_seenGlobalEpoch = 0, m_streamEpoch = 1, m_activeBackend = Rnnoise,
     m_dpdfnetSeenOutput = False, m_consecutiveDpdfnetUnderflows = 0, m_dpdfnetDegraded = False,
     m_loggedFallbackSize = False, m_bq = replicate 6 biquad_new, m_comp = \<lparr>rmsState = 0, envDb = 0\<rparr>,
     m_limiterGain = 1\<rparr>"

section \<open>Loading and releasing DPDFNet\<close>

definition setDpdfnetLoadState :: "DpdfnetLoadState \<Rightarrow> 'a AppState \<Rightarrow> 'a AppState" where
  "setDpdfnetLoadState st g = g\<lparr>g_dpdfnetLoadState := load_int st, g_dpdfnetAvailable := (st = Ready)\<rparr>"

definition loadDpdfnetNow ::
  "'a::zero pipe_env \<Rightarrow> int \<Rightarrow> 'a pipeline \<times> 'a AppState \<Rightarrow> 'a pipeline \<times> 'a AppState" where
  "loadDpdfnetNow E rate = (\<lambda>(p, g).
     (let g = setDpdfnetLoadState Loading g;
          (ok, err, d) = prepare (pe_sherpa E) (pe_load E) (m_runtimeDirectory p) (m_modelPath p) rate 480 (m_dpdfnet p);
          p = p\<lparr>m_dpdfnet := d\<rparr>
      in if ok then (p, setDpdfnetLoadState Ready g) else (p, setDpdfnetLoadState Failed g)))"

definition loadDpdfnetIfNeeded ::
  "'a::zero pipe_env \<Rightarrow> int \<Rightarrow> 'a pipeline \<times> 'a AppState \<Rightarrow> 'a pipeline \<times> 'a AppState" where
  "loadDpdfnetIfNeeded E rate = (\<lambda>(p, g).
     if m_runtimeDirectory p = '''' then (p, g)
     else if isReady (m_dpdfnet p) then (p, g)
     else loadDpdfnetNow E rate (p, g))"

definition releaseDpdfnet ::
  "'a::zero pipe_env \<Rightarrow> nat \<Rightarrow> 'a pipeline \<times> 'a AppState \<Rightarrow> 'a pipeline \<times> 'a AppState" where
  "releaseDpdfnet E n = (\<lambda>(p, g).
     if g_dpdfnetLoadState g = load_int NotLoaded then (p, g)
     else let p = p\<lparr>m_dpdfnet := releaseSession (pe_sherpa E) n (m_dpdfnet p)\<rparr>
          in if workerAbandoned (m_dpdfnet p) then (p, setDpdfnetLoadState Failed g)
             else (p, setDpdfnetLoadState NotLoaded g))"

section \<open>The stages after the denoiser\<close>

definition configureEq ::
  "'a fmath \<Rightarrow> 'a::{zero,one,plus,minus,uminus,times,inverse,scaleR} pipeline \<Rightarrow> 'a pipeline" where
  "configureEq M p =
     (let sr = m_sampleRate p; bass = m_lastBassCut p; pres = m_lastPresence p;
          bq = m_bq p;
          bq = (if m_eqActive p then
                  [setHPF M (lit 80) (lit 0.707) sr (bq ! 0),
                   setLowShelf M (lit 120) bass (lit 0.7) sr (bq ! 1),
                   setPeak M (lit 250) (bass * lit 0.5) (lit 0.6) sr (bq ! 2),
                   setPeak M (lit 2500) pres (lit 0.8) sr (bq ! 3),
                   setPeak M (lit 3200) (pres * lit 0.6) (lit 0.7) sr (bq ! 4),
                   setHighShelf M (lit 8000) (pres * lit 0.25) (lit 0.7) sr (bq ! 5)]
                else bq)
      in p\<lparr>m_bq := map bq_reset bq\<rparr>)"

definition updateSettings ::
  "'a fmath \<Rightarrow> 'a \<Rightarrow> 'a AppState \<Rightarrow> 'a::{zero,one,plus,minus,uminus,times,inverse,scaleR} pipeline \<Rightarrow> 'a pipeline" where
  "updateSettings M sr g p =
     (let p = configureEq M (p\<lparr>m_sampleRate := sr, m_eqActive := g_eqEnabled g, m_lastPresence := g_eqPresence g,
                m_lastBassCut := g_eqBassCut g, m_compActive := g_compressorEnabled g\<rparr>)
      in if m_compActive p \<noteq> m_lastConfiguredCompActive p then
           p\<lparr>m_comp := \<lparr>rmsState = 0, envDb = 0\<rparr>, m_lastConfiguredCompActive := m_compActive p\<rparr>
         else p)"

definition resetPostDenoiseState :: "'a::{zero,one} pipeline \<Rightarrow> 'a pipeline" where
  "resetPostDenoiseState p =
     p\<lparr>m_bq := map bq_reset (m_bq p), m_comp := \<lparr>rmsState = 0, envDb = 0\<rparr>, m_limiterGain := 1\<rparr>"

text \<open>A sample through all sections.\<close>

fun eq_chain :: "'a::{plus,minus,times} \<Rightarrow> 'a Biquad list \<Rightarrow> 'a \<times> 'a Biquad list" where
  "eq_chain x [] = (x, [])"
| "eq_chain x (bq # bqs) = (let (y, bq') = bq_process x bq; (z, bqs') = eq_chain y bqs in (z, bq' # bqs'))"

text \<open>A loop over the samples of a block, in place, that carries a state.\<close>

fun each_sample :: "('a \<Rightarrow> 's \<Rightarrow> 'a \<times> 's) \<Rightarrow> 'a list \<Rightarrow> 's \<Rightarrow> 'a list \<times> 's" where
  "each_sample f [] s = ([], s)"
| "each_sample f (x # xs) s = (let (y, s') = f x s; (ys, s'') = each_sample f xs s' in (y # ys, s''))"

definition fabs :: "'a::{zero,uminus,ord} \<Rightarrow> 'a" where
  "fabs x = (if x < 0 then - x else x)"

definition compress_sample ::
  "'a fmath \<Rightarrow> 'a \<Rightarrow> 'a \<Rightarrow> 'a::{zero,one,plus,minus,uminus,times,inverse,ord,scaleR} CompState \<Rightarrow> 'a \<times> 'a CompState" where
  "compress_sample M rmsCoeff x c =
     (let thresholdDb = - lit 18; ratio = lit 3; kneeDb = lit 6; attackMs = lit 5; releaseMs = lit 50; makeupDb = lit 5;
          attCoeff = expf M (- 1 / (lit 0.001 * attackMs * lit 48000));
          relCoeff = expf M (- 1 / (lit 0.001 * releaseMs * lit 48000));
          kneeHalf = kneeDb * lit 0.5;
          slope = 1 - 1 / ratio;
          makeupGain = powf M (lit 10) (makeupDb / lit 20);
          x2 = x * x;
          rms = rmsState c + rmsCoeff * (x2 - rmsState c);
          rmsDb = lit 10 * log10f M (rms + lit 0.0000000001);
          overDb = rmsDb - thresholdDb;
          targetDb = (if overDb \<le> - kneeHalf then 0
            else if kneeHalf \<le> overDb then - (overDb - kneeHalf) * slope
            else let t = (overDb + kneeHalf) / kneeDb in - t * t * kneeHalf * slope);
          coeff = (if targetDb < envDb c then attCoeff else relCoeff);
          env = envDb c + coeff * (targetDb - envDb c)
      in (x * makeupGain * powf M (lit 10) (env / lit 20), \<lparr>rmsState = rms, envDb = env\<rparr>))"

definition processCompressor ::
  "'a fops \<Rightarrow> 'a fmath \<Rightarrow> 'a list \<Rightarrow> 'a::{zero,one,plus,minus,uminus,times,inverse,ord,scaleR} CompState \<Rightarrow> 'a list \<times> 'a CompState" where
  "processCompressor P M smp c =
     (let rmsCoeff = expf M (- 1 / (lit 0.001 * lit 10 * lit 48000 / f_of_int P (int (length smp))))
      in each_sample (compress_sample M rmsCoeff) smp c)"

definition limit_sample :: "'a \<Rightarrow> 'a::{zero,one,plus,minus,uminus,times,inverse,ord,scaleR} \<Rightarrow> 'a \<times> 'a" where
  "limit_sample x gain =
     (let ceiling = lit 0.89125094; releaseCoeff = lit 0.995; absX = fabs x;
          gain = (if ceiling < absX * gain
                  then (let c = ceiling / (absX + lit 0.0000000001) in if c < gain then c else gain)
                  else gain + (1 - gain) * (1 - releaseCoeff))
      in (x * gain, gain))"

definition processLimiter ::
  "'a list \<Rightarrow> 'a::{zero,one,plus,minus,uminus,times,inverse,ord,scaleR} \<Rightarrow> 'a list \<times> 'a" where
  "processLimiter smp gain = each_sample limit_sample smp gain"

definition processPostDenoise ::
  "'a pipe_env \<Rightarrow> 'a AppState \<Rightarrow> 'a list \<Rightarrow> 'a::{zero,one,plus,minus,uminus,times,inverse,ord,scaleR} pipeline \<Rightarrow>
   'a list \<times> 'a pipeline" where
  "processPostDenoise E g smp p =
     (let (smp, p) = (if g_eqEnabled g then let (smp, bq) = each_sample eq_chain smp (m_bq p) in (smp, p\<lparr>m_bq := bq\<rparr>)
                      else (smp, p));
          (smp, p) = (if g_compressorEnabled g then
                        let (smp, c) = processCompressor (e_ops (pe_denoise E)) (pe_math E) smp (m_comp p) in (smp, p\<lparr>m_comp := c\<rparr>)
                      else (smp, p));
          (smp, gain) = processLimiter smp (m_limiterGain p)
      in (smp, p\<lparr>m_limiterGain := gain\<rparr>))"

section \<open>Choosing the denoiser\<close>

definition chooseEffectiveBackend :: "'a pipeline \<Rightarrow> int \<Rightarrow> DenoiseBackendKind" where
  "chooseEffectiveBackend p requested =
     (if requested = backend_int Dpdfnet \<and> isReady (m_dpdfnet p) \<and> \<not> m_dpdfnetDegraded p then Dpdfnet else Rnnoise)"

definition processRnnoise ::
  "'a pipe_env \<Rightarrow> 'a list \<Rightarrow> 'a::{zero,one,plus,minus,uminus,times,inverse,ord,scaleR} pipeline \<Rightarrow> ('a list \<times> 'a pipeline) option" where
  "processRnnoise E smp p = (case m_rnnoise p of
     None \<Rightarrow> Some (smp, p)
   | Some st \<Rightarrow> do {
       (st, out, vad) \<leftarrow> rnnoise_process_frame (pe_denoise E) st smp;
       Some (out, p\<lparr>m_rnnoise := Some st\<rparr>)
     })"

definition recordDpdfnetUnderflow :: "'a pipeline \<Rightarrow> bool \<times> 'a pipeline" where
  "recordDpdfnetUnderflow p =
     (let n = m_consecutiveDpdfnetUnderflows p + 1; p = p\<lparr>m_consecutiveDpdfnetUnderflows := n\<rparr>
      in (if m_dpdfnetSeenOutput p then DPDFNET_STEADY_UNDERFLOW_BLOCKS \<le> n else DPDFNET_WARMUP_UNDERFLOW_BLOCKS < n, p))"

definition resetDpdfnetWatchdog :: "'a pipeline \<times> 'a AppState \<Rightarrow> 'a pipeline \<times> 'a AppState" where
  "resetDpdfnetWatchdog = (\<lambda>(p, g).
     (p\<lparr>m_dpdfnetSeenOutput := False, m_consecutiveDpdfnetUnderflows := 0, m_dpdfnetDegraded := False\<rparr>,
      g\<lparr>g_dpdfnetDegraded := False\<rparr>))"

definition degradeDpdfnet :: "'a pipeline \<times> 'a AppState \<Rightarrow> 'a pipeline \<times> 'a AppState" where
  "degradeDpdfnet = (\<lambda>(p, g).
     (let processorReady = isReady (m_dpdfnet p);
          p = (if \<not> m_dpdfnetDegraded p then
                 p\<lparr>m_dpdfnetDegraded := True, m_streamEpoch := m_streamEpoch p + 1,
                   m_dpdfnet := setEpoch (m_streamEpoch p + 1) (m_dpdfnet p)\<rparr>
               else p);
          g = (if \<not> processorReady then g\<lparr>g_dpdfnetAvailable := False, g_dpdfnetDegraded := False\<rparr>
               else g\<lparr>g_dpdfnetDegraded := True\<rparr>)
      in (p\<lparr>m_activeBackend := Rnnoise\<rparr>, g\<lparr>g_denoiseEffectiveBackend := backend_int Rnnoise\<rparr>)))"

definition resetStreamState ::
  "'a pipe_env \<Rightarrow> 'a::{zero,one,scaleR} pipeline \<times> 'a AppState \<Rightarrow> ('a pipeline \<times> 'a AppState) option" where
  "resetStreamState E = (\<lambda>(p, g). do {
     st \<leftarrow> rnnoise_reset (pe_denoise E) (m_rnnoise p);
     let ep = m_streamEpoch p + 1;
     let p = p\<lparr>m_rnnoise := st, m_streamEpoch := ep, m_dpdfnet := setEpoch ep (m_dpdfnet p)\<rparr>;
     let (p, g) = resetDpdfnetWatchdog (p, g);
     Some (resetPostDenoiseState p, g)
   })"

section \<open>Initialisation and a block\<close>

definition pipe_init ::
  "'a pipe_env \<Rightarrow> bool \<Rightarrow> 'a \<Rightarrow> int \<Rightarrow> string \<Rightarrow> string \<Rightarrow>
   'a::{zero,one,plus,minus,uminus,times,inverse,ord,scaleR} pipeline \<times> 'a AppState \<Rightarrow> (bool \<times> 'a pipeline \<times> 'a AppState) option" where
  "pipe_init E alloc_ok rate rate_int dir model = (\<lambda>(p, g). do {
     let p = p\<lparr>m_sampleRate := rate\<rparr>;
     st \<leftarrow> (case m_rnnoise p of None \<Rightarrow> rnnoise_create (pe_denoise E) alloc_ok None | Some st \<Rightarrow> Some (Some st));
     (case st of
        None \<Rightarrow> Some (False, p\<lparr>m_rnnoise := None\<rparr>, g)
      | Some st \<Rightarrow>
          (let p = p\<lparr>m_runtimeDirectory := dir, m_modelPath := model\<rparr>;
               g = g\<lparr>g_dpdfnetDegraded := False\<rparr>;
               (p, g) = (if g_denoiseBackend g = backend_int Dpdfnet then loadDpdfnetNow E rate_int (p, g)
                         else (p, setDpdfnetLoadState NotLoaded g));
               p = p\<lparr>m_rnnoiseStrength := g_nrStrength g, m_rnnoise := Some (rnnoise_set_strength st (g_nrStrength g)),
                     m_nrActive := g_nrEnabled g, m_eqActive := g_eqEnabled g, m_lastPresence := g_eqPresence g,
                     m_lastBassCut := g_eqBassCut g, m_compActive := g_compressorEnabled g\<rparr>;
               p = resetPostDenoiseState (configureEq (pe_math E) p);
               p = p\<lparr>m_lastRequestedBackend := - 1, m_seenGlobalEpoch := 0, m_streamEpoch := 1\<rparr>;
               (p, g) = resetDpdfnetWatchdog (p, g);
               initialEffective = (if m_nrActive p then Rnnoise else Off)
           in Some (True, p\<lparr>m_activeBackend := initialEffective\<rparr>,
                g\<lparr>g_denoiseEffectiveBackend := backend_int initialEffective\<rparr>)))
   })"

datatype block_source = Bypassed | FromRnnoise | FromDpdfnet | Silenced

text \<open>
  The first part of \<open>process\<close>: the settings. A change of denoiser, or a reset, starts the stream anew; a change
  of strength goes to RNNoise; a change of the other stages configures them.
\<close>

definition follow_backend ::
  "'a pipe_env \<Rightarrow> 'a::{zero,one,scaleR} pipeline \<times> 'a AppState \<Rightarrow> ('a pipeline \<times> 'a AppState) option" where
  "follow_backend E = (\<lambda>(p, g).
     if g_nrEnabled g \<noteq> m_nrActive p \<or> g_denoiseBackend g \<noteq> m_lastRequestedBackend p \<or>
        g_denoiseResetEpoch g \<noteq> m_seenGlobalEpoch p then do {
       (p, g) \<leftarrow> resetStreamState E (p, g);
       let p = p\<lparr>m_nrActive := g_nrEnabled g, m_lastRequestedBackend := g_denoiseBackend g,
                 m_seenGlobalEpoch := g_denoiseResetEpoch g\<rparr>;
       let p = p\<lparr>m_activeBackend := (if g_nrEnabled g then chooseEffectiveBackend p (g_denoiseBackend g) else Off)\<rparr>;
       Some (p, g\<lparr>g_denoiseEffectiveBackend := backend_int (m_activeBackend p)\<rparr>)
     } else Some (p, g))"

definition follow_strength :: "'a::{zero,one,minus,uminus,ord,scaleR} AppState \<Rightarrow> 'a pipeline \<Rightarrow> 'a pipeline" where
  "follow_strength g p =
     (if lit 0.0001 < fabs (g_nrStrength g - m_rnnoiseStrength p) then
        p\<lparr>m_rnnoiseStrength := g_nrStrength g,
          m_rnnoise := map_option (\<lambda>st. rnnoise_set_strength st (g_nrStrength g)) (m_rnnoise p)\<rparr>
      else p)"

definition follow_eq ::
  "'a fmath \<Rightarrow> 'a \<Rightarrow> 'a AppState \<Rightarrow> 'a::{zero,one,plus,minus,uminus,times,inverse,scaleR} pipeline \<Rightarrow> 'a pipeline" where
  "follow_eq M sr g p =
     (if g_eqEnabled g \<noteq> m_eqActive p \<or> g_eqPresence g \<noteq> m_lastPresence p \<or> g_eqBassCut g \<noteq> m_lastBassCut p \<or>
         g_compressorEnabled g \<noteq> m_compActive p
      then updateSettings M sr g p else p)"

definition apply_settings ::
  "'a pipe_env \<Rightarrow> 'a \<Rightarrow> 'a::{zero,one,plus,minus,uminus,times,inverse,ord,scaleR} pipeline \<times> 'a AppState \<Rightarrow>
   ('a pipeline \<times> 'a AppState) option" where
  "apply_settings E sr s = do {
     (p, g) \<leftarrow> follow_backend E s;
     Some (follow_eq (pe_math E) sr g (follow_strength g p), g)
   }"

text \<open>
  The second: the denoiser. \<open>n1\<close> and \<open>n2\<close> are the steps the worker makes between the test of \<open>isReady\<close> and
  \<open>processBlock\<close>, and between that and the test of \<open>hasFailed\<close>.
\<close>

definition rnnoise_fallback ::
  "'a pipe_env \<Rightarrow> 'a list \<Rightarrow> 'a::{zero,one,plus,minus,uminus,times,inverse,ord,scaleR} pipeline \<Rightarrow> 'a AppState \<Rightarrow>
   (block_source \<times> 'a list \<times> 'a pipeline \<times> 'a AppState) option" where
  "rnnoise_fallback E smp p g = do {
     let (p, g) = degradeDpdfnet (p, g);
     (out, p) \<leftarrow> processRnnoise E smp p;
     Some (FromRnnoise, out, p, g)
   }"

definition denoise_block ::
  "'a pipe_env \<Rightarrow> nat \<Rightarrow> nat \<Rightarrow> 'a list \<Rightarrow> 'a::{zero,one,plus,minus,uminus,times,inverse,ord,scaleR} pipeline \<times> 'a AppState \<Rightarrow>
   (block_source \<times> 'a list \<times> 'a pipeline \<times> 'a AppState) option" where
  "denoise_block E n1 n2 smp = (\<lambda>(p, g).
     if m_activeBackend p = Dpdfnet then
           (if \<not> isReady (m_dpdfnet p) then rnnoise_fallback E smp p g
            else do {
              (haveOutput, denoised, d) \<leftarrow> processBlock smp (replicate 480 0) (m_streamEpoch p)
                ((worker_step (pe_sherpa E) ^^ n1) (m_dpdfnet p));
              let p = p\<lparr>m_dpdfnet := (worker_step (pe_sherpa E) ^^ n2) d\<rparr>;
              if hasFailed (m_dpdfnet p) then rnnoise_fallback E smp p g
              else if haveOutput then
                Some (FromDpdfnet, denoised, p\<lparr>m_dpdfnetSeenOutput := True, m_consecutiveDpdfnetUnderflows := 0\<rparr>, g)
              else (let (stuck, p) = recordDpdfnetUnderflow p
                    in if stuck then rnnoise_fallback E smp p g else Some (Silenced, replicate 480 0, p, g))
            })
         else do {
           (out, p) \<leftarrow> processRnnoise E smp p;
           Some (FromRnnoise, out, p, g)
         })"

definition process ::
  "'a pipe_env \<Rightarrow> nat \<Rightarrow> nat \<Rightarrow> 'a list \<Rightarrow> 'a \<Rightarrow>
   'a::{zero,one,plus,minus,uminus,times,inverse,ord,scaleR} pipeline \<times> 'a AppState \<Rightarrow>
   (block_source \<times> 'a list \<times> 'a pipeline \<times> 'a AppState) option" where
  "process E n1 n2 smp sr = (\<lambda>(p, g).
     if length smp \<noteq> 480 then
       (let (out, p) = processPostDenoise E g smp (p\<lparr>m_loggedFallbackSize := True\<rparr>) in Some (Bypassed, out, p, g))
     else do {
       (p, g) \<leftarrow> apply_settings E sr (p, g);
       (src, smp, p, g) \<leftarrow> (if \<not> g_nrEnabled g then Some (Bypassed, smp, p, g) else denoise_block E n1 n2 smp (p, g));
       let (out, p) = processPostDenoise E g smp p;
       Some (src, out, p, g)
     })"

end
