(* ===== verification/Rnn_Denoise_Safe.thy ===== *)
theory Rnn_Denoise_Safe
  imports Rnn_Denoise
begin

text \<open>
  What the noise suppressor guarantees: every call stays inside its arrays and returns, and the state
  keeps its invariant over any sequence of calls; without suppression, analysis and synthesis hand the
  input back one frame later.
\<close>

section \<open>Every step returns\<close>

lemma ofold_total:
  assumes "\<And>i s. m \<le> i \<Longrightarrow> i < n \<Longrightarrow> length s = k \<Longrightarrow> \<exists>s'. f i s = Some s' \<and> length s' = k" "length s = k" "m \<le> n"
  shows "\<exists>s'. ofold f [m..<n] s = Some s' \<and> length s' = k"
  using assms by (intro ofold_inv_from [where P = "\<lambda>_ s. length s = k"]) auto

lemmas mem_defs = rd_def wr_def denoise_sizes

lemma eband_cell: "i < NB_BANDS + 2 \<Longrightarrow> rd eband20ms (int i) = Some (eband20ms ! i)"
  by (simp add: rd_nat eband20ms_def denoise_sizes)

lemma eband_le: "i < NB_BANDS + 2 \<Longrightarrow> eband20ms ! i \<le> 400"
proof -
  assume "i < NB_BANDS + 2"
  then have "eband20ms ! i \<in> set eband20ms" by (intro nth_mem) (simp add: eband20ms_def denoise_sizes)
  then show ?thesis by (auto simp: eband20ms_def)
qed

lemma band_sums_total:
  assumes val: "\<And>k. k < 400 \<Longrightarrow> \<exists>v. val k = Some v" and "length acc = NB_BANDS + 2"
  shows "\<exists>s. band_sums P val acc = Some s \<and> length s = NB_BANDS + 2"
  unfolding band_sums_def
proof (rule ofold_total [OF _ assms(2)])
  fix i and s :: "'a list" assume i: "i < NB_BANDS + 1" and s: "length s = NB_BANDS + 2"
  let ?lo = "eband20ms ! i" and ?hi = "eband20ms ! (i + 1)"
  have e: "rd eband20ms (int i) = Some ?lo" "rd eband20ms (int (i + 1)) = Some ?hi" "?hi \<le> 400"
    using i by (intro eband_cell eband_le; simp)+
  show "\<exists>s'. (do { lo \<leftarrow> rd eband20ms (int i); hi \<leftarrow> rd eband20ms (int (i + 1)); let band_size = hi - lo;
      ofold (\<lambda>j acc. do {
        let frac = f_of_int P (int j) / f_of_int P (int band_size);
        tmp \<leftarrow> val (lo + j);
        a \<leftarrow> rd acc (int i);
        acc \<leftarrow> wr acc (int i) (a + (1 - frac) * tmp);
        b \<leftarrow> rd acc (int (i + 1));
        wr acc (int (i + 1)) (b + frac * tmp)
      }) [0..<band_size] s }) = Some s' \<and> length s' = NB_BANDS + 2"
    unfolding e(1,2) Option.bind.simps(2) Let_def
  proof (rule ofold_total [OF _ s])
    fix j and t :: "'a list" assume j: "j < ?hi - ?lo" and t: "length t = NB_BANDS + 2"
    have "?lo + j < 400" using e(3) j by linarith
    then obtain v where "val (?lo + j) = Some v" using val by blast
    then show "\<exists>s'. val (?lo + j) \<bind> (\<lambda>tmp. rd t (int i) \<bind>
        (\<lambda>a. wr t (int i) (a + (1 - f_of_int P (int j) / f_of_int P (int (?hi - ?lo))) * tmp) \<bind>
        (\<lambda>acc. rd acc (int (i + 1)) \<bind>
        (\<lambda>b. wr acc (int (i + 1)) (b + f_of_int P (int j) / f_of_int P (int (?hi - ?lo)) * tmp))))) = Some s' \<and>
        length s' = NB_BANDS + 2"
      using i t by (simp add: rd_def wr_def)
  qed simp
qed simp

lemma band_finish_total:
  assumes "length acc = NB_BANDS + 2"
  shows "\<exists>e. band_finish acc = Some e \<and> length e = NB_BANDS"
proof -
  have loop: "\<exists>e. ofold (\<lambda>i bandE. do { s \<leftarrow> rd xs (int (i + 1)); wr bandE (int i) s }) [0..<NB_BANDS] (replicate NB_BANDS 0) =
      Some e \<and> length e = NB_BANDS" if "length xs = NB_BANDS + 2" for xs :: "'a list"
    by (rule ofold_total) (use that in \<open>auto simp: rd_def wr_def\<close>)
  let ?s1 = "\<lambda>v. acc[1 := v]" and ?s2 = "\<lambda>v w. acc[1 := v, NB_BANDS := w]"
  have len: "length acc = 34" "NB_BANDS = 32" using assms by (simp_all add: denoise_sizes)
  have w1: "wr acc 1 v = Some (?s1 v)" for v using len wr_nat [of 1 acc v] by simp
  have r: "rd acc 0 = Some (acc ! 0)" "rd acc 1 = Some (acc ! 1)"
    "rd (?s1 v) (int NB_BANDS) = Some (?s1 v ! NB_BANDS)" "rd (?s1 v) (int (NB_BANDS + 1)) = Some (?s1 v ! (NB_BANDS + 1))"
    "wr (?s1 v) (int NB_BANDS) w = Some (?s2 v w)" for v w
    using len by (simp_all add: rd_at [of _ 0] rd_at [of _ 1] rd_nat wr_nat wr_def del: of_nat_add One_nat_def add_2_eq_Suc' add_Suc_right)
  show ?thesis unfolding band_finish_def r w1 Option.bind.simps(2) by (rule loop) (simp add: assms)
qed

lemma compute_band_energy_total:
  "400 \<le> length X \<Longrightarrow> \<exists>e. compute_band_energy P X = Some e \<and> length e = NB_BANDS"
  using band_sums_total [of "\<lambda>k. do { x \<leftarrow> rd X (int k); Some (SQUARE (cr x) + SQUARE (ci x)) }" "replicate (NB_BANDS + 2) 0" P]
    band_finish_total
  by (fastforce simp: compute_band_energy_def rd_nat)

lemma compute_band_corr_total:
  "400 \<le> length X \<Longrightarrow> 400 \<le> length Q \<Longrightarrow> \<exists>e. compute_band_corr P X Q = Some e \<and> length e = NB_BANDS"
  using band_sums_total [of "\<lambda>k. do { x \<leftarrow> rd X (int k); p \<leftarrow> rd Q (int k); Some (cr x * cr p + ci x * ci p) }"
      "replicate (NB_BANDS + 2) 0" P] band_finish_total
  by (fastforce simp: compute_band_corr_def rd_nat)

lemma clear_bytes_total:
  assumes "n div 4 < length g" "length g = k"
  shows "\<exists>g'. clear_bytes P n g = Some g' \<and> length g' = k"
proof -
  obtain g1 where "ofold (\<lambda>i g. wr g (int i) 0) [0..<n div 4] g = Some g1" "length g1 = k"
    using ofold_total [of 0 "n div 4" k "\<lambda>i g. wr g (int i) 0" g] assms by (auto simp: wr_nat)
  then show ?thesis using assms by (simp add: clear_bytes_def rd_nat wr_nat Let_def del: of_nat_div)
qed

lemma interp_band_gain_total:
  assumes g: "length g = FREQ_SIZE" and e: "length bandE = NB_BANDS"
  shows "\<exists>g'. interp_band_gain P g bandE = Some g' \<and> length g' = FREQ_SIZE"
proof -
  have fs: "FREQ_SIZE = 481" and nb: "NB_BANDS = 32" by (simp_all add: denoise_sizes)
  obtain g1 where g1: "clear_bytes P FREQ_SIZE g = Some g1" "length g1 = FREQ_SIZE"
    using clear_bytes_total [of FREQ_SIZE g FREQ_SIZE P] g fs by auto
  let ?f = "\<lambda>i g. do {
         lo \<leftarrow> rd eband20ms (int i);
         hi \<leftarrow> rd eband20ms (int (i + 1));
         let band_size = hi - lo;
         ofold (\<lambda>j g. do {
           let frac = f_of_int P (int j) / f_of_int P (int band_size);
           a \<leftarrow> rd bandE (int i - 1);
           b \<leftarrow> rd bandE (int i);
           wr g (int (lo + j)) ((1 - frac) * a + frac * b)
         }) [0..<band_size] g
       }"
  have "\<exists>g2. ofold ?f [1..<NB_BANDS] g1 = Some g2 \<and> length g2 = FREQ_SIZE"
  proof (rule ofold_total [OF _ g1(2)])
    fix i and s :: "'a list" assume i: "1 \<le> i" "i < NB_BANDS" and s: "length s = FREQ_SIZE"
    let ?lo = "eband20ms ! i" and ?hi = "eband20ms ! (i + 1)"
    have r: "rd eband20ms (int i) = Some ?lo" "rd eband20ms (int (i + 1)) = Some ?hi" "?hi \<le> 400"
      using i by (intro eband_cell eband_le; simp)+
    have b: "rd bandE (int i - 1) = Some (bandE ! (i - 1))" "rd bandE (int i) = Some (bandE ! i)"
      using i e by (auto intro!: rd_at)
    show "\<exists>s'. ?f i s = Some s' \<and> length s' = FREQ_SIZE"
      unfolding r(1,2) b Option.bind.simps(2) Let_def
    proof (rule ofold_total [OF _ s])
      fix j and t :: "'a list" assume j: "j < ?hi - ?lo" and t: "length t = FREQ_SIZE"
      have "?lo + j < length t" using r(3) j t fs by linarith
      then show "\<exists>s'. wr t (int (?lo + j)) ((1 - f_of_int P (int j) / f_of_int P (int (?hi - ?lo))) * bandE ! (i - 1) +
          f_of_int P (int j) / f_of_int P (int (?hi - ?lo)) * bandE ! i) = Some s' \<and> length s' = FREQ_SIZE"
        using t by (simp add: wr_nat del: of_nat_add)
    qed simp
  qed (simp add: nb)
  then obtain g2 where g2: "ofold ?f [1..<NB_BANDS] g1 = Some g2" "length g2 = FREQ_SIZE" by blast
  have e1: "rd eband20ms 1 = Some 2" "rd eband20ms (int NB_BANDS) = Some 356" "rd eband20ms (int (NB_BANDS + 1)) = Some 400"
    by (simp_all add: rd_def nb eband20ms_def)
  have b: "rd bandE 0 = Some (bandE ! 0)" "rd bandE (int (NB_BANDS - 1)) = Some (bandE ! (NB_BANDS - 1))"
    using e nb by (auto intro!: rd_at)
  obtain g3 where g3: "ofold (\<lambda>j g. wr g (int j) (bandE ! 0)) [0..<2] g2 = Some g3" "length g3 = FREQ_SIZE"
    using ofold_total [of 0 2 FREQ_SIZE "\<lambda>j g. wr g (int j) (bandE ! 0)" g2] g2(2) fs by (auto simp: wr_nat)
  obtain g4 where g4: "ofold (\<lambda>j g. wr g (int j) (bandE ! (NB_BANDS - 1))) [356..<400] g3 = Some g4" "length g4 = FREQ_SIZE"
    using ofold_total [of 356 400 FREQ_SIZE "\<lambda>j g. wr g (int j) (bandE ! (NB_BANDS - 1))" g3] g3(2) fs by (auto simp: wr_nat)
  show ?thesis
    unfolding interp_band_gain_def g1(1) Option.bind.simps(2) g2(1) e1 b g3(1) g4(1) using g4(2) by blast
qed

lemma dct_total:
  assumes xs: "NB_BANDS \<le> length xs" and out: "pos + NB_BANDS \<le> length out" "length out = k"
    and tab: "NB_BANDS * NB_BANDS \<le> length (e_dct E)"
  shows "\<exists>y. dct E out pos xs = Some y \<and> length y = k"
  unfolding dct_def
proof (rule ofold_total [OF _ out(2)])
  fix i and s :: "'a list" assume i: "i < NB_BANDS" and s: "length s = k"
  have "\<exists>v. ofold (\<lambda>j s. do { x \<leftarrow> rd xs (int j); c \<leftarrow> rd (e_dct E) (int (j * NB_BANDS + i)); Some (s + x * c) })
      [0..<NB_BANDS] 0 = Some v \<and> True"
  proof (rule ofold_inv [where P = "\<lambda>_ _. True"])
    fix j and t :: 'a assume j: "j < NB_BANDS"
    have "j * NB_BANDS + i < NB_BANDS * NB_BANDS" using i j mult_le_mono1 [of "j + 1" NB_BANDS NB_BANDS] by simp
    then show "\<exists>s'. (do { x \<leftarrow> rd xs (int j); c \<leftarrow> rd (e_dct E) (int (j * NB_BANDS + i)); Some (t + x * c) }) = Some s' \<and> True"
      using xs tab j by (simp add: rd_nat del: of_nat_add of_nat_mult)
  qed simp
  then show "\<exists>s'. (do { a \<leftarrow> ofold (\<lambda>j s. do { x \<leftarrow> rd xs (int j); c \<leftarrow> rd (e_dct E) (int (j * NB_BANDS + i)); Some (s + x * c) })
        [0..<NB_BANDS] 0;
      wr s (int (pos + i)) (a * c_sqrt (e_libm E) (lit 2 / lit 22)) }) = Some s' \<and> length s' = k"
    using i out s by (auto simp: wr_nat simp del: of_nat_add)
qed simp

lemma copy_total:
  assumes "\<And>i. i < n \<Longrightarrow> a i < length xs" "\<And>i. i < n \<Longrightarrow> b i < length ys" "length ys = k"
  shows "\<exists>ys'. ofold (\<lambda>i ys. do { v \<leftarrow> rd xs (int (a i)); wr ys (int (b i)) (h v) }) [0..<n] ys = Some ys' \<and> length ys' = k"
  by (rule ofold_total) (use assms in \<open>auto simp: rd_nat wr_nat\<close>)

definition kfft_ok :: "'a fft_state \<Rightarrow> bool" where
  "kfft_ok K \<longleftrightarrow> (\<exists>ps. fft_shape_ok ps K) \<and> nfft K = WINDOW_SIZE"

lemma kfft_total:
  "kfft_ok K \<Longrightarrow> length x = WINDOW_SIZE \<Longrightarrow> length y = WINDOW_SIZE \<Longrightarrow>
   \<exists>out. rnn_fft_c K x y = Some out \<and> length out = WINDOW_SIZE"
  using rnn_fft_total by (metis kfft_ok_def order_refl)

lemma static_kfft_ok: "length tw = 960 \<Longrightarrow> kfft_ok (rnn_kfft tw)"
  using kfft_shape [of tw] by (auto simp: kfft_ok_def rnn_kfft_def denoise_sizes)

lemma forward_transform_total:
  assumes K: "kfft_ok K" and x: "WINDOW_SIZE \<le> length x"
  shows "\<exists>X. forward_transform K x = Some X \<and> length X = FREQ_SIZE"
proof -
  have fs: "FREQ_SIZE \<le> WINDOW_SIZE" by (simp add: denoise_sizes)
  obtain y where y: "ofold (\<lambda>i y. do { v \<leftarrow> rd x (int i); wr y (int i) \<lparr>cr = v, ci = 0\<rparr> }) [0..<WINDOW_SIZE]
      (replicate WINDOW_SIZE \<lparr>cr = 0, ci = 0\<rparr>) = Some y" "length y = WINDOW_SIZE"
    using copy_total [of WINDOW_SIZE "\<lambda>i. i" x "\<lambda>i. i" "replicate WINDOW_SIZE \<lparr>cr = 0, ci = 0\<rparr>" WINDOW_SIZE "\<lambda>v. \<lparr>cr = v, ci = 0\<rparr>"] x
    by auto
  obtain z where z: "rnn_fft_c K y (replicate WINDOW_SIZE \<lparr>cr = 0, ci = 0\<rparr>) = Some z" "length z = WINDOW_SIZE"
    using kfft_total [OF K y(2), of "replicate WINDOW_SIZE \<lparr>cr = 0, ci = 0\<rparr>"] by auto
  show ?thesis unfolding forward_transform_def y(1) z(1) Option.bind.simps(2)
    by (rule copy_total [of FREQ_SIZE "\<lambda>i. i" z "\<lambda>i. i" _ _ "\<lambda>v. v"]) (use z(2) fs in auto)
qed

lemma inverse_transform_total:
  assumes K: "kfft_ok K" and x: "FREQ_SIZE \<le> length X"
  shows "\<exists>x. inverse_transform P K X = Some x \<and> length x = WINDOW_SIZE"
proof -
  have fs: "FREQ_SIZE = 481" "WINDOW_SIZE = 960" by (simp_all add: denoise_sizes)
  let ?z = "\<lparr>cr = 0, ci = 0\<rparr>"
  obtain x1 where x1: "ofold (\<lambda>i x. do { v \<leftarrow> rd X (int i); wr x (int i) v }) [0..<FREQ_SIZE] (replicate WINDOW_SIZE ?z) = Some x1"
    "length x1 = WINDOW_SIZE"
    using copy_total [of FREQ_SIZE "\<lambda>i. i" X "\<lambda>i. i" "replicate WINDOW_SIZE ?z" WINDOW_SIZE "\<lambda>v. v"] x fs by auto
  have "\<exists>x2. ofold (\<lambda>i x. do { v \<leftarrow> rd x (int (WINDOW_SIZE - i)); wr x (int i) \<lparr>cr = cr v, ci = - ci v\<rparr> })
      [FREQ_SIZE..<WINDOW_SIZE] x1 = Some x2 \<and> length x2 = WINDOW_SIZE"
    by (rule ofold_total [OF _ x1(2)]) (use fs in \<open>auto simp: rd_nat wr_nat simp del: of_nat_diff\<close>)
  then obtain x2 where x2: "ofold (\<lambda>i x. do { v \<leftarrow> rd x (int (WINDOW_SIZE - i)); wr x (int i) \<lparr>cr = cr v, ci = - ci v\<rparr> })
      [FREQ_SIZE..<WINDOW_SIZE] x1 = Some x2" "length x2 = WINDOW_SIZE" by blast
  obtain y where y: "rnn_fft_c K x2 (replicate WINDOW_SIZE ?z) = Some y" "length y = WINDOW_SIZE"
    using kfft_total [OF K x2(2), of "replicate WINDOW_SIZE ?z"] by auto
  have r: "rd y 0 = Some (y ! 0)" using y(2) fs by (intro rd_at) simp_all
  have w: "wr (replicate WINDOW_SIZE (0::'a)) 0 v = Some ((replicate WINDOW_SIZE 0)[0 := v])" for v
    using fs wr_nat [of 0 "replicate WINDOW_SIZE (0::'a)" v] by simp
  show ?thesis unfolding inverse_transform_def x1(1) x2(1) y(1) r w Option.bind.simps(2)
    by (rule ofold_total) (use y(2) fs in \<open>auto simp: rd_nat wr_nat simp del: of_nat_diff\<close>)
qed

lemma window_cell: "i < FRAME_SIZE \<Longrightarrow> rd rnn_half_window (int i) = Some (rnn_half_window ! i)"
  by (intro rd_nat) (simp add: rnn_half_window_def length_half_window denoise_sizes)

lemma apply_window_total:
  assumes "length x = WINDOW_SIZE"
  shows "\<exists>y. apply_window x = Some y \<and> length y = WINDOW_SIZE"
  unfolding apply_window_def
proof (rule ofold_total [OF _ assms])
  fix i and s :: "'a list" assume i: "i < FRAME_SIZE" and s: "length s = WINDOW_SIZE"
  have fs: "FRAME_SIZE = 480" "WINDOW_SIZE = 960" by (simp_all add: denoise_sizes)
  have idx: "int WINDOW_SIZE - 1 - int i = int (WINDOW_SIZE - 1 - i)" using i fs by simp
  show "\<exists>s'. (do { w \<leftarrow> rd rnn_half_window (int i); a \<leftarrow> rd s (int i); x \<leftarrow> wr s (int i) (a * w);
      b \<leftarrow> rd x (int WINDOW_SIZE - 1 - int i); wr x (int WINDOW_SIZE - 1 - int i) (b * w) }) = Some s' \<and> length s' = WINDOW_SIZE"
    unfolding idx window_cell [OF i] using i s fs by (simp add: rd_nat wr_nat del: of_nat_diff)
qed simp

lemma log_energies_total:
  assumes "NB_BANDS \<le> length e"
  shows "\<exists>Ly en. log_energies m e = Some (Ly, en) \<and> length Ly = NB_BANDS"
proof -
  let ?f = "\<lambda>i (Ly, logMax, follow, en). do {
         e \<leftarrow> rd e (int i);
         let v = c_log10 m (lit 0.01 + e);
         let v = MAX16 (logMax - lit 7) (MAX16 (follow - lit 1.5) v);
         Ly \<leftarrow> wr Ly (int i) v;
         Some (Ly, MAX16 logMax v, MAX16 (follow - lit 1.5) v, en + e)
       }"
  have "\<exists>st. ofold ?f [0..<NB_BANDS] (replicate NB_BANDS 0, - lit 2, - lit 2, 0) = Some st \<and> length (fst st) = NB_BANDS"
    by (rule ofold_inv [where P = "\<lambda>_ st. length (fst st) = NB_BANDS"]) (use assms in \<open>auto simp: rd_nat wr_nat Let_def\<close>)
  then show ?thesis by (auto simp: log_energies_def)
qed

lemma rnn_biquad_total:
  assumes "N \<le> length xs" "length mem = 2"
  shows "\<exists>y mem'. rnn_biquad mem xs [b0, b1] [a0, a1] N = Some (y, mem') \<and> length y = N \<and> length mem' = 2"
proof -
  have two: "rd m 0 = Some (m ! 0)" "rd m 1 = Some (m ! 1)" "wr m 0 v = Some (m[0 := v])" "wr m 1 v = Some (m[Suc 0 := v])"
    if "length m = 2" for m :: "'a list" and v
    using that wr_nat [of 0 m v] wr_nat [of 1 m v] rd_nat [of 0 m] rd_nat [of 1 m] by simp_all
  have "\<exists>st. rnn_biquad mem xs [b0, b1] [a0, a1] N = Some st \<and> length (fst st) = N \<and> length (snd st) = 2"
    unfolding rnn_biquad_def
    by (rule ofold_inv [where P = "\<lambda>_ st. length (fst st) = N \<and> length (snd st) = 2"])
      (use assms in \<open>auto simp: rd_nat wr_nat two Let_def\<close>)
  then show ?thesis by auto
qed

lemma scale_bins_total:
  "FREQ_SIZE \<le> length gf \<Longrightarrow> length X = FREQ_SIZE \<Longrightarrow> \<exists>Y. scale_bins gf X = Some Y \<and> length Y = FREQ_SIZE"
  unfolding scale_bins_def by (rule ofold_total) (auto simp: rd_nat wr_nat)

lemma band_loop_total:
  assumes "\<And>i r. i < NB_BANDS \<Longrightarrow> length r = NB_BANDS \<Longrightarrow> \<exists>v. f i r = Some v \<and> length v = NB_BANDS" "length r = NB_BANDS"
  shows "\<exists>r'. ofold f [0..<NB_BANDS] r = Some r' \<and> length r' = NB_BANDS"
  by (rule ofold_total) (use assms in auto)

lemma rnn_pitch_filter_total:
  assumes X: "length X = FREQ_SIZE" "length P = FREQ_SIZE" and b: "length ebx = NB_BANDS" "length ebp = NB_BANDS"
    "length ebxp = NB_BANDS" "length g = NB_BANDS"
  shows "\<exists>Y. rnn_pitch_filter E X P ebx ebp ebxp g = Some Y \<and> length Y = FREQ_SIZE"
proof -
  let ?sq = "c_sqrt (e_libm E)"
  let ?f1 = "\<lambda>i r. do {
         xp \<leftarrow> rd ebxp (int i);
         gi \<leftarrow> rd g (int i);
         let ri = (if gi < xp then 1
           else SQUARE xp * (1 - SQUARE gi) / (lit 0.001 + SQUARE gi * (1 - SQUARE xp)));
         let ri = ?sq (MIN16 1 (MAX16 0 ri));
         ex \<leftarrow> rd ebx (int i);
         ep \<leftarrow> rd ebp (int i);
         wr r (int i) (ri * ?sq (ex / (lit 0.00000001 + ep)))
       }"
  obtain r where r: "ofold ?f1 [0..<NB_BANDS] (replicate NB_BANDS 0) = Some r" "length r = NB_BANDS"
    using band_loop_total [where f = ?f1 and r = "replicate NB_BANDS 0"] b by (auto simp: rd_nat wr_nat Let_def)
  obtain rf where rf: "interp_band_gain (e_ops E) (replicate FREQ_SIZE 0) r = Some rf" "length rf = FREQ_SIZE"
    using interp_band_gain_total [of "replicate FREQ_SIZE 0" r "e_ops E"] r(2) by auto
  let ?f2 = "\<lambda>i X. do {
         x \<leftarrow> rd X (int i);
         f \<leftarrow> rd rf (int i);
         p \<leftarrow> rd P (int i);
         wr X (int i) \<lparr>cr = cr x + f * cr p, ci = ci x + f * ci p\<rparr>
       }"
  have "\<exists>Y. ofold ?f2 [0..<FREQ_SIZE] X = Some Y \<and> length Y = FREQ_SIZE"
    by (rule ofold_total) (use X rf(2) in \<open>auto simp: rd_nat wr_nat\<close>)
  then obtain Y where Y: "ofold ?f2 [0..<FREQ_SIZE] X = Some Y" "length Y = FREQ_SIZE" by blast
  obtain ne where ne: "compute_band_energy (e_ops E) Y = Some ne" "length ne = NB_BANDS"
    using compute_band_energy_total [of Y "e_ops E"] Y(2) by (auto simp: denoise_sizes)
  let ?f3 = "\<lambda>i norm. do {
         ex \<leftarrow> rd ebx (int i);
         ne \<leftarrow> rd ne (int i);
         wr norm (int i) (?sq (ex / (lit 0.00000001 + ne)))
       }"
  obtain n where n: "ofold ?f3 [0..<NB_BANDS] (replicate NB_BANDS 0) = Some n" "length n = NB_BANDS"
    using band_loop_total [where f = ?f3 and r = "replicate NB_BANDS 0"] b(1) ne(2) by (auto simp: rd_nat wr_nat)
  obtain nf where nf: "interp_band_gain (e_ops E) (replicate FREQ_SIZE 0) n = Some nf" "length nf = FREQ_SIZE"
    using interp_band_gain_total [of "replicate FREQ_SIZE 0" n "e_ops E"] n(2) by auto
  show ?thesis
    unfolding rnn_pitch_filter_def Let_def [of "c_sqrt (e_libm E)"] r(1) rf(1) Y(1) ne(1) n(1) nf(1) Option.bind.simps(2)
    by (rule scale_bins_total) (simp_all add: nf(2) Y(2))
qed

lemma smooth_gains_range:
  fixes g lg :: "real list"
  assumes "length g = NB_BANDS" "gain_range g" "length lg = NB_BANDS" "gain_range lg" "0 \<le> alpha" "alpha \<le> 1"
  shows "\<exists>g' lg'. smooth_gains alpha g lg = Some (g', lg') \<and> length g' = NB_BANDS \<and> gain_range g' \<and>
    length lg' = NB_BANDS \<and> gain_range lg'"
proof -
  let ?P = "\<lambda>_ (g, lg). length g = NB_BANDS \<and> gain_range g \<and> length lg = NB_BANDS \<and> gain_range lg"
  have upd: "gain_range (xs[i := v])" if "gain_range xs" "0 \<le> v" "v \<le> 1" for xs i v
    using that set_update_subset_insert [of xs i v] by (auto simp: gain_range_def)
  have "\<exists>st. smooth_gains alpha g lg = Some st \<and> ?P NB_BANDS st"
    unfolding smooth_gains_def
  proof (rule ofold_inv [where P = ?P])
    fix i st assume i: "i < NB_BANDS" and st: "?P i st"
    obtain a b where ab: "st = (a, b)" "length a = NB_BANDS" "gain_range a" "length b = NB_BANDS" "gain_range b"
      using st by (cases st) auto
    have "0 \<le> a ! i" "a ! i \<le> 1" "0 \<le> b ! i" "b ! i \<le> 1"
      using ab i by (auto simp: gain_range_def)
    moreover from this have "0 \<le> alpha * b ! i" "alpha * b ! i \<le> 1"
      using assms(5,6) mult_le_one by auto
    ultimately have "0 \<le> MAX16 (a ! i) (alpha * b ! i)" "MAX16 (a ! i) (alpha * b ! i) \<le> 1" by (auto simp: MAX16_def)
    then show "\<exists>s'. (case st of (g, lg) \<Rightarrow> do {
        gi \<leftarrow> rd g (int i); li \<leftarrow> rd lg (int i); let v = MAX16 gi (alpha * li);
        g \<leftarrow> wr g (int i) v; lg \<leftarrow> wr lg (int i) v; Some (g, lg) }) = Some s' \<and> ?P (Suc i) s'"
      using ab i upd by (simp add: rd_nat wr_nat Let_def)
  qed (use assms in simp)
  then show ?thesis by auto
qed

section \<open>The invariant of the state\<close>

definition denoise_env_ok :: "'a denoise_env \<Rightarrow> bool" where
  "denoise_env_ok E \<longleftrightarrow> kfft_ok (e_kfft E) \<and> NB_BANDS * NB_BANDS \<le> length (e_dct E)"

text \<open>The sizes of the arrays of the state.\<close>

definition state_sizes :: "'a DenoiseState \<Rightarrow> bool" where
  "state_sizes st \<longleftrightarrow> length (analysis_mem st) = FRAME_SIZE \<and> length (synthesis_mem st) = FRAME_SIZE \<and>
     length (pitch_buf st) = PITCH_BUF_SIZE \<and> length (pitch_enh_buf st) = PITCH_BUF_SIZE \<and> length (mem_hp_x st) = 2 \<and>
     length (lastg st) = NB_BANDS \<and> length (delayed_X st) = FREQ_SIZE \<and> length (delayed_P st) = FREQ_SIZE \<and>
     length (delayed_Ex st) = NB_BANDS \<and> length (delayed_Ep st) = NB_BANDS \<and> length (delayed_Exp st) = NB_BANDS"

definition denoise_inv :: "real DenoiseState \<Rightarrow> bool" where
  "denoise_inv st \<longleftrightarrow> state_sizes st \<and> model_ok (st_model st) \<and> rnn_state_ok (st_rnn st) \<and> gain_range (lastg st) \<and>
     3 / 10 \<le> strength st \<and> strength st \<le> 95 / 100 \<and>
     (last_period st = 0 \<or> int PITCH_MIN_PERIOD \<le> last_period st \<and> last_period st < int PITCH_MAX_PERIOD)"

lemma frame_analysis_total:
  assumes E: "denoise_env_ok E" and st: "length (analysis_mem st) = FRAME_SIZE" and x: "FRAME_SIZE \<le> length inp"
  shows "\<exists>am X e. rnn_frame_analysis E st inp = Some (st\<lparr>analysis_mem := am\<rparr>, X, e) \<and> length am = FRAME_SIZE \<and>
    length X = FREQ_SIZE \<and> length e = NB_BANDS"
proof -
  have fs: "FRAME_SIZE = 480" "WINDOW_SIZE = 960" "FREQ_SIZE = 481" by (simp_all add: denoise_sizes)
  obtain x1 where x1: "ofold (\<lambda>i x. do { v \<leftarrow> rd (analysis_mem st) (int i); wr x (int i) v }) [0..<FRAME_SIZE]
      (replicate WINDOW_SIZE 0) = Some x1" "length x1 = WINDOW_SIZE"
    using copy_total [of FRAME_SIZE "\<lambda>i. i" "analysis_mem st" "\<lambda>i. i" "replicate WINDOW_SIZE 0" WINDOW_SIZE "\<lambda>v. v"] st fs by auto
  obtain x2 where x2: "ofold (\<lambda>i x. do { v \<leftarrow> rd inp (int i); wr x (int (FRAME_SIZE + i)) v }) [0..<FRAME_SIZE] x1 = Some x2"
    "length x2 = WINDOW_SIZE"
    using copy_total [of FRAME_SIZE "\<lambda>i. i" inp "\<lambda>i. FRAME_SIZE + i" x1 WINDOW_SIZE "\<lambda>v. v"] x x1(2) fs by auto
  obtain am where am: "ofold (\<lambda>i am. do { v \<leftarrow> rd inp (int i); wr am (int i) v }) [0..<FRAME_SIZE] (analysis_mem st) = Some am"
    "length am = FRAME_SIZE"
    using copy_total [of FRAME_SIZE "\<lambda>i. i" inp "\<lambda>i. i" "analysis_mem st" FRAME_SIZE "\<lambda>v. v"] st x by auto
  obtain x3 where x3: "apply_window x2 = Some x3" "length x3 = WINDOW_SIZE" using apply_window_total [OF x2(2)] by blast
  obtain X where X: "forward_transform (e_kfft E) x3 = Some X" "length X = FREQ_SIZE"
    using forward_transform_total [of "e_kfft E" x3] E x3(2) by (auto simp: denoise_env_ok_def)
  obtain e where e: "compute_band_energy (e_ops E) X = Some e" "length e = NB_BANDS"
    using compute_band_energy_total [of X "e_ops E"] X(2) fs by auto
  show ?thesis unfolding rnn_frame_analysis_def x1(1) x2(1) am(1) x3(1) X(1) e(1) Option.bind.simps(2)
    using am(2) X(2) e(2) by blast
qed

lemma shift_pitch_buf_total:
  assumes "length buf = PITCH_BUF_SIZE" "FRAME_SIZE \<le> length inp"
  shows "\<exists>b. shift_pitch_buf buf inp = Some b \<and> length b = PITCH_BUF_SIZE"
proof -
  have fs: "PITCH_BUF_SIZE = 1728" "FRAME_SIZE = 480" by (simp_all add: denoise_sizes)
  have "\<exists>m. ofold (\<lambda>i b. do { v \<leftarrow> rd buf (int (FRAME_SIZE + i)); wr b (int i) v }) [0..<PITCH_BUF_SIZE - FRAME_SIZE] buf = Some m \<and>
      length m = PITCH_BUF_SIZE"
    by (rule copy_total [of _ "\<lambda>i. FRAME_SIZE + i" buf "\<lambda>i. i" buf PITCH_BUF_SIZE "\<lambda>v. v"]) (use assms fs in auto)
  then obtain m where m: "ofold (\<lambda>i b. do { v \<leftarrow> rd buf (int (FRAME_SIZE + i)); wr b (int i) v }) [0..<PITCH_BUF_SIZE - FRAME_SIZE] buf = Some m"
    "length m = PITCH_BUF_SIZE" by blast
  show ?thesis unfolding shift_pitch_buf_def m(1) Option.bind.simps(2)
    by (rule copy_total [of FRAME_SIZE "\<lambda>i. i" inp "\<lambda>i. PITCH_BUF_SIZE - FRAME_SIZE + i" m PITCH_BUF_SIZE "\<lambda>v. v"])
      (use m(2) assms(2) fs in auto)
qed

lemma pitch_window_total:
  assumes "length buf = PITCH_BUF_SIZE" "int PITCH_MIN_PERIOD \<le> t" "t < int PITCH_MAX_PERIOD"
  shows "\<exists>p. ofold (\<lambda>i p. do { v \<leftarrow> rd buf (int PITCH_BUF_SIZE - int WINDOW_SIZE - t + int i); wr p (int i) v })
    [0..<WINDOW_SIZE] (replicate WINDOW_SIZE 0) = Some p \<and> length p = WINDOW_SIZE"
proof (rule ofold_total)
  fix i and s :: "'a list" assume i: "i < WINDOW_SIZE" and s: "length s = WINDOW_SIZE"
  have "0 \<le> int PITCH_BUF_SIZE - int WINDOW_SIZE - t + int i" "int PITCH_BUF_SIZE - int WINDOW_SIZE - t + int i < int (length buf)"
    using assms i by (simp_all add: denoise_sizes)
  then show "\<exists>s'. (do { v \<leftarrow> rd buf (int PITCH_BUF_SIZE - int WINDOW_SIZE - t + int i); wr s (int i) v }) = Some s' \<and>
      length s' = WINDOW_SIZE"
    using i s by (simp add: rd_in wr_nat)
qed simp_all

lemma frame_features_total:
  fixes st :: "'a::{zero,one,plus,minus,uminus,times,inverse,ord,scaleR} DenoiseState"
  assumes E: "denoise_env_ok E" and st: "state_sizes st" and x: "FRAME_SIZE \<le> length inp"
  shows "\<exists>am buf t g X P e ep ex f r. rnn_compute_frame_features E st inp =
      Some (st\<lparr>analysis_mem := am, pitch_buf := buf, last_period := t, last_gain := g\<rparr>, X, P, e, ep, ex, f, r) \<and>
    length am = FRAME_SIZE \<and> length buf = PITCH_BUF_SIZE \<and> int PITCH_MIN_PERIOD \<le> t \<and> t < int PITCH_MAX_PERIOD \<and>
    length X = FREQ_SIZE \<and> length P = FREQ_SIZE \<and> length e = NB_BANDS \<and> length ep = NB_BANDS \<and> length ex = NB_BANDS \<and>
    length f = NB_FEATURES"
proof -
  have fs: "PITCH_BUF_SIZE = 1728" "FRAME_SIZE = 480" "FREQ_SIZE = 481" "NB_BANDS = 32" "NB_FEATURES = 65"
    "PITCH_MAX_PERIOD = 768" "PITCH_MIN_PERIOD = 60" "PITCH_FRAME_SIZE = 960" by (simp_all add: denoise_sizes)
  note sz = st [unfolded state_sizes_def]
  obtain am X e where a: "rnn_frame_analysis E st inp = Some (st\<lparr>analysis_mem := am\<rparr>, X, e)" "length am = FRAME_SIZE"
    "length X = FREQ_SIZE" "length e = NB_BANDS" using frame_analysis_total [OF E _ x, of st] sz by auto
  obtain buf where buf: "shift_pitch_buf (pitch_buf st) inp = Some buf" "length buf = PITCH_BUF_SIZE"
    using shift_pitch_buf_total [OF _ x] sz by blast
  obtain lp where lp: "rnn_pitch_downsample [buf] (replicate (PITCH_BUF_SIZE div 2) 0) PITCH_BUF_SIZE 1 = Some lp"
    "length lp = PITCH_BUF_SIZE div 2"
    using pitch_downsample_total [of PITCH_BUF_SIZE buf "replicate (PITCH_BUF_SIZE div 2) 0"] buf(2) fs by auto
  have "\<exists>q. rnn_pitch_search lp (int (PITCH_MAX_PERIOD div 2)) lp PITCH_FRAME_SIZE (PITCH_MAX_PERIOD - 3 * PITCH_MIN_PERIOD) = Some q \<and>
      0 \<le> q \<and> q \<le> int (PITCH_MAX_PERIOD - 3 * PITCH_MIN_PERIOD) - 2"
    by (rule pitch_search_range) (simp_all add: lp(2) fs)
  then obtain q where q: "rnn_pitch_search lp (int (PITCH_MAX_PERIOD div 2)) lp PITCH_FRAME_SIZE (PITCH_MAX_PERIOD - 3 * PITCH_MIN_PERIOD) = Some q"
    "0 \<le> q" "q \<le> int (PITCH_MAX_PERIOD - 3 * PITCH_MIN_PERIOD) - 2" by blast
  have "2 \<le> int PITCH_MAX_PERIOD - q" using q(3) fs by simp
  then obtain g t where gt: "rnn_remove_doubling (e_libm E) lp PITCH_MAX_PERIOD PITCH_MIN_PERIOD PITCH_FRAME_SIZE
      (int PITCH_MAX_PERIOD - q) (last_period st) (last_gain st) = Some (g, t)" "int PITCH_MIN_PERIOD \<le> t" "t < int PITCH_MAX_PERIOD"
    using remove_doubling_range [of PITCH_MAX_PERIOD PITCH_FRAME_SIZE lp PITCH_MIN_PERIOD "int PITCH_MAX_PERIOD - q" "e_libm E"
        "last_period st" "last_gain st"] lp(2) fs by fastforce
  obtain p where p: "ofold (\<lambda>i p. do { v \<leftarrow> rd buf (int PITCH_BUF_SIZE - int WINDOW_SIZE - t + int i); wr p (int i) v })
      [0..<WINDOW_SIZE] (replicate WINDOW_SIZE 0) = Some p" "length p = WINDOW_SIZE"
    using pitch_window_total [OF buf(2) gt(2,3)] by blast
  obtain p' where p': "apply_window p = Some p'" "length p' = WINDOW_SIZE" using apply_window_total [OF p(2)] by blast
  obtain P where P: "forward_transform (e_kfft E) p' = Some P" "length P = FREQ_SIZE"
    using forward_transform_total [of "e_kfft E" p'] E p'(2) by (auto simp: denoise_env_ok_def)
  obtain ep where ep: "compute_band_energy (e_ops E) P = Some ep" "length ep = NB_BANDS"
    using compute_band_energy_total [of P "e_ops E"] P(2) fs by auto
  obtain c where c: "compute_band_corr (e_ops E) X P = Some c" "length c = NB_BANDS"
    using compute_band_corr_total [of X P "e_ops E"] a(3) P(2) fs by auto
  let ?f = "\<lambda>i Ebxp. do {
         v \<leftarrow> rd Ebxp (int i);
         ex \<leftarrow> rd e (int i);
         ep \<leftarrow> rd ep (int i);
         wr Ebxp (int i) (v / c_sqrt (e_libm E) (lit 0.001 + ex * ep))
       }"
  obtain c' where c': "ofold ?f [0..<NB_BANDS] c = Some c'" "length c' = NB_BANDS"
    using band_loop_total [where f = ?f and r = c] a(4) ep(2) c(2) by (auto simp: rd_nat wr_nat)
  have tab: "NB_BANDS * NB_BANDS \<le> length (e_dct E)" using E by (simp add: denoise_env_ok_def)
  obtain f1 where f1: "dct E (replicate NB_FEATURES 0) NB_BANDS c' = Some f1" "length f1 = NB_FEATURES"
    using dct_total [OF _ _ _ tab, of c' NB_BANDS "replicate NB_FEATURES 0" NB_FEATURES] c'(2) fs by auto
  let ?v = "lit 0.01 * f_of_int (e_ops E) (t - 300)"
  have w: "wr f1 (int (2 * NB_BANDS)) ?v = Some (f1[2 * NB_BANDS := ?v])" using f1(2) fs by (intro wr_nat) simp
  obtain Ly en where ly: "log_energies (e_libm E) e = Some (Ly, en)" "length Ly = NB_BANDS"
    using log_energies_total [of e "e_libm E"] a(4) by auto
  obtain f2 where f2: "dct E (f1[2 * NB_BANDS := ?v]) 0 Ly = Some f2" "length f2 = NB_FEATURES"
    using dct_total [OF _ _ _ tab, of Ly 0 "f1[2 * NB_BANDS := ?v]" NB_FEATURES] ly(2) f1(2) fs by auto
  have r: "rd f2 0 = Some (f2 ! 0)" "wr f2 0 v = Some (f2[0 := v])"
    "rd (f2[0 := v]) 1 = Some (f2[0 := v] ! 1)" "wr (f2[0 := v]) 1 u = Some (f2[0 := v, 1 := u])" for v u
    using f2(2) fs rd_nat [of 0 f2] wr_nat [of 0 f2 v] rd_nat [of 1 "f2[0 := v]"] wr_nat [of 1 "f2[0 := v]" u] by simp_all
  have sel: "pitch_buf (st\<lparr>analysis_mem := am\<rparr>) = pitch_buf st"
    "last_period (st\<lparr>analysis_mem := am, pitch_buf := buf\<rparr>) = last_period st"
    "last_gain (st\<lparr>analysis_mem := am, pitch_buf := buf\<rparr>) = last_gain st" by simp_all
  have run: "rnn_compute_frame_features E st inp =
      (if en < lit 0.04 then Some (st\<lparr>analysis_mem := am, pitch_buf := buf, last_period := t, last_gain := g\<rparr>, X, P, e, ep, c', replicate NB_FEATURES 0, 1)
       else Some (st\<lparr>analysis_mem := am, pitch_buf := buf, last_period := t, last_gain := g\<rparr>, X, P, e, ep, c',
         f2[0 := f2 ! 0 - lit 12, 1 := f2[0 := f2 ! 0 - lit 12] ! 1 - lit 4], 0))"
    by (simp only: rnn_compute_frame_features_def a(1) Option.bind.simps(2) case_prod_conv Let_def sel
        buf(1) lp(1) q(1) gt(1) p(1) p'(1) P(1) ep(1) c(1) c'(1) f1(1) w ly(1) f2(1) r)
  let ?st = "st\<lparr>analysis_mem := am, pitch_buf := buf, last_period := t, last_gain := g\<rparr>"
  have "\<exists>f r. rnn_compute_frame_features E st inp = Some (?st, X, P, e, ep, c', f, r) \<and> length f = NB_FEATURES"
    unfolding run using f2(2) by simp
  then show ?thesis using a(2-4) buf(2) gt(2,3) P(2) ep(2) c'(2) by blast
qed

lemma frame_synthesis_total:
  assumes E: "denoise_env_ok E" and st: "length (synthesis_mem st) = FRAME_SIZE" and y: "length y = FREQ_SIZE"
  shows "\<exists>sm out. frame_synthesis E st y = Some (st\<lparr>synthesis_mem := sm\<rparr>, out) \<and> length sm = FRAME_SIZE \<and>
    length out = FRAME_SIZE"
proof -
  have fs: "FRAME_SIZE = 480" "WINDOW_SIZE = 960" by (simp_all add: denoise_sizes)
  obtain x where x: "inverse_transform (e_ops E) (e_kfft E) y = Some x" "length x = WINDOW_SIZE"
    using inverse_transform_total [of "e_kfft E" y "e_ops E"] E y by (auto simp: denoise_env_ok_def)
  obtain x' where x': "apply_window x = Some x'" "length x' = WINDOW_SIZE" using apply_window_total [OF x(2)] by blast
  have "\<exists>out. ofold (\<lambda>i out. do { a \<leftarrow> rd x' (int i); b \<leftarrow> rd (synthesis_mem st) (int i); wr out (int i) (a + b) }) [0..<FRAME_SIZE]
      (replicate FRAME_SIZE 0) = Some out \<and> length out = FRAME_SIZE"
    by (rule ofold_total) (use x'(2) st fs in \<open>auto simp: rd_nat wr_nat\<close>)
  then obtain out where out: "ofold (\<lambda>i out. do { a \<leftarrow> rd x' (int i); b \<leftarrow> rd (synthesis_mem st) (int i); wr out (int i) (a + b) })
      [0..<FRAME_SIZE] (replicate FRAME_SIZE 0) = Some out" "length out = FRAME_SIZE" by blast
  have "\<exists>sm. ofold (\<lambda>i sm. do { v \<leftarrow> rd x' (int (FRAME_SIZE + i)); wr sm (int i) v }) [0..<FRAME_SIZE] (synthesis_mem st) = Some sm \<and>
      length sm = FRAME_SIZE"
    by (rule copy_total [of _ "\<lambda>i. FRAME_SIZE + i" x' "\<lambda>i. i" "synthesis_mem st" FRAME_SIZE "\<lambda>v. v"]) (use x'(2) st fs in auto)
  then obtain sm where sm: "ofold (\<lambda>i sm. do { v \<leftarrow> rd x' (int (FRAME_SIZE + i)); wr sm (int i) v }) [0..<FRAME_SIZE] (synthesis_mem st) = Some sm"
    "length sm = FRAME_SIZE" by blast
  show ?thesis unfolding frame_synthesis_def x(1) x'(1) out(1) sm(1) Option.bind.simps(2) using out(2) sm(2) by blast
qed

lemma process_frame_inv:
  assumes E: "denoise_env_ok E" and st: "denoise_inv st" and x: "FRAME_SIZE \<le> length inp"
  shows "\<exists>st' out vad. rnnoise_process_frame E st inp = Some (st', out, vad) \<and> denoise_inv st' \<and>
    length out = FRAME_SIZE \<and> 0 \<le> vad \<and> vad \<le> 1 \<and> strength st' = strength st \<and> last_period st' \<noteq> 0"
proof -
  note inv = st [unfolded denoise_inv_def state_sizes_def]
  obtain hx hp where hp: "rnn_biquad (mem_hp_x st) inp [- lit 2, 1] [- lit 1.99599, lit 0.99600] FRAME_SIZE = Some (hx, hp)"
    "length hx = FRAME_SIZE" "length hp = 2" using rnn_biquad_total [OF x, of "mem_hp_x st" "- lit 2" 1 "- lit 1.99599" "lit 0.99600"] inv by auto
  let ?st1 = "st\<lparr>mem_hp_x := hp\<rparr>"
  have "state_sizes ?st1" using inv hp(3) by (simp add: state_sizes_def)
  then obtain am buf t g X P e ep ex f r where F: "rnn_compute_frame_features E ?st1 hx =
      Some (?st1\<lparr>analysis_mem := am, pitch_buf := buf, last_period := t, last_gain := g\<rparr>, X, P, e, ep, ex, f, r)"
    "length am = FRAME_SIZE" "length buf = PITCH_BUF_SIZE" "int PITCH_MIN_PERIOD \<le> t" "t < int PITCH_MAX_PERIOD"
    "length X = FREQ_SIZE" "length P = FREQ_SIZE" "length e = NB_BANDS" "length ep = NB_BANDS" "length ex = NB_BANDS"
    "length f = NB_FEATURES"
    using frame_features_total [OF E, of ?st1 hx] hp(2) by force
  let ?st2 = "?st1\<lparr>analysis_mem := am, pitch_buf := buf, last_period := t, last_gain := g\<rparr>"
  have mid: "\<exists>rn dX lg vad. (if r = 0 then do {
          (g, vad, rnn') \<leftarrow> compute_rnn (e_ops E) (st_model ?st2) (st_rnn ?st2) f;
          vad_prob \<leftarrow> rd vad 0;
          dX \<leftarrow> rnn_pitch_filter E (delayed_X ?st2) (delayed_P ?st2) (delayed_Ex ?st2) (delayed_Ep ?st2) (delayed_Exp ?st2) g;
          (g, lg) \<leftarrow> smooth_gains (strength ?st2) g (lastg ?st2);
          gf \<leftarrow> interp_band_gain (e_ops E) (1 # replicate (FREQ_SIZE - 1) 0) g;
          dX \<leftarrow> scale_bins gf dX;
          Some (?st2\<lparr>st_rnn := rnn', delayed_X := dX, lastg := lg\<rparr>, vad_prob)
        } else Some (?st2, 0)) = Some (?st2\<lparr>st_rnn := rn, delayed_X := dX, lastg := lg\<rparr>, vad) \<and>
      rnn_state_ok rn \<and> length dX = FREQ_SIZE \<and> length lg = NB_BANDS \<and> gain_range lg \<and> 0 \<le> vad \<and> vad \<le> 1"
  proof (cases "r = 0")
    case True
    have "CONV1_IN_SIZE \<le> length f" using F(11) by (simp add: denoise_sizes rnn_sizes)
    then obtain gs vad rn where rn: "compute_rnn (e_ops E) (st_model st) (st_rnn st) f = Some (gs, vad, rn)"
      "length gs = NB_BANDS" "gain_range gs" "length vad = 1" "gain_range vad" "rnn_state_ok rn"
      using compute_rnn_ok [of "st_model st" "st_rnn st" f "e_ops E"] inv by (auto simp: rnn_sizes denoise_sizes)
    have v: "rd vad 0 = Some (vad ! 0)" "0 \<le> vad ! 0" "vad ! 0 \<le> 1"
      using rn(4,5) rd_nat [of 0 vad] by (auto simp: gain_range_def)
    obtain Y where Y: "rnn_pitch_filter E (delayed_X st) (delayed_P st) (delayed_Ex st) (delayed_Ep st) (delayed_Exp st) gs = Some Y"
      "length Y = FREQ_SIZE" using rnn_pitch_filter_total [of "delayed_X st" "delayed_P st"] inv rn(2) by blast
    obtain g' lg where s: "smooth_gains (strength st) gs (lastg st) = Some (g', lg)" "length g' = NB_BANDS"
      "length lg = NB_BANDS" "gain_range lg" using smooth_gains_range [OF rn(2,3), of "lastg st" "strength st"] inv by auto
    obtain gf where gf: "interp_band_gain (e_ops E) (1 # replicate (FREQ_SIZE - 1) 0) g' = Some gf" "length gf = FREQ_SIZE"
      using interp_band_gain_total [of "1 # replicate (FREQ_SIZE - 1) 0" g' "e_ops E"] s(2) by (auto simp: denoise_sizes)
    obtain Z where Z: "scale_bins gf Y = Some Z" "length Z = FREQ_SIZE" using scale_bins_total [of gf Y] gf(2) Y(2) by auto
    show ?thesis using True rn(1,6) v Y(1) s(1,3,4) gf(1) Z by auto
  next
    case False
    then show ?thesis
      using inv by (intro exI [of _ "st_rnn st"] exI [of _ "delayed_X st"] exI [of _ "lastg st"] exI [of _ 0]) simp
  qed
  then obtain rn dX lg vad where M: "(if r = 0 then do {
          (g, vad, rnn') \<leftarrow> compute_rnn (e_ops E) (st_model ?st2) (st_rnn ?st2) f;
          vad_prob \<leftarrow> rd vad 0;
          dX \<leftarrow> rnn_pitch_filter E (delayed_X ?st2) (delayed_P ?st2) (delayed_Ex ?st2) (delayed_Ep ?st2) (delayed_Exp ?st2) g;
          (g, lg) \<leftarrow> smooth_gains (strength ?st2) g (lastg ?st2);
          gf \<leftarrow> interp_band_gain (e_ops E) (1 # replicate (FREQ_SIZE - 1) 0) g;
          dX \<leftarrow> scale_bins gf dX;
          Some (?st2\<lparr>st_rnn := rnn', delayed_X := dX, lastg := lg\<rparr>, vad_prob)
        } else Some (?st2, 0)) = Some (?st2\<lparr>st_rnn := rn, delayed_X := dX, lastg := lg\<rparr>, vad)"
    "rnn_state_ok rn" "length dX = FREQ_SIZE" "length lg = NB_BANDS" "gain_range lg" "0 \<le> vad" "vad \<le> 1" by blast
  let ?st3 = "?st2\<lparr>st_rnn := rn, delayed_X := dX, lastg := lg\<rparr>"
  obtain sm out where S: "frame_synthesis E ?st3 (delayed_X ?st3) = Some (?st3\<lparr>synthesis_mem := sm\<rparr>, out)"
    "length sm = FRAME_SIZE" "length out = FRAME_SIZE"
    using frame_synthesis_total [OF E, of ?st3 "delayed_X ?st3"] inv M(3) by auto
  let ?st4 = "?st3\<lparr>synthesis_mem := sm\<rparr>\<lparr>delayed_X := X, delayed_P := P, delayed_Ex := e, delayed_Ep := ep, delayed_Exp := ex\<rparr>"
  have run: "rnnoise_process_frame E st inp = Some (?st4, out, vad)"
    unfolding rnnoise_process_frame_def hp(1) Option.bind.simps(2) case_prod_conv Let_def F(1) M(1) S(1) ..
  have "t \<noteq> 0" using F(4) by (auto simp: denoise_sizes)
  moreover have "denoise_inv ?st4"
    using inv hp(3) F(2-10) M(2,4,5) S(2) by (simp add: denoise_inv_def state_sizes_def)
  ultimately show ?thesis using run M(6,7) S(3)
    by (intro exI [of _ ?st4] exI [of _ out] exI [of _ vad]) simp
qed

end
