(* ===== verification/Rnn_Denoise_Exact.thy ===== *)
theory Rnn_Denoise_Exact
  imports Rnn_Denoise_Safe
begin

text \<open>
  The values analysis and synthesis compute in exact arithmetic, with exact twiddle factors: without
  suppression the input comes back, scaled by \<open>(960 s)\<^sup>2\<close> for the scale \<open>s\<close> of the plan.
\<close>

section \<open>Loops that fill an array\<close>

lemma fill_loop:
  assumes "\<And>i ys. i < n \<Longrightarrow> length ys = length xs \<Longrightarrow> f i ys = Some (ys[p + i := F i])" "p + n \<le> length xs"
  shows "\<exists>ys. ofold f [0..<n] xs = Some ys \<and> length ys = length xs \<and>
    (\<forall>k<length xs. ys ! k = (if p \<le> k \<and> k < p + n then F (k - p) else xs ! k))"
proof -
  have "ofold f [0..<n] xs = Some (seg_upd xs p n (\<lambda>k. F (k - p)))"
    by (rule ofold_seg) (use assms in simp_all)
  then show ?thesis by simp
qed

lemma forward_values:
  fixes x :: "real list"
  assumes K: "fft_state_ok ps K" "nfft K = WINDOW_SIZE" and x: "length x = WINDOW_SIZE"
  shows "\<exists>X. forward_transform K x = Some X \<and> length X = FREQ_SIZE \<and>
    (\<forall>k<FREQ_SIZE. to_c (X ! k) = scale K * dft WINDOW_SIZE (\<lambda>n. x ! n) k)"
proof -
  let ?z = "\<lparr>cr = 0, ci = 0\<rparr>"
  obtain y where y: "ofold (\<lambda>i y. do { v \<leftarrow> rd x (int i); wr y (int i) \<lparr>cr = v, ci = 0\<rparr> }) [0..<WINDOW_SIZE]
      (replicate WINDOW_SIZE ?z) = Some y" "length y = WINDOW_SIZE" "\<forall>k<WINDOW_SIZE. y ! k = \<lparr>cr = x ! k, ci = 0\<rparr>"
    using fill_loop [of WINDOW_SIZE "replicate WINDOW_SIZE ?z"
        "\<lambda>i y. do { v \<leftarrow> rd x (int i); wr y (int i) \<lparr>cr = v, ci = 0\<rparr> }" 0 "\<lambda>i. \<lparr>cr = x ! i, ci = 0\<rparr>"] x
    by (auto simp: rd_nat wr_nat)
  obtain z where z: "rnn_fft_c K y (replicate WINDOW_SIZE ?z) = Some z" "length z = WINDOW_SIZE"
    "\<forall>k<WINDOW_SIZE. to_c (z ! k) = scale K * (\<Sum>n<WINDOW_SIZE. wn WINDOW_SIZE (n * k) * to_c (y ! n))"
    using rnn_fft_run [OF K(1), of y "replicate WINDOW_SIZE ?z"] K(2) y(2) by auto
  have fs: "FREQ_SIZE \<le> WINDOW_SIZE" by (simp add: denoise_sizes)
  obtain X where X: "ofold (\<lambda>i out. do { v \<leftarrow> rd z (int i); wr out (int i) v }) [0..<FREQ_SIZE] (replicate FREQ_SIZE ?z) = Some X"
    "length X = FREQ_SIZE" "\<forall>k<FREQ_SIZE. X ! k = z ! k"
    using fill_loop [of FREQ_SIZE "replicate FREQ_SIZE ?z" "\<lambda>i y. do { v \<leftarrow> rd z (int i); wr y (int i) v }" 0 "\<lambda>i. z ! i"] z(2) fs
    by (auto simp: rd_nat wr_nat)
  have "to_c (X ! k) = scale K * dft WINDOW_SIZE (\<lambda>n. x ! n) k" if "k < FREQ_SIZE" for k
  proof -
    have "to_c (y ! n) = complex_of_real (x ! n)" if "n < WINDOW_SIZE" for n
      using y(3) that by (simp add: to_c_def complex_eq_iff)
    then show ?thesis using X(3) z(3) that fs by (simp add: dft_def)
  qed
  then show ?thesis unfolding forward_transform_def y(1) z(1) X(1) Option.bind.simps(2) using X(2) by blast
qed

lemma dft_real_symmetric:
  assumes "0 < N" "k \<le> N"
  shows "dft N (\<lambda>n. complex_of_real (x n)) (N - k) = cnj (dft N (\<lambda>n. complex_of_real (x n)) k)"
proof -
  have "wn N (n * (N - k)) = cnj (wn N (n * k))" for n
  proof -
    have "wn N (n * (N - k)) * wn N (n * k) = wn N (n * N)"
      using assms(2) wn_add [of N "n * (N - k)" "n * k"] by (simp add: diff_mult_distrib2 mult_le_mono2)
    then have "wn N (n * (N - k)) * wn N (n * k) = 1" using wn_period [of N n] by simp
    moreover have "cnj (wn N (n * k)) * wn N (n * k) = 1" by (simp add: wn_def cis_cnj cis_mult)
    moreover have "wn N (n * k) \<noteq> 0" by (simp add: wn_def)
    ultimately show ?thesis by (metis mult_right_cancel)
  qed
  then show ?thesis by (simp add: dft_def)
qed

lemma dft_inversion:
  assumes "i < N"
  shows "(\<Sum>k<N. cnj (wn N (k * i)) * dft N x k) = of_nat N * x i"
proof -
  have "(\<Sum>k<N. cnj (wn N (k * i)) * dft N x k) = (\<Sum>k<N. \<Sum>n<N. cnj (wn N (k * i)) * wn N (k * n) * x n)"
    by (simp add: dft_def sum_distrib_left algebra_simps)
  also have "\<dots> = (\<Sum>n<N. (\<Sum>k<N. cnj (wn N (k * i)) * wn N (k * n)) * x n)"
    by (subst sum.swap) (simp add: sum_distrib_right)
  also have "\<dots> = (\<Sum>n<N. if n = i then of_nat N * x i else 0)"
    by (intro sum.cong) (use assms in \<open>auto simp: wn_orthogonal\<close>)
  also have "\<dots> = of_nat N * x i" using assms by simp
  finally show ?thesis .
qed

lemma inverse_values:
  fixes x :: "nat \<Rightarrow> real"
  assumes K: "fft_state_ok ps K" "nfft K = WINDOW_SIZE" and P: "f_of_int P = real_of_int"
    and X: "length X = FREQ_SIZE" "\<forall>k<FREQ_SIZE. to_c (X ! k) = c * dft WINDOW_SIZE (\<lambda>n. x n) k" and c: "c = complex_of_real r"
  shows "\<exists>y. inverse_transform P K X = Some y \<and> length y = WINDOW_SIZE \<and>
    (\<forall>i<WINDOW_SIZE. y ! i = WINDOW_SIZE * scale K * (r * (WINDOW_SIZE * x i)))"
proof -
  have fs: "FREQ_SIZE = 481" "WINDOW_SIZE = 960" by (simp_all add: denoise_sizes)
  let ?z = "\<lparr>cr = 0, ci = 0\<rparr>"
  obtain x1 where x1: "ofold (\<lambda>i x. do { v \<leftarrow> rd X (int i); wr x (int i) v }) [0..<FREQ_SIZE] (replicate WINDOW_SIZE ?z) = Some x1"
    "length x1 = WINDOW_SIZE" "\<forall>k<WINDOW_SIZE. k < FREQ_SIZE \<longrightarrow> x1 ! k = X ! k"
    using fill_loop [of FREQ_SIZE "replicate WINDOW_SIZE ?z" "\<lambda>i y. do { v \<leftarrow> rd X (int i); wr y (int i) v }" 0 "\<lambda>i. X ! i"] X(1) fs
    by (auto simp: rd_nat wr_nat)
  let ?f = "\<lambda>i x. do { v \<leftarrow> rd x (int (WINDOW_SIZE - i)); wr x (int i) \<lparr>cr = cr v, ci = - ci v\<rparr> }"
  let ?P = "\<lambda>i x2. length x2 = WINDOW_SIZE \<and>
      (\<forall>k<i. to_c (x2 ! k) = c * dft WINDOW_SIZE (\<lambda>n. x n) k)"
  have "\<exists>x2. ofold ?f [FREQ_SIZE..<WINDOW_SIZE] x1 = Some x2 \<and> ?P WINDOW_SIZE x2"
  proof (rule ofold_inv_from [where P = ?P])
    show "?P FREQ_SIZE x1" using x1(2,3) X(2) fs by auto
    fix i and s :: "real cpx list" assume i: "FREQ_SIZE \<le> i" "i < WINDOW_SIZE" and s: "?P i s"
    let ?v = "s ! (WINDOW_SIZE - i)"
    have "WINDOW_SIZE - i < i" using i fs by simp
    then have v: "to_c ?v = c * dft WINDOW_SIZE (\<lambda>n. x n) (WINDOW_SIZE - i)" using s by blast
    have "to_c \<lparr>cr = cr ?v, ci = - ci ?v\<rparr> = cnj (to_c ?v)" by (simp add: to_c_def complex_eq_iff)
    also have "\<dots> = c * dft WINDOW_SIZE (\<lambda>n. x n) i"
      unfolding v using dft_real_symmetric [of WINDOW_SIZE "i" x] i fs c by simp
    finally have new: "to_c \<lparr>cr = cr ?v, ci = - ci ?v\<rparr> = c * dft WINDOW_SIZE (\<lambda>n. x n) i" .
    have "?f i s = Some (s[i := \<lparr>cr = cr ?v, ci = - ci ?v\<rparr>])"
      using s i fs by (simp add: rd_nat wr_nat del: of_nat_diff)
    moreover have "?P (Suc i) (s[i := \<lparr>cr = cr ?v, ci = - ci ?v\<rparr>])"
      using s new i by (auto simp: nth_list_update less_Suc_eq)
    ultimately show "\<exists>s'. ?f i s = Some s' \<and> ?P (Suc i) s'" by blast
  qed (simp add: fs)
  then obtain x2 where x2: "ofold ?f [FREQ_SIZE..<WINDOW_SIZE] x1 = Some x2" "length x2 = WINDOW_SIZE"
    "\<forall>k<WINDOW_SIZE. to_c (x2 ! k) = c * dft WINDOW_SIZE (\<lambda>n. x n) k" by blast
  obtain y where y: "rnn_fft_c K x2 (replicate WINDOW_SIZE ?z) = Some y" "length y = WINDOW_SIZE"
    "\<forall>k<WINDOW_SIZE. to_c (y ! k) = scale K * (\<Sum>n<WINDOW_SIZE. wn WINDOW_SIZE (n * k) * to_c (x2 ! n))"
    using rnn_fft_run [OF K(1), of x2 "replicate WINDOW_SIZE ?z"] K(2) x2(2) by auto
  have val: "cr (y ! k) = scale K * (r * (WINDOW_SIZE * x i))"
    if "i < WINDOW_SIZE" "k < WINDOW_SIZE" "\<And>n. wn WINDOW_SIZE (n * k) = cnj (wn WINDOW_SIZE (n * i))" for i k
  proof -
    have "to_c (y ! k) = scale K * (c * (\<Sum>n<WINDOW_SIZE. cnj (wn WINDOW_SIZE (n * i)) * dft WINDOW_SIZE (\<lambda>n. x n) n))"
      using y(3) x2(3) that(2,3) by (simp add: sum_distrib_left algebra_simps)
    also have "\<dots> = scale K * (c * (WINDOW_SIZE * x i))" unfolding dft_inversion [OF that(1)] by simp
    finally have "to_c (y ! k) = complex_of_real (scale K * (r * (WINDOW_SIZE * x i)))" using c by simp
    then show ?thesis by (metis Re_complex_of_real to_c_parts(1))
  qed
  have y0: "rd y 0 = Some (y ! 0)" using y(2) fs by (intro rd_at) simp_all
  have w0: "wr (replicate WINDOW_SIZE (0::real)) 0 v = Some ((replicate WINDOW_SIZE 0)[0 := v])" for v
    using fs wr_nat [of 0 "replicate WINDOW_SIZE (0::real)" v] by simp
  let ?val = "\<lambda>i. WINDOW_SIZE * (scale K * (r * (WINDOW_SIZE * x i)))"
  let ?g = "\<lambda>i out. do { v \<leftarrow> rd y (int (WINDOW_SIZE - i)); wr out (int i) (f_of_int P (int WINDOW_SIZE) * cr v) }"
  let ?Q = "\<lambda>i out. length out = WINDOW_SIZE \<and> (\<forall>k<i. out ! k = ?val k)"
  have cnj_index: "wn WINDOW_SIZE (n * (WINDOW_SIZE - i)) = cnj (wn WINDOW_SIZE (n * i))" if "i \<le> WINDOW_SIZE" for n i
  proof -
    have "wn WINDOW_SIZE (n * (WINDOW_SIZE - i)) * wn WINDOW_SIZE (n * i) = 1"
      using that wn_add [of WINDOW_SIZE "n * (WINDOW_SIZE - i)" "n * i"] wn_period [of WINDOW_SIZE n]
      by (simp add: diff_mult_distrib2 mult_le_mono2)
    moreover have "cnj (wn WINDOW_SIZE (n * i)) * wn WINDOW_SIZE (n * i) = 1" by (simp add: wn_def cis_cnj cis_mult)
    moreover have "wn WINDOW_SIZE (n * i) \<noteq> 0" by (simp add: wn_def)
    ultimately show ?thesis by (metis mult_right_cancel)
  qed
  have "\<exists>out. ofold ?g [1..<WINDOW_SIZE] ((replicate WINDOW_SIZE 0)[0 := f_of_int P (int WINDOW_SIZE) * cr (y ! 0)]) = Some out \<and>
      ?Q WINDOW_SIZE out"
  proof (rule ofold_inv_from [where P = ?Q])
    have "cr (y ! 0) = scale K * (r * (WINDOW_SIZE * x 0))" using val [of 0 0] fs by simp
    then show "?Q 1 ((replicate WINDOW_SIZE 0)[0 := f_of_int P (int WINDOW_SIZE) * cr (y ! 0)])" using fs P by simp
    fix i and s :: "real list" assume i: "1 \<le> i" "i < WINDOW_SIZE" and s: "?Q i s"
    have "cr (y ! (WINDOW_SIZE - i)) = scale K * (r * (WINDOW_SIZE * x i))"
      using val [of i "WINDOW_SIZE - i"] cnj_index [of i] i by simp
    then have "?g i s = Some (s[i := ?val i])" using s i y(2) P by (simp add: rd_nat wr_nat del: of_nat_diff)
    moreover have "?Q (Suc i) (s[i := ?val i])" using s i by (auto simp: nth_list_update less_Suc_eq)
    ultimately show "\<exists>s'. ?g i s = Some s' \<and> ?Q (Suc i) s'" by blast
  qed (simp add: fs)
  then obtain out where out: "ofold ?g [1..<WINDOW_SIZE] ((replicate WINDOW_SIZE 0)[0 := f_of_int P (int WINDOW_SIZE) * cr (y ! 0)]) = Some out"
    "?Q WINDOW_SIZE out" by blast
  then show ?thesis unfolding inverse_transform_def x1(1) x2(1) y(1) y0 w0 Option.bind.simps(2) by (auto simp: mult.assoc)
qed

section \<open>The window\<close>

definition win :: "nat \<Rightarrow> real" where
  "win i = (if i < FRAME_SIZE then rnn_half_window ! i else rnn_half_window ! (WINDOW_SIZE - 1 - i))"

lemma apply_window_values:
  assumes "length x = WINDOW_SIZE"
  shows "\<exists>y. apply_window x = Some y \<and> length y = WINDOW_SIZE \<and> (\<forall>i<WINDOW_SIZE. y ! i = x ! i * win i)"
proof -
  have fs: "FRAME_SIZE = 480" "WINDOW_SIZE = 960" by (simp_all add: denoise_sizes)
  let ?f = "\<lambda>i x. do { w \<leftarrow> rd rnn_half_window (int i); a \<leftarrow> rd x (int i); x \<leftarrow> wr x (int i) (a * w);
      b \<leftarrow> rd x (int WINDOW_SIZE - 1 - int i); wr x (int WINDOW_SIZE - 1 - int i) (b * w) }"
  let ?P = "\<lambda>k y. length y = WINDOW_SIZE \<and>
      (\<forall>i<WINDOW_SIZE. y ! i = (if i < k \<or> WINDOW_SIZE - 1 - i < k then x ! i * win i else x ! i))"
  have "\<exists>y. ofold ?f [0..<FRAME_SIZE] x = Some y \<and> ?P FRAME_SIZE y"
  proof (rule ofold_inv [where P = ?P])
    fix k and s :: "real list" assume k: "k < FRAME_SIZE" and s: "?P k s"
    let ?j = "WINDOW_SIZE - 1 - k" and ?w = "rnn_half_window ! k"
    have len: "length s = WINDOW_SIZE" and cell: "\<And>i. i < WINDOW_SIZE \<Longrightarrow>
        s ! i = (if i < k \<or> WINDOW_SIZE - 1 - i < k then x ! i * win i else x ! i)" using s by blast+
    have idx: "int WINDOW_SIZE - 1 - int k = int ?j" "?j \<noteq> k" "?j < WINDOW_SIZE" "k < WINDOW_SIZE" "\<not> ?j < FRAME_SIZE"
      "WINDOW_SIZE - 1 - ?j = k" using k fs by auto
    have w: "win k = ?w" "win ?j = ?w" using k idx by (simp_all add: win_def)
    have old: "s ! k = x ! k" "s ! ?j = x ! ?j" using cell [of k] cell [of ?j] idx k fs by auto
    let ?s = "s[k := x ! k * win k, ?j := x ! ?j * win ?j]"
    have run: "?f k s = Some ?s"
      unfolding idx(1) window_cell [OF k] using len idx old w by (simp add: rd_nat wr_nat del: of_nat_diff)
    have "?s ! i = (if i < Suc k \<or> WINDOW_SIZE - 1 - i < Suc k then x ! i * win i else x ! i)" if i: "i < WINDOW_SIZE" for i
    proof -
      consider "i = k" | "i = ?j" | "i \<noteq> k" "i \<noteq> ?j" by blast
      then show ?thesis
      proof cases
        case 1 then show ?thesis using len idx by (simp add: nth_list_update)
      next
        case 2 then show ?thesis using len idx by (simp add: nth_list_update)
      next
        case 3
        then have "i < Suc k \<longleftrightarrow> i < k" "WINDOW_SIZE - 1 - i < Suc k \<longleftrightarrow> WINDOW_SIZE - 1 - i < k" using i idx by auto
        then show ?thesis using 3 cell [OF i] by (simp add: nth_list_update)
      qed
    qed
    then have "?P (Suc k) ?s" using len by simp
    then show "\<exists>s'. ?f k s = Some s' \<and> ?P (Suc k) s'" unfolding run by blast
  qed (use assms in simp)
  then obtain y where y: "apply_window x = Some y" "length y = WINDOW_SIZE"
    "\<forall>i<WINDOW_SIZE. y ! i = (if i < FRAME_SIZE \<or> WINDOW_SIZE - 1 - i < FRAME_SIZE then x ! i * win i else x ! i)"
    unfolding apply_window_def by blast
  have "y ! i = x ! i * win i" if "i < WINDOW_SIZE" for i
  proof -
    have "i < FRAME_SIZE \<or> WINDOW_SIZE - 1 - i < FRAME_SIZE" using fs that by auto
    then show ?thesis using y(3) that by simp
  qed
  then show ?thesis using y(1,2) by blast
qed

lemma win_complement:
  assumes "i < FRAME_SIZE"
  shows "\<bar>(win i)\<^sup>2 + (win (FRAME_SIZE + i))\<^sup>2 - 1\<bar> < 0.0000002"
proof -
  have "i < 480" "WINDOW_SIZE - 1 - (FRAME_SIZE + i) = 479 - i" using assms by (simp_all add: denoise_sizes)
  then show ?thesis using half_window_squares [of i] assms by (simp add: win_def)
qed

section \<open>Analysis and synthesis\<close>

lemma analysis_values:
  fixes st :: "real DenoiseState"
  assumes K: "fft_state_ok ps (e_kfft E)" "nfft (e_kfft E) = WINDOW_SIZE"
    and st: "length (analysis_mem st) = FRAME_SIZE" and x: "length inp = FRAME_SIZE"
  shows "\<exists>X e. rnn_frame_analysis E st inp = Some (st\<lparr>analysis_mem := inp\<rparr>, X, e) \<and> length X = FREQ_SIZE \<and>
    (\<forall>k<FREQ_SIZE. to_c (X ! k) =
      scale (e_kfft E) * dft WINDOW_SIZE (\<lambda>n. (analysis_mem st @ inp) ! n * win n) k)"
proof -
  have fs: "FRAME_SIZE = 480" "WINDOW_SIZE = 960" "FREQ_SIZE = 481" by (simp_all add: denoise_sizes)
  obtain x1 where x1: "ofold (\<lambda>i x. do { v \<leftarrow> rd (analysis_mem st) (int i); wr x (int i) v }) [0..<FRAME_SIZE]
      (replicate WINDOW_SIZE 0) = Some x1" "length x1 = WINDOW_SIZE" "\<forall>k<FRAME_SIZE. x1 ! k = analysis_mem st ! k"
    using fill_loop [of FRAME_SIZE "replicate WINDOW_SIZE 0" "\<lambda>i y. do { v \<leftarrow> rd (analysis_mem st) (int i); wr y (int i) v }" 0
        "\<lambda>i. analysis_mem st ! i"] st fs by (auto simp: rd_nat wr_nat)
  have "\<exists>ys. ofold (\<lambda>i x. do { v \<leftarrow> rd inp (int i); wr x (int (FRAME_SIZE + i)) v }) [0..<FRAME_SIZE] x1 = Some ys \<and> length ys = length x1 \<and>
    (\<forall>k<length x1. ys ! k = (if FRAME_SIZE \<le> k \<and> k < FRAME_SIZE + FRAME_SIZE then inp ! (k - FRAME_SIZE) else x1 ! k))"
    by (rule fill_loop) (use x x1(2) fs in \<open>auto simp: rd_nat wr_nat simp del: of_nat_add\<close>)
  then obtain x2 where x2: "ofold (\<lambda>i x. do { v \<leftarrow> rd inp (int i); wr x (int (FRAME_SIZE + i)) v }) [0..<FRAME_SIZE] x1 = Some x2"
    "length x2 = WINDOW_SIZE" "\<forall>k<WINDOW_SIZE. x2 ! k = (if FRAME_SIZE \<le> k \<and> k < FRAME_SIZE + FRAME_SIZE then inp ! (k - FRAME_SIZE) else x1 ! k)"
    unfolding x1(2) by blast
  have joined: "x2 ! k = (analysis_mem st @ inp) ! k" if "k < WINDOW_SIZE" for k
    using x2(3) x1(3) that st fs by (auto simp: nth_append)
  obtain am where am: "ofold (\<lambda>i am. do { v \<leftarrow> rd inp (int i); wr am (int i) v }) [0..<FRAME_SIZE] (analysis_mem st) = Some am"
    "length am = FRAME_SIZE" "\<forall>k<FRAME_SIZE. am ! k = inp ! k"
    using fill_loop [of FRAME_SIZE "analysis_mem st" "\<lambda>i y. do { v \<leftarrow> rd inp (int i); wr y (int i) v }" 0 "\<lambda>i. inp ! i"] st x
    by (auto simp: rd_nat wr_nat)
  have am_eq: "am = inp" using am(2,3) x by (intro nth_equalityI) auto
  obtain x3 where x3: "apply_window x2 = Some x3" "length x3 = WINDOW_SIZE" "\<forall>i<WINDOW_SIZE. x3 ! i = x2 ! i * win i"
    using apply_window_values [OF x2(2)] by blast
  obtain X where X: "forward_transform (e_kfft E) x3 = Some X" "length X = FREQ_SIZE"
    "\<forall>k<FREQ_SIZE. to_c (X ! k) = scale (e_kfft E) * dft WINDOW_SIZE (\<lambda>n. x3 ! n) k"
    using forward_values [OF K x3(2)] by blast
  have same: "dft WINDOW_SIZE (\<lambda>n. x3 ! n) k = dft WINDOW_SIZE (\<lambda>n. (analysis_mem st @ inp) ! n * win n) k" for k
    using x3(3) joined by (simp add: dft_def)
  obtain e where e: "compute_band_energy (e_ops E) X = Some e"
    using compute_band_energy_total [of X "e_ops E"] X(2) fs by auto
  show ?thesis unfolding rnn_frame_analysis_def x1(1) x2(1) am(1) x3(1) X(1) e Option.bind.simps(2) am_eq
    using X(2,3) same by simp
qed

text \<open>The gain of analysis and synthesis together.\<close>

definition chain_gain :: "real fft_state \<Rightarrow> real" where
  "chain_gain K = (WINDOW_SIZE * scale K)\<^sup>2"

lemma synthesis_values:
  fixes st :: "real DenoiseState"
  assumes K: "fft_state_ok ps (e_kfft E)" "nfft (e_kfft E) = WINDOW_SIZE" and P: "f_of_int (e_ops E) = real_of_int"
    and st: "length (synthesis_mem st) = FRAME_SIZE" and X: "length X = FREQ_SIZE"
      "\<forall>k<FREQ_SIZE. to_c (X ! k) = scale (e_kfft E) * dft WINDOW_SIZE (\<lambda>n. x n) k"
  shows "\<exists>sm out. frame_synthesis E st X = Some (st\<lparr>synthesis_mem := sm\<rparr>, out) \<and> length sm = FRAME_SIZE \<and> length out = FRAME_SIZE \<and>
    (\<forall>i<FRAME_SIZE. out ! i = chain_gain (e_kfft E) * x i * win i + synthesis_mem st ! i \<and>
      sm ! i = chain_gain (e_kfft E) * x (FRAME_SIZE + i) * win (FRAME_SIZE + i))"
proof -
  have fs: "FRAME_SIZE = 480" "WINDOW_SIZE = 960" by (simp_all add: denoise_sizes)
  obtain y where y: "inverse_transform (e_ops E) (e_kfft E) X = Some y" "length y = WINDOW_SIZE"
    "\<forall>i<WINDOW_SIZE. y ! i = WINDOW_SIZE * scale (e_kfft E) * (scale (e_kfft E) * (WINDOW_SIZE * x i))"
    using inverse_values [OF K P X refl] by blast
  have yv: "y ! i = chain_gain (e_kfft E) * x i" if "i < WINDOW_SIZE" for i
    using y(3) that by (simp add: chain_gain_def power2_eq_square)
  obtain z where z: "apply_window y = Some z" "length z = WINDOW_SIZE" "\<forall>i<WINDOW_SIZE. z ! i = y ! i * win i"
    using apply_window_values [OF y(2)] by blast
  have "\<exists>ys. ofold (\<lambda>i out. do { a \<leftarrow> rd z (int i); b \<leftarrow> rd (synthesis_mem st) (int i); wr out (int i) (a + b) }) [0..<FRAME_SIZE]
      (replicate FRAME_SIZE 0) = Some ys \<and> length ys = length (replicate FRAME_SIZE (0::real)) \<and>
      (\<forall>k<length (replicate FRAME_SIZE (0::real)). ys ! k = (if 0 \<le> k \<and> k < 0 + FRAME_SIZE then z ! (k - 0) + synthesis_mem st ! (k - 0)
        else replicate FRAME_SIZE 0 ! k))"
    by (rule fill_loop) (use z(2) st fs in \<open>auto simp: rd_nat wr_nat\<close>)
  then obtain out where out: "ofold (\<lambda>i out. do { a \<leftarrow> rd z (int i); b \<leftarrow> rd (synthesis_mem st) (int i); wr out (int i) (a + b) }) [0..<FRAME_SIZE]
      (replicate FRAME_SIZE 0) = Some out" "length out = FRAME_SIZE" "\<forall>k<FRAME_SIZE. out ! k = z ! k + synthesis_mem st ! k" by auto
  have "\<exists>ys. ofold (\<lambda>i sm. do { v \<leftarrow> rd z (int (FRAME_SIZE + i)); wr sm (int i) v }) [0..<FRAME_SIZE] (synthesis_mem st) = Some ys \<and>
      length ys = length (synthesis_mem st) \<and> (\<forall>k<length (synthesis_mem st). ys ! k =
        (if 0 \<le> k \<and> k < 0 + FRAME_SIZE then z ! (FRAME_SIZE + (k - 0)) else synthesis_mem st ! k))"
    by (rule fill_loop) (use z(2) st fs in \<open>auto simp: rd_nat wr_nat simp del: of_nat_add\<close>)
  then obtain sm where sm: "ofold (\<lambda>i sm. do { v \<leftarrow> rd z (int (FRAME_SIZE + i)); wr sm (int i) v }) [0..<FRAME_SIZE] (synthesis_mem st) = Some sm"
    "length sm = FRAME_SIZE" "\<forall>k<FRAME_SIZE. sm ! k = z ! (FRAME_SIZE + k)" using st by auto
  have "out ! i = chain_gain (e_kfft E) * x i * win i + synthesis_mem st ! i \<and>
      sm ! i = chain_gain (e_kfft E) * x (FRAME_SIZE + i) * win (FRAME_SIZE + i)" if "i < FRAME_SIZE" for i
    using out(3) sm(3) z(3) yv [of i] yv [of "FRAME_SIZE + i"] that fs by simp
  then show ?thesis unfolding frame_synthesis_def y(1) z(1) out(1) sm(1) Option.bind.simps(2) using out(2) sm(2) by blast
qed

text \<open>Two frames analysed, then both synthesised, as \<open>rnnoise_process_frame\<close> does one frame behind.\<close>

definition two_frames :: "real denoise_env \<Rightarrow> real DenoiseState \<Rightarrow> real list \<Rightarrow> real list \<Rightarrow> real list option" where
  "two_frames E st f1 f2 = do {
     (st, X1, e1) \<leftarrow> rnn_frame_analysis E st f1;
     (st, X2, e2) \<leftarrow> rnn_frame_analysis E st f2;
     (st, o1) \<leftarrow> frame_synthesis E st X1;
     (st, o2) \<leftarrow> frame_synthesis E st X2;
     Some o2
   }"

lemma static_plan_exact: "twiddles_ok 960 tw \<Longrightarrow> fft_state_ok kfft_radices (rnn_kfft tw)"
proof -
  assume tw: "twiddles_ok 960 tw"
  have "nfft (rnn_kfft tw) = 960" "shift (rnn_kfft tw) = - 1" "bitrev (rnn_kfft tw) = fft_bitrev" "twiddles (rnn_kfft tw) = tw"
    by (simp_all add: rnn_kfft_def)
  then show ?thesis using tw kfft_table [of tw] prod_radices length_fft_bitrev
    by (simp add: fft_state_ok_def fft_bitrev_positions kfft_radices_def [symmetric])
qed

lemma overlap_add_error:
  fixes v :: real
  assumes w: "\<bar>a + b - 1\<bar> < 0.0000002" and c: "\<bar>c - 1\<bar> \<le> 0.00000007"
  shows "\<bar>c * v * a + c * v * b - v\<bar> \<le> 0.0000003 * \<bar>v\<bar>"
proof -
  have "c * v * a + c * v * b - v = v * ((c - 1) + c * (a + b - 1))" by (simp add: algebra_simps)
  moreover have "\<bar>(c - 1) + c * (a + b - 1)\<bar> \<le> 0.0000003"
  proof -
    have "\<bar>c\<bar> \<le> \<bar>c - 1\<bar> + 1" by linarith
    also have "\<dots> \<le> 0.00000007 + 1" using c by (rule add_right_mono)
    also have "\<dots> \<le> (1.0000001::real)" by simp
    finally have "\<bar>c\<bar> * \<bar>a + b - 1\<bar> \<le> 1.0000001 * 0.0000002" using w by (intro mult_mono) simp_all
    then have "\<bar>c * (a + b - 1)\<bar> \<le> 1.0000001 * 0.0000002" by (simp only: abs_mult)
    moreover have "\<bar>(c - 1) + c * (a + b - 1)\<bar> \<le> \<bar>c - 1\<bar> + \<bar>c * (a + b - 1)\<bar>" by (rule abs_triangle_ineq)
    ultimately have "\<bar>(c - 1) + c * (a + b - 1)\<bar> \<le> 0.00000007 + 1.0000001 * 0.0000002"
      using c by (meson add_mono order_trans)
    also have "\<dots> \<le> (0.0000003::real)" by simp
    finally show ?thesis .
  qed
  ultimately have "\<bar>c * v * a + c * v * b - v\<bar> \<le> \<bar>v\<bar> * 0.0000003"
    by (simp only: abs_mult) (intro mult_left_mono, simp_all)
  then show ?thesis by (simp add: mult.commute)
qed


definition exact_env :: "real denoise_env" where
  "exact_env = \<lparr>e_ops = real_ops, e_libm = \<lparr>c_sqrt = sqrt, c_log10 = \<lambda>x. x\<rparr>,
     e_kfft = rnn_kfft (compute_twiddles real_ops real_trig 960), e_dct = replicate (NB_BANDS * NB_BANDS) 0,
     e_arrays = [], e_init_rnnoise = \<lambda>_. (0, empty_model)\<rparr>"


section \<open>Any sequence of calls\<close>

text \<open>The states a client of \<open>rnnoise.h\<close> can have, from a successful creation on.\<close>

inductive denoise_reach :: "real denoise_env \<Rightarrow> real DenoiseState \<Rightarrow> bool" for E where
  created: "rnnoise_create E True model = Some (Some st) \<Longrightarrow> denoise_reach E st"
| strength_set: "denoise_reach E st \<Longrightarrow> denoise_reach E (rnnoise_set_strength st v)"
| was_reset: "denoise_reach E st \<Longrightarrow> rnnoise_reset E (Some st) = Some (Some st') \<Longrightarrow> denoise_reach E st'"
| processed: "denoise_reach E st \<Longrightarrow> FRAME_SIZE \<le> length inp \<Longrightarrow> rnnoise_process_frame E st inp = Some (st', out, vad) \<Longrightarrow>
    denoise_reach E st'"

text \<open>
  What the calls rely on of \<open>rnnoise_data.c\<close>: a model it accepts has the layers of \<open>rnnoise_data.h\<close>, and it accepts
  the built-in weights.
\<close>

definition init_ok :: "real denoise_env \<Rightarrow> bool" where
  "init_ok E \<longleftrightarrow> (\<forall>arrs m. e_init_rnnoise E arrs = (0, m) \<longrightarrow> model_ok m) \<and> fst (e_init_rnnoise E (e_arrays E)) = 0"

lemma zero_state_sizes: "state_sizes zero_state"
  by (simp add: state_sizes_def zero_state_def)

lemma init_inv:
  assumes "rnnoise_init E model = Some (0, st)" "init_ok E"
  shows "denoise_inv st"
proof -
  have "\<exists>m. model_ok m \<and> st = zero_state\<lparr>strength := lit 0.6\<rparr>\<lparr>st_model := m\<rparr>"
    using assms
    by (cases model; auto simp: rnnoise_init_def init_ok_def Let_def bind_eq_Some_conv split: option.splits prod.splits if_splits)
      (metis prod.collapse)+
  then obtain m where "model_ok m" "st = zero_state\<lparr>strength := lit 0.6\<rparr>\<lparr>st_model := m\<rparr>" by blast
  moreover have "rnn_state_ok (st_rnn (zero_state :: real DenoiseState))" using zero_rnn_state_ok by (simp add: zero_state_def zero_rnn_state_def)
  moreover have "gain_range (lastg zero_state)" "last_period (zero_state :: real DenoiseState) = 0" by (simp_all add: zero_state_def gain_range_def)
  moreover have "state_sizes (zero_state :: real DenoiseState)" by (rule zero_state_sizes)
  ultimately show ?thesis by (simp add: denoise_inv_def state_sizes_def)
qed

lemma denoise_reach_inv:
  assumes "denoise_reach E st" "denoise_env_ok E" "init_ok E"
  shows "denoise_inv st"
  using assms(1)
proof (induction rule: denoise_reach.induct)
  case (created model st)
  then have "rnnoise_init E model = Some (0, st)"
    by (auto simp: rnnoise_create_def bind_eq_Some_conv split: if_splits)
  then show ?case using init_inv assms(3) by blast
next
  case (strength_set st v)
  then show ?case by (auto simp: rnnoise_set_strength_def denoise_inv_def state_sizes_def Let_def)
next
  case (was_reset st st')
  then obtain r st1 where "rnnoise_init E None = Some (r, st1)" "st' = st1\<lparr>strength := strength st\<rparr>"
    by (auto simp: rnnoise_reset_def bind_eq_Some_conv Let_def)
  moreover from this have "r = 0"
    using assms(3) by (auto simp: rnnoise_init_def init_ok_def Let_def split: prod.splits if_splits)
  ultimately show ?case using init_inv [of E None st1] assms(3) was_reset.IH by (simp add: denoise_inv_def state_sizes_def)
next
  case (processed st inp st' out vad)
  then show ?case using process_frame_inv [OF assms(2) processed.IH processed.hyps(2)] by auto
qed


lemma exact_env_ok: "denoise_env_ok exact_env" "init_ok exact_env"
  using static_kfft_ok [of "compute_twiddles real_ops real_trig 960"] empty_model_ok
  by (auto simp: denoise_env_ok_def init_ok_def exact_env_def compute_twiddles_def)


end
