(* ===== verification/Dsp_Watchdog.thy ===== *)
theory Dsp_Watchdog
  imports Dsp_Pipeline Rnn_Denoise_Exact
begin

text \<open>
  The properties of the pipeline: the bounds of its limiter, and its watchdog over the DPDFNet worker, which
  may silence the microphone for a few blocks but not for good.
\<close>

section \<open>The limiter\<close>

lemma swap_quotient: "x * (c / d) = c * (x / d)" for c :: real
  by simp

lemma limit_sample_gain:
  fixes x :: real
  assumes "0 < gain" "gain \<le> 1"
  shows "0 < snd (limit_sample x gain)" "snd (limit_sample x gain) \<le> 1"
    "\<bar>fst (limit_sample x gain)\<bar> \<le> max 0.89125094 (0.995 * 0.89125094 + 0.005 * \<bar>x\<bar>)"
proof -
  let ?c = "0.89125094 :: real"
  have ax: "fabs x = \<bar>x\<bar>" by (simp add: fabs_def)
  define g where "g = snd (limit_sample x gain)"
  have out: "fst (limit_sample x gain) = x * g" by (simp add: g_def limit_sample_def Let_def)
  have "0 < g \<and> g \<le> 1 \<and> \<bar>x\<bar> * g \<le> max ?c (0.995 * ?c + 0.005 * \<bar>x\<bar>)"
  proof (cases "?c < \<bar>x\<bar> * gain")
    case True
    let ?d = "?c / (\<bar>x\<bar> + 0.0000000001)"
    have g: "g = min ?d gain" using True by (simp add: g_def limit_sample_def ax Let_def min_def)
    have d: "0 < ?d" by (intro divide_pos_pos add_nonneg_pos) simp_all
    have "\<bar>x\<bar> * g \<le> \<bar>x\<bar> * ?d" by (intro mult_left_mono) (simp_all only: g min.cobounded1 abs_ge_zero)
    also have "\<bar>x\<bar> * ?d = ?c * (\<bar>x\<bar> / (\<bar>x\<bar> + 0.0000000001))" by (rule swap_quotient)
    also have "\<dots> \<le> ?c * 1" by (intro mult_left_mono) (simp_all add: divide_le_eq)
    finally have "\<bar>x\<bar> * g \<le> max ?c (0.995 * ?c + 0.005 * \<bar>x\<bar>)" by (simp only: mult_1_right max.coboundedI1)
    moreover have "0 < g" unfolding g using d assms(1) by (simp only: min_less_iff_conj)
    moreover have "g \<le> 1" unfolding g using assms(2) by (simp only: min.coboundedI2)
    ultimately show ?thesis by blast
  next
    case False
    have "g = gain + (1 - gain) * 0.005" using False by (simp add: g_def limit_sample_def ax Let_def)
    then have g: "g = 0.995 * gain + 0.005" by (simp add: field_simps)
    have "\<bar>x\<bar> * g = 0.995 * (\<bar>x\<bar> * gain) + 0.005 * \<bar>x\<bar>" by (simp add: g field_simps)
    moreover have "0 < g" "g \<le> 1" using assms by (simp_all add: g)
    ultimately show ?thesis using False by simp
  qed
  then show "0 < snd (limit_sample x gain)" "snd (limit_sample x gain) \<le> 1"
    "\<bar>fst (limit_sample x gain)\<bar> \<le> max ?c (0.995 * ?c + 0.005 * \<bar>x\<bar>)"
    by (simp_all add: out g_def [symmetric] abs_mult)
qed

text \<open>
  C38. The limiter in exact arithmetic: from a gain in (0, 1] its gain stays there, and each sample comes out
  with its sign, no larger than it went in, and at most the ceiling of -1 dBFS plus half a percent of what
  the input has above it, so below full scale for inputs up to 22 times full scale.
\<close>

theorem limiter_bounds:
  fixes smp :: "real list"
  assumes "0 < gain" "gain \<le> 1"
  shows "let (out, gain') = processLimiter smp gain in length out = length smp \<and> 0 < gain' \<and> gain' \<le> 1 \<and>
    (\<forall>i<length smp. \<bar>out ! i\<bar> \<le> \<bar>smp ! i\<bar> \<and> 0 \<le> out ! i * smp ! i \<and>
       \<bar>out ! i\<bar> \<le> max 0.89125094 (0.89125094 + 0.005 * (\<bar>smp ! i\<bar> - 0.89125094)) \<and>
       (\<bar>smp ! i\<bar> \<le> 22 \<longrightarrow> \<bar>out ! i\<bar> < 1))"
  using assms
proof (induction smp arbitrary: gain)
  case (Cons x xs)
  obtain y g where l: "limit_sample x gain = (y, g)" by (cases "limit_sample x gain")
  obtain out g' where r: "processLimiter xs g = (out, g')" by (cases "processLimiter xs g")
  have g: "0 < g" "g \<le> 1" and y: "\<bar>y\<bar> \<le> max 0.89125094 (0.995 * 0.89125094 + 0.005 * \<bar>x\<bar>)"
    using limit_sample_gain [OF Cons.prems, of x] by (simp_all add: l)
  have yx: "y = x * g" using l by (auto simp: limit_sample_def Let_def)
  have "\<bar>x\<bar> * g \<le> \<bar>x\<bar> * 1" using g(2) by (intro mult_left_mono) simp_all
  then have "\<bar>y\<bar> \<le> \<bar>x\<bar>" using g(1) by (simp add: yx abs_mult)
  moreover have "0 \<le> y * x" using g(1) by (simp add: yx mult.commute mult.left_commute)
  moreover have "0.995 * 0.89125094 + 0.005 * \<bar>x\<bar> = 0.89125094 + 0.005 * (\<bar>x\<bar> - 0.89125094)" by (simp add: algebra_simps)
  moreover have "\<bar>y\<bar> < 1" if "\<bar>x\<bar> \<le> 22" using y that unfolding max_def by (simp split: if_splits)
  moreover have "processLimiter (x # xs) gain = (y # out, g')" using l r by (simp add: processLimiter_def)
  ultimately show ?case using Cons.IH [OF g] r y by (auto simp: nth_Cons split: nat.split)
qed (simp add: processLimiter_def)

theorem limiter_bounds_witness:
  "snd (processLimiter [4, - 3, 0.5 :: real] 1) \<le> 1 \<and> \<bar>fst (processLimiter [4, - 3, 0.5 :: real] 1) ! 1\<bar> < 1"
  using limiter_bounds [of 1 "[4, - 3, 0.5]"] by (auto simp: nth_Cons split: prod.splits nat.split)

section \<open>The watchdog\<close>

text \<open>The settings a block is processed under, and a pipeline that has taken them in.\<close>

definition same_settings :: "'a AppState \<Rightarrow> 'a AppState \<Rightarrow> bool" where
  "same_settings g g' \<longleftrightarrow> g_nrEnabled g' = g_nrEnabled g \<and> g_denoiseBackend g' = g_denoiseBackend g \<and>
     g_denoiseResetEpoch g' = g_denoiseResetEpoch g"

definition settled :: "'a pipeline \<Rightarrow> 'a AppState \<Rightarrow> bool" where
  "settled p g \<longleftrightarrow> m_nrActive p = g_nrEnabled g \<and> m_lastRequestedBackend p = g_denoiseBackend g \<and>
     m_seenGlobalEpoch p = g_denoiseResetEpoch g"

definition allowance :: "bool \<Rightarrow> nat" where "allowance seen = (if seen then 2 else 4)"

definition silences :: "'a pipeline \<Rightarrow> nat" where "silences p = unat (m_consecutiveDpdfnetUnderflows p)"

text \<open>The part of the state the watchdog works on.\<close>

definition watch :: "'a pipeline \<Rightarrow> DenoiseBackendKind \<times> bool \<times> nat" where
  "watch p = (m_activeBackend p, m_dpdfnetSeenOutput p, silences p)"

fun legal :: "DenoiseBackendKind \<times> bool \<times> nat \<Rightarrow> bool" where
  "legal (b, seen, n) = (b = Dpdfnet \<longrightarrow> n \<le> allowance seen)"

definition watch_ok :: "'a pipeline \<Rightarrow> bool" where
  "watch_ok p \<longleftrightarrow> (m_activeBackend p = Dpdfnet \<longrightarrow> silences p \<le> allowance (m_dpdfnetSeenOutput p))"

lemma watch_ok_legal: "watch_ok p = legal (watch p)"
  by (simp add: watch_ok_def watch_def)

lemma settled_watch_cong:
  "watch p' = watch p \<Longrightarrow> watch_ok p' = watch_ok p"
  by (simp add: watch_def watch_ok_def)

lemma configureEq_watch: "watch (configureEq M p) = watch p" "settled (configureEq M p) g = settled p g"
  by (simp_all add: configureEq_def Let_def watch_def silences_def settled_def)

lemma updateSettings_watch: "watch (updateSettings M sr h p) = watch p" "settled (updateSettings M sr h p) g = settled p g"
  using configureEq_watch [of M "p\<lparr>m_sampleRate := sr, m_eqActive := g_eqEnabled h, m_lastPresence := g_eqPresence h,
                m_lastBassCut := g_eqBassCut h, m_compActive := g_compressorEnabled h\<rparr>"]
  by (simp_all add: updateSettings_def Let_def watch_def silences_def settled_def)

lemma processPostDenoise_watch:
  assumes "processPostDenoise E g smp p = (out, p')"
  shows "watch p' = watch p" "settled p' h = settled p h"
  using assms by (auto simp: processPostDenoise_def Let_def watch_def silences_def settled_def split: prod.splits if_splits)

lemma processRnnoise_watch:
  assumes "processRnnoise E smp p = Some (out, p')"
  shows "watch p' = watch p" "settled p' h = settled p h"
  using assms by (auto simp: processRnnoise_def watch_def silences_def settled_def bind_eq_Some_conv split: option.splits)

lemma degradeDpdfnet_watch:
  assumes "degradeDpdfnet (p, g) = (p', g')"
  shows "m_activeBackend p' = Rnnoise" "same_settings g g'" "settled p' h = settled p h"
  using assms by (auto simp: degradeDpdfnet_def Let_def settled_def same_settings_def split: if_splits)

lemma resetStreamState_watch:
  assumes "resetStreamState E (p, g) = Some (p', g')"
  shows "silences p' = 0" "same_settings g g'"
  using assms by (auto simp: resetStreamState_def resetDpdfnetWatchdog_def resetPostDenoiseState_def Let_def silences_def
      same_settings_def bind_eq_Some_conv)

lemma follow_backend_watch:
  assumes "follow_backend E (p, g) = Some (p', g')"
  shows "settled p' g'" "same_settings g g'" "settled p g \<Longrightarrow> watch p' = watch p" "\<not> settled p g \<Longrightarrow> silences p' = 0"
proof -
  have "(\<not> settled p g \<and> settled p' g' \<and> same_settings g g' \<and> silences p' = 0) \<or> (settled p g \<and> p' = p \<and> g' = g)"
  proof (cases "settled p g")
    case True
    then show ?thesis using assms by (auto simp: follow_backend_def settled_def)
  next
    case False
    note ns = False
    then have "g_nrEnabled g \<noteq> m_nrActive p \<or> g_denoiseBackend g \<noteq> m_lastRequestedBackend p \<or>
        g_denoiseResetEpoch g \<noteq> m_seenGlobalEpoch p" unfolding settled_def by metis
    note run = assms [unfolded follow_backend_def case_prod_conv if_P [OF this]]
    obtain q h where q: "resetStreamState E (p, g) = Some (q, h)" using run by (cases "resetStreamState E (p, g)") auto
    show ?thesis
      using run resetStreamState_watch [OF q] unfolding q Option.bind.simps(2) case_prod_conv Let_def option.inject prod.inject
      by (elim conjE, hypsubst) (simp add: ns, simp add: settled_def same_settings_def silences_def)
  qed
  then show "settled p' g'" "same_settings g g'" "settled p g \<Longrightarrow> watch p' = watch p" "\<not> settled p g \<Longrightarrow> silences p' = 0"
    by (auto simp: same_settings_def)
qed

lemma apply_settings_watch:
  assumes "apply_settings E sr (p, g) = Some (p', g')"
  shows "settled p' g'" "same_settings g g'" "watch_ok p \<Longrightarrow> watch_ok p'" "settled p g \<Longrightarrow> watch p' = watch p"
proof -
  obtain q where q: "follow_backend E (p, g) = Some (q, g')" "p' = follow_eq (pe_math E) sr g' (follow_strength g' q)"
    using assms by (auto simp: apply_settings_def bind_eq_Some_conv)
  have w: "watch p' = watch q" "settled p' h = settled q h" for h
    unfolding q(2) follow_eq_def follow_strength_def
    by (simp_all add: updateSettings_watch) (simp_all add: watch_def silences_def settled_def)
  show "settled p' g'" "same_settings g g'" "settled p g \<Longrightarrow> watch p' = watch p"
    using follow_backend_watch [OF q(1)] w by auto
  show "watch_ok p'" if "watch_ok p"
  proof (cases "settled p g")
    case True
    then show ?thesis using follow_backend_watch(3) [OF q(1)] w(1) that settled_watch_cong by metis
  next
    case False
    then have "watch_ok q" using follow_backend_watch(4) [OF q(1)] by (simp add: watch_ok_def)
    then show ?thesis using settled_watch_cong w(1) by metis
  qed
qed

text \<open>What a block does to the watchdog, by where its samples came from.\<close>

fun watch_step :: "block_source \<Rightarrow> DenoiseBackendKind \<times> bool \<times> nat \<Rightarrow> DenoiseBackendKind \<times> bool \<times> nat \<Rightarrow> bool" where
  "watch_step Silenced (b, seen, n) w = (b = Dpdfnet \<and> n < allowance seen \<and> w = (Dpdfnet, seen, n + 1))"
| "watch_step FromDpdfnet (b, seen, n) w = (b = Dpdfnet \<and> w = (Dpdfnet, True, 0))"
| "watch_step FromRnnoise (b, seen, n) w = (if b = Dpdfnet then fst w = Rnnoise else w = (b, seen, n))"
| "watch_step Bypassed v w = (w = v)"

lemma record_underflow:
  assumes "recordDpdfnetUnderflow p = (stuck, p')" "silences p \<le> allowance (m_dpdfnetSeenOutput p)"
  shows "stuck \<longleftrightarrow> silences p = allowance (m_dpdfnetSeenOutput p)"
    "\<not> stuck \<Longrightarrow> watch p' = (m_activeBackend p, m_dpdfnetSeenOutput p, silences p + 1)" "settled p' h = settled p h"
proof -
  let ?n = "m_consecutiveDpdfnetUnderflows p"
  have "unat ?n \<le> 4" using assms(2) by (auto simp: silences_def allowance_def split: if_splits)
  then have u: "unat (?n + 1) = unat ?n + 1"
    using unat_plus_if' [of ?n 1] by simp
  have "DPDFNET_STEADY_UNDERFLOW_BLOCKS \<le> ?n + 1 \<longleftrightarrow> 3 \<le> unat ?n + 1" "DPDFNET_WARMUP_UNDERFLOW_BLOCKS < ?n + 1 \<longleftrightarrow> 4 < unat ?n + 1"
    by (simp_all add: word_le_nat_alt word_less_nat_alt u DPDFNET_STEADY_UNDERFLOW_BLOCKS_def DPDFNET_WARMUP_UNDERFLOW_BLOCKS_def)
  then show "stuck \<longleftrightarrow> silences p = allowance (m_dpdfnetSeenOutput p)"
    using assms by (auto simp: recordDpdfnetUnderflow_def Let_def silences_def allowance_def)
  show "\<not> stuck \<Longrightarrow> watch p' = (m_activeBackend p, m_dpdfnetSeenOutput p, silences p + 1)" "settled p' h = settled p h"
    using assms(1) u by (auto simp: recordDpdfnetUnderflow_def Let_def watch_def silences_def settled_def)
qed

lemma rnnoise_fallback_watch:
  assumes "rnnoise_fallback E smp p g = Some (src, out, p', g')"
  shows "src = FromRnnoise" "m_activeBackend p' = Rnnoise" "same_settings g g'" "settled p' h = settled p h"
proof -
  obtain q k where d: "degradeDpdfnet (p, g) = (q, k)" by (cases "degradeDpdfnet (p, g)")
  then have r: "processRnnoise E smp q = Some (out, p')" "src = FromRnnoise" "g' = k"
    using assms by (auto simp: rnnoise_fallback_def bind_eq_Some_conv)
  show "src = FromRnnoise" "same_settings g g'" "settled p' h = settled p h"
    using degradeDpdfnet_watch [OF d] processRnnoise_watch [OF r(1)] r by auto
  have "m_activeBackend q = Rnnoise" using degradeDpdfnet_watch [OF d] by simp
  then show "m_activeBackend p' = Rnnoise" using processRnnoise_watch(1) [OF r(1)] by (simp add: watch_def)
qed

lemma denoise_block_watch:
  assumes "denoise_block E n1 n2 smp (p, g) = Some (src, out, p', g')" "watch_ok p"
  shows "watch_step src (watch p) (watch p') \<and> src \<noteq> Bypassed \<and> same_settings g g' \<and> settled p' h = settled p h"
proof (cases "m_activeBackend p = Dpdfnet")
  case False
  then have r: "processRnnoise E smp p = Some (out, p')" "src = FromRnnoise" "g' = g"
    using assms(1) by (auto simp: denoise_block_def Let_def bind_eq_Some_conv)
  show ?thesis using processRnnoise_watch [OF r(1)] r(2,3) False by (simp add: same_settings_def watch_def)
next
  case True
  have fb: ?thesis if "rnnoise_fallback E smp q g = Some (src, out, p', g')" "settled q h = settled p h" for q
    using rnnoise_fallback_watch [OF that(1)] that(2) True by (simp add: watch_def)
  note body = assms(1) [unfolded denoise_block_def case_prod_conv Let_def, unfolded if_P [OF True]]
  show ?thesis
  proof (cases "isReady (m_dpdfnet p)")
    case False
    then show ?thesis using body fb [of p] by simp
  next
    case ready: True
    obtain have_out den d where b: "processBlock smp (replicate 480 0) (m_streamEpoch p)
        ((worker_step (pe_sherpa E) ^^ n1) (m_dpdfnet p)) = Some (have_out, den, d)"
      using body ready by (auto simp: bind_eq_Some_conv)
    let ?q = "p\<lparr>m_dpdfnet := (worker_step (pe_sherpa E) ^^ n2) d\<rparr>"
    have q: "watch ?q = watch p" "settled ?q h = settled p h" "m_activeBackend ?q = Dpdfnet"
      using True by (simp_all add: watch_def silences_def settled_def)
    have rest: "(if hasFailed (m_dpdfnet ?q) then rnnoise_fallback E smp ?q g
        else if have_out then Some (FromDpdfnet, den, ?q\<lparr>m_dpdfnetSeenOutput := True, m_consecutiveDpdfnetUnderflows := 0\<rparr>, g)
        else (case recordDpdfnetUnderflow ?q of (stuck, q) \<Rightarrow>
              if stuck then rnnoise_fallback E smp q g else Some (Silenced, replicate 480 0, q, g))) = Some (src, out, p', g')"
      using body ready by (simp add: b Let_def split del: if_split)
    show ?thesis
    proof (cases "hasFailed (m_dpdfnet ?q) \<or> have_out")
      case True
      then show ?thesis using rest fb [of ?q] q by (auto simp: watch_def silences_def settled_def same_settings_def split: if_splits)
    next
      case False
      obtain stuck r where u: "recordDpdfnetUnderflow ?q = (stuck, r)" by (cases "recordDpdfnetUnderflow ?q")
      have ok: "silences ?q \<le> allowance (m_dpdfnetSeenOutput ?q)" using assms(2) \<open>m_activeBackend p = Dpdfnet\<close> by (simp add: watch_ok_def silences_def)
      note rec = record_underflow [OF u ok]
      show ?thesis
      proof (cases stuck)
        case True
        then show ?thesis using rest False fb [of r] rec(3) q(2) by (simp add: u)
      next
        case nstuck: False
        then have "src = Silenced" "p' = r" "g' = g" using rest False by (simp_all add: u)
        then show ?thesis using rec nstuck ok q by (simp add: watch_def same_settings_def silences_def)
      qed
    qed
  qed
qed

lemma process_watch:
  assumes "process E n1 n2 smp sr (p, g) = Some (src, out, p', g')" "watch_ok p" "length smp = 480" "g_nrEnabled g"
  shows "\<exists>w. legal w \<and> (settled p g \<longrightarrow> w = watch p) \<and> watch_step src w (watch p') \<and> src \<noteq> Bypassed \<and>
    settled p' g' \<and> same_settings g g'"
proof -
  obtain q k where a: "apply_settings E sr (p, g) = Some (q, k)"
    using assms(1,3) by (auto simp: process_def bind_eq_Some_conv)
  note as = apply_settings_watch [OF a]
  have nr: "g_nrEnabled k" using as(2) assms(4) by (simp add: same_settings_def)
  have run: "denoise_block E n1 n2 smp (q, k) \<bind> (\<lambda>(src, smp, p, g).
      let (out, p) = processPostDenoise E g smp p in Some (src, out, p, g)) = Some (src, out, p', g')"
    using assms(1,3) a nr by (simp add: process_def)
  obtain src' smp' r l where d: "denoise_block E n1 n2 smp (q, k) = Some (src', smp', r, l)"
    using run by (cases "denoise_block E n1 n2 smp (q, k)") auto
  have post: "processPostDenoise E l smp' r = (out, p')" "src' = src" "g' = l"
    using run by (auto simp: d Let_def split: prod.splits)
  note db = denoise_block_watch [OF d as(3) [OF assms(2)], of l]
  have "settled q l" using as(1) db by (auto simp: settled_def same_settings_def)
  then have "settled p' g'" using db processPostDenoise_watch(2) [OF post(1)] post(3) by auto
  moreover have "same_settings g g'" using as(2) db post(3) by (auto simp: same_settings_def)
  moreover have "legal (watch q)" "settled p g \<Longrightarrow> watch q = watch p" "watch_step src (watch q) (watch p') \<and> src \<noteq> Bypassed"
    using as(3,4) assms(2) db processPostDenoise_watch(1) [OF post(1)] post(2) by (simp_all add: watch_ok_legal)
  ultimately show ?thesis by blast
qed

text \<open>
  Consecutive blocks under unchanged settings. Between them the worker, and the thread that loads and
  releases the session, may do anything to the processor, and the other threads to the rest of the shared
  state.
\<close>

inductive blocks ::
  "'a::{zero,one,plus,minus,uminus,times,inverse,ord,scaleR} pipe_env \<Rightarrow> 'a pipeline \<Rightarrow> 'a AppState \<Rightarrow> block_source list \<Rightarrow> bool"
  for E where
  none: "blocks E p g []"
| block: "same_settings g k \<Longrightarrow> length smp = 480 \<Longrightarrow>
    process E n1 n2 smp sr (p\<lparr>m_dpdfnet := d\<rparr>, k) = Some (src, out, p', g') \<Longrightarrow> blocks E p' g' srcs \<Longrightarrow>
    blocks E p g (src # srcs)"

text \<open>The sources of the blocks that the watchdog allows.\<close>

fun allowed :: "DenoiseBackendKind \<Rightarrow> bool \<Rightarrow> nat \<Rightarrow> block_source list \<Rightarrow> bool" where
  "allowed b seen n [] = True"
| "allowed b seen n (Silenced # srcs) = (b = Dpdfnet \<and> n < allowance seen \<and> allowed b seen (n + 1) srcs)"
| "allowed b seen n (FromDpdfnet # srcs) = (b = Dpdfnet \<and> allowed b True 0 srcs)"
| "allowed b seen n (FromRnnoise # srcs) = list_all (\<lambda>s. s = FromRnnoise) srcs"
| "allowed b seen n (Bypassed # srcs) = False"

lemma allowed_rnnoise: "b \<noteq> Dpdfnet \<Longrightarrow> allowed b seen n srcs \<Longrightarrow> list_all (\<lambda>s. s = FromRnnoise) srcs"
  by (cases "(b, seen, n, srcs)" rule: allowed.cases) auto

lemma blocks_allowed:
  assumes "blocks E p g srcs" "watch_ok p" "g_nrEnabled g" "settled p g" "watch p = (b, seen, n)"
  shows "allowed b seen n srcs"
  using assms
proof (induction arbitrary: b seen n rule: blocks.induct)
  case (block g k smp n1 n2 sr d p src out p' g' srcs)
  let ?q = "p\<lparr>m_dpdfnet := d\<rparr>"
  have q: "watch ?q = (b, seen, n)" "settled ?q k" "watch_ok ?q" "g_nrEnabled k"
    using block.hyps(1) block.prems by (auto simp: watch_def silences_def settled_def same_settings_def watch_ok_def)
  from process_watch [OF block.hyps(3) q(3) block.hyps(2) q(4)] q(1,2)
  have step: "watch_step src (b, seen, n) (watch p')" "src \<noteq> Bypassed" "settled p' g'" "same_settings k g'" "legal (b, seen, n)"
    by auto
  have nr: "g_nrEnabled g'" using step(4) q(4) by (simp add: same_settings_def)
  obtain b' s' n' where w: "watch p' = (b', s', n')" by (cases "watch p'")
  have "watch_ok p'" using step(1,2,5) unfolding watch_ok_legal w by (cases src) (auto simp: allowance_def split: if_splits)
  from block.IH [OF this nr step(3) w] show ?case
    using step(1,2) allowed_rnnoise [of b' s' n' srcs] unfolding w by (cases src) (auto split: if_splits)
qed simp

lemma blocks_allowed_first:
  assumes "blocks E p g srcs" "watch_ok p" "g_nrEnabled g"
  shows "\<exists>b seen n. allowed b seen n srcs"
  using assms(1)
proof cases
  case (block k smp n1 n2 sr d src out p' g' srcs')
  let ?q = "p\<lparr>m_dpdfnet := d\<rparr>"
  have q: "watch_ok ?q" "g_nrEnabled k" using block(2) assms(2,3) by (auto simp: watch_ok_def silences_def same_settings_def)
  from process_watch [OF block(4) q(1) block(3) q(2)] obtain w where step: "legal w" "watch_step src w (watch p')"
    "src \<noteq> Bypassed" "settled p' g'" "same_settings k g'" by blast
  obtain b seen n where v: "w = (b, seen, n)" by (cases w)
  obtain b' s' n' where w: "watch p' = (b', s', n')" by (cases "watch p'")
  have "watch_ok p'" using step(1-3) unfolding watch_ok_legal w v by (cases src) (auto simp: allowance_def split: if_splits)
  from blocks_allowed [OF block(5) this _ step(4) w] have "allowed b' s' n' srcs'" using step(5) q(2) by (simp add: same_settings_def)
  then have "allowed b seen n (src # srcs')"
    using step(2,3) allowed_rnnoise [of b' s' n' srcs'] unfolding w v by (cases src) (auto split: if_splits)
  then show ?thesis using block(1) by blast
qed auto

lemma allowed_silence:
  "allowed b seen n srcs \<Longrightarrow> k \<le> length srcs \<Longrightarrow> \<forall>j<k. srcs ! j = Silenced \<Longrightarrow> 0 < k \<Longrightarrow> n + k \<le> allowance seen"
proof (induction b seen n srcs arbitrary: k rule: allowed.induct)
  case (2 b seen n srcs)
  have "srcs ! j = Silenced" if "j < k - 1" for j using "2.prems"(3) that by (auto dest: spec [of _ "Suc j"])
  then have IH: "0 < k - 1 \<Longrightarrow> n + 1 + (k - 1) \<le> allowance seen" using "2.prems" by (intro "2.IH") auto
  then show ?case using 2 by (cases "k = 1") auto
qed auto

lemma allowed_all_rnnoise: "list_all (\<lambda>s. s = FromRnnoise) srcs \<Longrightarrow> allowed b seen n srcs"
  by (cases srcs) auto

lemma allowed_rest:
  "allowed b seen n (xs @ ys) \<Longrightarrow>
   \<exists>b' seen' n'. allowed b' seen' n' ys \<and> (seen \<or> FromDpdfnet \<in> set xs \<longrightarrow> seen' \<or> list_all (\<lambda>s. s = FromRnnoise) ys)"
proof (induction xs arbitrary: b seen n)
  case (Cons x xs)
  show ?case
  proof (cases x)
    case FromRnnoise
    then have "list_all (\<lambda>s. s = FromRnnoise) ys" using Cons.prems by simp
    then show ?thesis using allowed_all_rnnoise by blast
  next
    case FromDpdfnet
    then have "allowed Dpdfnet True 0 (xs @ ys)" using Cons.prems by auto
    from Cons.IH [OF this] show ?thesis by blast
  next
    case Silenced
    then have "allowed Dpdfnet seen (n + 1) (xs @ ys)" using Cons.prems by auto
    from Cons.IH [OF this] show ?thesis using Silenced by auto
  qed (use Cons.prems in simp)
qed auto

text \<open>Every pipeline that has been initialised and has processed any blocks keeps its count in its bounds.\<close>

inductive pipe_reach ::
  "'a::{zero,one,plus,minus,uminus,times,inverse,ord,scaleR} pipe_env \<Rightarrow> 'a pipeline \<Rightarrow> bool" for E where
  created: "pipe_init E ok rate rate_int dir model (pipeline_new, g) = Some (True, p, g') \<Longrightarrow> pipe_reach E p"
| processed: "pipe_reach E p \<Longrightarrow> process E n1 n2 smp sr (p\<lparr>m_dpdfnet := d\<rparr>, g) = Some (src, out, p', g') \<Longrightarrow> pipe_reach E p'"

lemma process_watch_ok:
  assumes "process E n1 n2 smp sr (p, g) = Some (src, out, p', g')" "watch_ok p"
  shows "watch_ok p'"
proof (cases "length smp = 480")
  case False
  then have "processPostDenoise E g smp (p\<lparr>m_loggedFallbackSize := True\<rparr>) = (out, p')"
    using assms(1) by (auto simp: process_def Let_def split: prod.splits)
  from processPostDenoise_watch(1) [OF this] show ?thesis using assms(2) by (simp add: watch_ok_legal watch_def silences_def)
next
  case len: True
  obtain q k where a: "apply_settings E sr (p, g) = Some (q, k)"
    using assms(1) len by (auto simp: process_def bind_eq_Some_conv)
  show ?thesis
  proof (cases "g_nrEnabled k")
    case False
    then have "processPostDenoise E k smp q = (out, p')"
      using assms(1) a len by (auto simp: process_def Let_def split: prod.splits)
    from processPostDenoise_watch(1) [OF this] show ?thesis
      using apply_settings_watch(3) [OF a assms(2)] by (simp add: watch_ok_legal)
  next
    case True
    then have "g_nrEnabled g" using apply_settings_watch(2) [OF a] by (simp add: same_settings_def)
    from process_watch [OF assms len this] show ?thesis
      unfolding watch_ok_legal by (cases "watch p'"; cases src) (auto simp: allowance_def split: if_splits)
  qed
qed

lemma pipe_reach_watch: "pipe_reach E p \<Longrightarrow> watch_ok p"
proof (induction rule: pipe_reach.induct)
  case (created ok rate rate_int dir model g p g')
  then have "m_activeBackend p \<noteq> Dpdfnet"
    by (auto simp: pipe_init_def bind_eq_Some_conv Let_def case_prod_beta split: option.splits if_splits)
  then show ?case by (simp add: watch_ok_def)
next
  case (processed p n1 n2 smp sr d g src out p' g')
  have "watch_ok (p\<lparr>m_dpdfnet := d\<rparr>)" using processed.IH by (simp add: watch_ok_def silences_def)
  then show ?case using process_watch_ok [OF processed.hyps(2)] by blast
qed

text \<open>
  C37. The watchdog. While the settings stay as they are and noise reduction is on, whatever the DPDFNet worker does: of five
  consecutive blocks at least one carries sound, once the worker has delivered at least one of three, and
  once a block has been left to RNNoise all later ones are.
\<close>

theorem watchdog_bounds_silence:
  assumes "pipe_reach E p" "blocks E p g srcs" "g_nrEnabled g"
  shows "(\<forall>i. i + 5 \<le> length srcs \<longrightarrow> (\<exists>j<5. srcs ! (i + j) \<noteq> Silenced)) \<and>
    (\<forall>k i. k < i \<and> i + 3 \<le> length srcs \<and> srcs ! k = FromDpdfnet \<longrightarrow> (\<exists>j<3. srcs ! (i + j) \<noteq> Silenced)) \<and>
    (\<forall>i j. i \<le> j \<and> j < length srcs \<and> srcs ! i = FromRnnoise \<longrightarrow> srcs ! j = FromRnnoise)"
proof (intro conjI allI impI)
  obtain b seen n where al: "allowed b seen n srcs" using blocks_allowed_first [OF assms(2) pipe_reach_watch [OF assms(1)] assms(3)] by blast
  have window: "\<exists>j<k. srcs ! (i + j) \<noteq> Silenced" if "allowed b' s' n' (drop i srcs)" "i + k \<le> length srcs" "allowance s' < k" for b' s' n' i k
    using allowed_silence [OF that(1), of k] that(2,3) by (fastforce simp: add.commute)
  show "\<exists>j<5. srcs ! (i + j) \<noteq> Silenced" if "i + 5 \<le> length srcs" for i
  proof -
    obtain b' s' n' where "allowed b' s' n' (drop i srcs)" using allowed_rest [of b seen n "take i srcs" "drop i srcs"] al by auto
    then show ?thesis using window that by (cases s') (auto simp: allowance_def)
  qed
  show "\<exists>j<3. srcs ! (i + j) \<noteq> Silenced" if h: "k < i \<and> i + 3 \<le> length srcs \<and> srcs ! k = FromDpdfnet" for k i
  proof -
    obtain b' s' n' where r: "allowed b' s' n' (drop i srcs)" "s' \<or> list_all (\<lambda>s. s = FromRnnoise) (drop i srcs)"
    proof -
      have "srcs ! k \<in> set (take i srcs)" using h by (auto simp: in_set_conv_nth)
      then show thesis using that allowed_rest [of b seen n "take i srcs" "drop i srcs"] al h by auto
    qed
    show ?thesis
    proof (cases s')
      case True
      then show ?thesis using window [OF r(1), of 3] h by (simp add: allowance_def)
    next
      case False
      then have "srcs ! (i + 0) = FromRnnoise" using r(2) h by (auto simp: list_all_length dest: spec [of _ 0])
      then show ?thesis by (intro exI [of _ 0]) simp
    qed
  qed
  show "srcs ! j = FromRnnoise" if h: "i \<le> j \<and> j < length srcs \<and> srcs ! i = FromRnnoise" for i j
  proof -
    obtain b' s' n' where r: "allowed b' s' n' (drop i srcs)" using allowed_rest [of b seen n "take i srcs" "drop i srcs"] al by auto
    have "drop i srcs = FromRnnoise # drop (Suc i) srcs" using h Cons_nth_drop_Suc [of i srcs] by force
    then have "list_all (\<lambda>s. s = FromRnnoise) (drop i srcs)" using r by simp
    then show ?thesis using h by (auto simp: list_all_length dest!: spec [of _ "j - i"])
  qed
qed

section \<open>A run: the worker hangs\<close>

text \<open>A processor that is ready, whose worker does nothing.\<close>

definition hung :: "'a::zero impl" where "hung = impl_new\<lparr>ready := True\<rparr>"

definition rnnoise_fine :: "real pipeline \<Rightarrow> bool" where
  "rnnoise_fine p \<longleftrightarrow> (\<exists>st. m_rnnoise p = Some st \<and> denoise_inv st)"

lemma hung_ready: "isReady (setEpoch ep hung)" "isReady hung" "hasFailed hung = False"
  by (simp_all add: isReady_def hasFailed_def setEpoch_def hung_def impl_new_def signalWorker_def)

lemma hung_queue: "tq_inv (outputQueue hung)" "tq_contents (outputQueue hung) = []"
  by (simp_all add: hung_def impl_new_def tq_new_inv QUEUE_CAPACITY_def)

text \<open>A processor with nothing to give answers with silence.\<close>

lemma processBlock_nothing:
  assumes "ready d" "\<not> failed d" "\<not> workerAbandoned d" "tq_inv (outputQueue d)" "tq_contents (outputQueue d) = []" "length smp = 480"
  shows "\<exists>den d'. processBlock smp (replicate 480 0) ep d = Some (False, den, d') \<and> \<not> hasFailed d'"
proof -
  let ?s = "submit ep smp (d\<lparr>requestedEpoch := ep\<rparr>)"
  have s: "outputQueue ?s = outputQueue d" "failed ?s = failed d" "workerAbandoned ?s = workerAbandoned d"
    by (auto simp: submit_def signalWorker_def Let_def split: prod.splits)
  have "tq_pop (outputQueue d) = (None, outputQueue d)"
    using assms(4,5) tq_pop_Some(1) [of "outputQueue d"] tq_pop_None [of "outputQueue d"]
    by (cases "tq_pop (outputQueue d)"; cases "fst (tq_pop (outputQueue d))") auto
  then have "collect QUEUE_CAPACITY ep ?s = Some (None, ?s\<lparr>outputUnderflows := outputUnderflows ?s + 1\<rparr>)"
    using s(1) collect.simps(2) [of 31 ep ?s] by (simp add: QUEUE_CAPACITY_def)
  then show ?thesis using assms s by (simp add: processBlock_def DPDFNET_BLOCK_SAMPLES_def Let_def hasFailed_def)
qed

lemma silenced_block:
  assumes "apply_settings E sr (p, g) = Some (q, k)" "g_nrEnabled k" "watch q = (Dpdfnet, seen, n)" "n < allowance seen"
    "isReady (m_dpdfnet q)" "tq_inv (outputQueue (m_dpdfnet q))" "tq_contents (outputQueue (m_dpdfnet q)) = []" "length smp = 480"
  shows "\<exists>out p'. process E 0 0 smp sr (p, g) = Some (Silenced, out, p', k) \<and> m_rnnoise p' = m_rnnoise q"
proof -
  have act: "m_activeBackend q = Dpdfnet" using assms(3) by (simp add: watch_def)
  obtain den d' where b: "processBlock smp (replicate 480 0) (m_streamEpoch q) (m_dpdfnet q) = Some (False, den, d')" "\<not> hasFailed d'"
    using processBlock_nothing [of "m_dpdfnet q" smp "m_streamEpoch q"] assms(5-8) by (auto simp: isReady_def)
  let ?q = "q\<lparr>m_dpdfnet := d'\<rparr>"
  obtain stuck r where u: "recordDpdfnetUnderflow ?q = (stuck, r)" by (cases "recordDpdfnetUnderflow ?q")
  have "silences ?q = n" "m_dpdfnetSeenOutput ?q = seen" using assms(3) by (simp_all add: watch_def silences_def)
  then have "\<not> stuck" using record_underflow(1) [OF u] assms(4) by simp
  moreover have "m_rnnoise r = m_rnnoise q" using u by (auto simp: recordDpdfnetUnderflow_def Let_def)
  ultimately have "denoise_block E 0 0 smp (q, k) = Some (Silenced, replicate 480 0, r, k)" "m_rnnoise r = m_rnnoise q"
    using act assms(5) b u by (simp_all add: denoise_block_def)
  moreover obtain out p' where "processPostDenoise E k (replicate 480 0) r = (out, p')" by (cases "processPostDenoise E k (replicate 480 0) r")
  moreover from this have "m_rnnoise p' = m_rnnoise r" by (auto simp: processPostDenoise_def Let_def split: prod.splits if_splits)
  ultimately show ?thesis using assms(1,2,8) by (simp add: process_def)
qed

lemma apply_settings_settled:
  assumes "settled p g"
  shows "\<exists>q. apply_settings E sr (p, g) = Some (q, g) \<and> watch q = watch p \<and> m_dpdfnet q = m_dpdfnet p \<and>
    (rnnoise_fine p \<longrightarrow> rnnoise_fine q)"
proof -
  let ?q = "follow_eq (pe_math E) sr g (follow_strength g p)"
  have a: "apply_settings E sr (p, g) = Some (?q, g)"
    using assms by (simp add: apply_settings_def follow_backend_def settled_def)
  have "m_dpdfnet ?q = m_dpdfnet p" "m_rnnoise ?q = m_rnnoise p \<or> m_rnnoise ?q = map_option (\<lambda>st. rnnoise_set_strength st (g_nrStrength g)) (m_rnnoise p)"
    by (auto simp: follow_eq_def follow_strength_def updateSettings_def configureEq_def Let_def)
  moreover have "denoise_inv st \<Longrightarrow> denoise_inv (rnnoise_set_strength st v)" for st v
    by (auto simp: rnnoise_set_strength_def denoise_inv_def state_sizes_def Let_def)
  ultimately show ?thesis using a apply_settings_watch(4) [OF a assms] by (auto simp: rnnoise_fine_def)
qed

text \<open>A block more on a pipeline that has taken the settings in.\<close>

lemma next_silence:
  assumes "settled p g" "g_nrEnabled g" "watch p = (Dpdfnet, seen, n)" "n < allowance seen" "rnnoise_fine p" "length smp = 480"
  shows "\<exists>out p'. process E 0 0 smp sr (p\<lparr>m_dpdfnet := hung\<rparr>, g) = Some (Silenced, out, p', g) \<and>
    settled p' g \<and> watch p' = (Dpdfnet, seen, n + 1) \<and> rnnoise_fine p'"
proof -
  let ?p = "p\<lparr>m_dpdfnet := hung\<rparr>"
  have p: "settled ?p g" "watch ?p = (Dpdfnet, seen, n)" "rnnoise_fine ?p"
    using assms by (simp_all add: settled_def watch_def silences_def rnnoise_fine_def)
  obtain q where q: "apply_settings E sr (?p, g) = Some (q, g)" "watch q = (Dpdfnet, seen, n)" "m_dpdfnet q = hung" "rnnoise_fine q"
    using apply_settings_settled [OF p(1), of E sr] p(2,3) by auto
  obtain out p' where r: "process E 0 0 smp sr (?p, g) = Some (Silenced, out, p', g)" "m_rnnoise p' = m_rnnoise q"
    using silenced_block [OF q(1) assms(2) q(2) assms(4) _ _ _ assms(6)] q(3) hung_ready hung_queue by auto
  have "watch_ok ?p" using p(2) assms(4) by (simp add: watch_ok_legal)
  from process_watch [OF r(1) this assms(6,2)] p show ?thesis using r q(4) by (auto simp: rnnoise_fine_def)
qed

lemma last_silence:
  assumes "settled p g" "g_nrEnabled g" "watch p = (Dpdfnet, seen, allowance seen)" "rnnoise_fine p" "length smp = 480"
    "denoise_env_ok (pe_denoise E)"
  shows "\<exists>out p' g'. process E 0 0 smp sr (p\<lparr>m_dpdfnet := hung\<rparr>, g) = Some (FromRnnoise, out, p', g')"
proof -
  let ?p = "p\<lparr>m_dpdfnet := hung\<rparr>"
  have p: "settled ?p g" "watch ?p = (Dpdfnet, seen, allowance seen)" "rnnoise_fine ?p"
    using assms by (simp_all add: settled_def watch_def silences_def rnnoise_fine_def)
  obtain q where q: "apply_settings E sr (?p, g) = Some (q, g)" "watch q = (Dpdfnet, seen, allowance seen)" "m_dpdfnet q = hung" "rnnoise_fine q"
    using apply_settings_settled [OF p(1), of E sr] p(2,3) by auto
  obtain den d' where b: "processBlock smp (replicate 480 0) (m_streamEpoch q) hung = Some (False, den, d')" "\<not> hasFailed d'"
    using processBlock_nothing [of hung smp "m_streamEpoch q"] assms(5) hung_queue hung_ready by (auto simp: isReady_def)
  let ?q = "q\<lparr>m_dpdfnet := d'\<rparr>"
  obtain stuck r where u: "recordDpdfnetUnderflow ?q = (stuck, r)" by (cases "recordDpdfnetUnderflow ?q")
  have "silences ?q = allowance (m_dpdfnetSeenOutput ?q)" using q(2) by (simp add: watch_def silences_def)
  then have "stuck" using record_underflow(1) [OF u] by simp
  obtain s k where deg: "degradeDpdfnet (r, g) = (s, k)" by (cases "degradeDpdfnet (r, g)")
  have "m_rnnoise s = m_rnnoise q" using deg u by (auto simp: degradeDpdfnet_def recordDpdfnetUnderflow_def Let_def split: if_splits)
  then obtain st where st: "m_rnnoise s = Some st" "denoise_inv st" using q(4) by (auto simp: rnnoise_fine_def)
  obtain st' out vad where "rnnoise_process_frame (pe_denoise E) st smp = Some (st', out, vad)"
    using process_frame_inv [OF assms(6) st(2), of smp] assms(5) by (auto simp: denoise_sizes)
  then have "rnnoise_fallback E smp r g = Some (FromRnnoise, out, s\<lparr>m_rnnoise := Some st'\<rparr>, k)"
    by (simp add: rnnoise_fallback_def deg processRnnoise_def st(1))
  then have "denoise_block E 0 0 smp (q, g) = Some (FromRnnoise, out, s\<lparr>m_rnnoise := Some st'\<rparr>, k)"
    using q(2,3) b u \<open>stuck\<close> by (simp add: denoise_block_def watch_def hung_ready(2))
  then show ?thesis using q(1) assms(2,5) by (simp add: process_def split: prod.split)
qed

lemma reset_fine:
  assumes "init_ok E"
  shows "\<exists>st'. rnnoise_reset E (Some st) = Some (Some st') \<and> (denoise_inv st \<longrightarrow> denoise_inv st')"
proof -
  obtain r s where i: "rnnoise_init E None = Some (r, s)"
    by (cases "e_init_rnnoise E (e_arrays E)") (simp add: rnnoise_init_def Let_def, cases "fst (e_init_rnnoise E (e_arrays E)) = 0", simp_all)
  then have "r = 0" using assms by (auto simp: rnnoise_init_def init_ok_def Let_def split: prod.splits if_splits)
  then have "denoise_inv s" using init_inv [of E None s] i assms by simp
  then have "denoise_inv (s\<lparr>strength := strength st\<rparr>)" if "denoise_inv st" using that by (simp add: denoise_inv_def state_sizes_def)
  then show ?thesis using i by (simp add: rnnoise_reset_def Let_def)
qed

lemma first_silence:
  assumes "\<not> settled p g" "g_nrEnabled g" "g_denoiseBackend g = backend_int Dpdfnet" "rnnoise_fine p" "init_ok (pe_denoise E)" "length smp = 480"
  shows "\<exists>out p' g'. process E 0 0 smp sr (p\<lparr>m_dpdfnet := hung\<rparr>, g) = Some (Silenced, out, p', g') \<and>
    same_settings g g' \<and> settled p' g' \<and> watch p' = (Dpdfnet, False, 1) \<and> rnnoise_fine p'"
proof -
  let ?p = "p\<lparr>m_dpdfnet := hung\<rparr>"
  obtain st where s0: "m_rnnoise p = Some st" "denoise_inv st" using assms(4) by (auto simp: rnnoise_fine_def)
  then obtain st' where st: "m_rnnoise p = Some st" "rnnoise_reset (pe_denoise E) (Some st) = Some (Some st')" "denoise_inv st'"
    using reset_fine [OF assms(5), of st] by auto
  define ep where "ep = m_streamEpoch p + 1"
  have fb: "\<exists>q k. follow_backend E (?p, g) = Some (q, k) \<and> watch q = (Dpdfnet, False, 0) \<and> m_dpdfnet q = setEpoch ep hung \<and> m_rnnoise q = Some st'"
    using assms(1-3) st hung_ready(1) [of ep]
    by (auto simp: follow_backend_def settled_def resetStreamState_def resetDpdfnetWatchdog_def resetPostDenoiseState_def Let_def
        chooseEffectiveBackend_def watch_def silences_def ep_def)
  then obtain q k where q: "follow_backend E (?p, g) = Some (q, k)" "watch q = (Dpdfnet, False, 0)" "m_dpdfnet q = setEpoch ep hung" "rnnoise_fine q"
    using st(3) by (auto simp: rnnoise_fine_def)
  note w = follow_backend_watch [OF q(1)]
  have a1: "apply_settings E sr (?p, g) = Some (follow_eq (pe_math E) sr k (follow_strength k q), k)" using q(1) by (simp add: apply_settings_def)
  obtain q2 where q2: "apply_settings E sr (q, k) = Some (q2, k)" "watch q2 = watch q" "m_dpdfnet q2 = m_dpdfnet q" "rnnoise_fine q2"
    using apply_settings_settled [OF w(1), of E sr] q(4) by auto
  have "apply_settings E sr (?p, g) = Some (q2, k)"
    using a1 q2(1) w(1) by (simp add: apply_settings_def follow_backend_def settled_def)
  note a = this q2(2-4)
  have nr: "g_nrEnabled k" using w(2) assms(2) by (simp add: same_settings_def)
  have "tq_inv (outputQueue (setEpoch ep hung))" "tq_contents (outputQueue (setEpoch ep hung)) = []"
    using hung_queue tq_discard_contents [of "outputQueue hung"] by (auto simp: setEpoch_def signalWorker_def)
  then obtain out p' where r: "process E 0 0 smp sr (?p, g) = Some (Silenced, out, p', k)" "m_rnnoise p' = m_rnnoise q2"
    using silenced_block [OF a(1) nr, of False 0 smp] a(2,3) q(2,3) hung_ready(1) [of ep] assms(6) by (auto simp: allowance_def)
  from a(1) apply_settings_watch(1) have "settled q2 k" by blast
  have "settled p' k \<and> watch p' = (Dpdfnet, False, 1)"
  proof -
    have act: "denoise_block E 0 0 smp (q2, k) \<bind> (\<lambda>(src, smp, p, g). let (out, p) = processPostDenoise E g smp p in Some (src, out, p, g))
        = Some (Silenced, out, p', k)"
      using r(1) a(1) nr assms(6) by (simp add: process_def)
    then obtain src' smp' s l where d: "denoise_block E 0 0 smp (q2, k) = Some (src', smp', s, l)" by (cases "denoise_block E 0 0 smp (q2, k)") auto
    then have post: "processPostDenoise E l smp' s = (out, p')" "src' = Silenced" "l = k" using act by (auto simp: Let_def split: prod.splits)
    have "watch_ok q2" using a(2) q(2) by (simp add: watch_ok_legal)
    from denoise_block_watch [OF d this, of k] show ?thesis
      using processPostDenoise_watch [OF post(1)] post(2,3) \<open>settled q2 k\<close> a(2) q(2) by simp
  qed
  then show ?thesis using r a(4) w(2) by (auto simp: rnnoise_fine_def)
qed

definition demo_env :: "real pipe_env" where
  "demo_env = \<lparr>pe_denoise = exact_env, pe_sherpa = \<lparr>run = \<lambda>_ _. None, finite_sample = \<lambda>_. True\<rparr>,
     pe_math = \<lparr>cosf = cos, sinf = sin, powf = (powr), sqrtf = sqrt, expf = exp, log10f = log 10\<rparr>, pe_load = good_load\<rparr>"

lemma demo_created:
  "\<exists>p g'. pipe_init demo_env True 48000 48000 ''d'' ''m'' (pipeline_new, app_state_new\<lparr>g_denoiseBackend := 0\<rparr>) = Some (True, p, g') \<and>
     rnnoise_fine p \<and> m_lastRequestedBackend p = - 1"
proof -
  let ?st = "zero_state\<lparr>strength := lit 0.6\<rparr>\<lparr>st_model := empty_model\<rparr> :: real DenoiseState"
  have c: "rnnoise_init exact_env None = Some (0, ?st)" by (simp add: rnnoise_init_def exact_env_def)
  then have "denoise_inv ?st" using init_inv [OF c] exact_env_ok(2) by blast
  then have "denoise_inv (rnnoise_set_strength ?st v)" for v
    by (auto simp: rnnoise_set_strength_def denoise_inv_def state_sizes_def Let_def)
  moreover have "rnnoise_create exact_env True None = Some (Some ?st)" by (simp add: rnnoise_create_def c)
  ultimately show ?thesis
    by (simp add: pipe_init_def pipeline_new_def app_state_new_def demo_env_def setDpdfnetLoadState_def Let_def case_prod_beta
        resetDpdfnetWatchdog_def resetPostDenoiseState_def configureEq_def rnnoise_fine_def)
qed

theorem watchdog_bounds_silence_witness:
  "\<exists>p g srcs. pipe_reach demo_env p \<and> blocks demo_env p g srcs \<and> srcs = [Silenced, Silenced, Silenced, Silenced, FromRnnoise] \<and>
     (\<exists>j<5. srcs ! j \<noteq> Silenced)"
proof -
  let ?g = "app_state_new :: real AppState" and ?x = "replicate 480 (1::real)"
  obtain p g0 where c: "pipe_init demo_env True 48000 48000 ''d'' ''m'' (pipeline_new, ?g\<lparr>g_denoiseBackend := 0\<rparr>) = Some (True, p, g0)"
    "rnnoise_fine p" "m_lastRequestedBackend p = - 1" using demo_created by blast
  have nr: "g_nrEnabled ?g" "g_denoiseBackend ?g = backend_int Dpdfnet" by (simp_all add: app_state_new_def)
  have env: "denoise_env_ok (pe_denoise demo_env)" "init_ok (pe_denoise demo_env)" using exact_env_ok by (simp_all add: demo_env_def)
  have "\<not> settled p ?g" using c(3) nr by (simp add: settled_def)
  from first_silence [OF this nr c(2) env(2), of ?x 48000] obtain o1 p1 g1 where
    s1: "process demo_env 0 0 ?x 48000 (p\<lparr>m_dpdfnet := hung\<rparr>, ?g) = Some (Silenced, o1, p1, g1)" "same_settings ?g g1" "settled p1 g1"
    "watch p1 = (Dpdfnet, False, 1)" "rnnoise_fine p1" by auto
  have g1: "g_nrEnabled g1" using s1(2) nr(1) by (simp add: same_settings_def)
  obtain o2 p2 where s2: "process demo_env 0 0 ?x 48000 (p1\<lparr>m_dpdfnet := hung\<rparr>, g1) = Some (Silenced, o2, p2, g1)" "settled p2 g1"
    "watch p2 = (Dpdfnet, False, 2)" "rnnoise_fine p2"
    using next_silence [OF s1(3) g1 s1(4) _ s1(5), of ?x demo_env 48000] by (auto simp: allowance_def)
  obtain o3 p3 where s3: "process demo_env 0 0 ?x 48000 (p2\<lparr>m_dpdfnet := hung\<rparr>, g1) = Some (Silenced, o3, p3, g1)" "settled p3 g1"
    "watch p3 = (Dpdfnet, False, 3)" "rnnoise_fine p3"
    using next_silence [OF s2(2) g1 s2(3) _ s2(4), of ?x demo_env 48000] by (auto simp: allowance_def)
  obtain o4 p4 where s4: "process demo_env 0 0 ?x 48000 (p3\<lparr>m_dpdfnet := hung\<rparr>, g1) = Some (Silenced, o4, p4, g1)" "settled p4 g1"
    "watch p4 = (Dpdfnet, False, 4)" "rnnoise_fine p4"
    using next_silence [OF s3(2) g1 s3(3) _ s3(4), of ?x demo_env 48000] by (auto simp: allowance_def)
  obtain o5 p5 g5 where s5: "process demo_env 0 0 ?x 48000 (p4\<lparr>m_dpdfnet := hung\<rparr>, g1) = Some (FromRnnoise, o5, p5, g5)"
    using last_silence [OF s4(2) g1 _ s4(4) _ env(1), of False ?x 48000] s4(3) by (auto simp: allowance_def)
  have same: "same_settings h h" for h :: "real AppState" by (simp add: same_settings_def)
  have "blocks demo_env p ?g [Silenced, Silenced, Silenced, Silenced, FromRnnoise]"
    using same by (intro blocks.block [OF _ _ s1(1)] blocks.block [OF _ _ s2(1)] blocks.block [OF _ _ s3(1)] blocks.block [OF _ _ s4(1)]
        blocks.block [OF _ _ s5] blocks.none) simp_all
  moreover have "pipe_reach demo_env p" using pipe_reach.created [OF c(1)] .
  ultimately show ?thesis using watchdog_bounds_silence [of demo_env p ?g "[Silenced, Silenced, Silenced, Silenced, FromRnnoise]"] nr(1)
    by (intro exI [of _ p] exI [of _ ?g] exI [of _ "[Silenced, Silenced, Silenced, Silenced, FromRnnoise]"]) force
qed

end
