(* ===== verification/C_Strings.thy ===== *)
theory C_Strings
  imports VM_Prelude "HOL-Library.Sublist"
begin

text \<open>
  The C and C++ string functions the program uses: ASCII lower case and \<open>_stricmp\<close>,
  \<open>std::string::find\<close> as a test, \<open>std::getline\<close> over a whole text, \<open>std::to_string\<close>.
  Strings are lists of characters without null characters.
\<close>

definition lower_char :: "char \<Rightarrow> char" where
  "lower_char c = (let n = of_char c :: nat in if 65 \<le> n \<and> n \<le> 90 then char_of (n + 32) else c)"

definition same_text :: "string \<Rightarrow> string \<Rightarrow> bool" where
  "same_text a b \<longleftrightarrow> map lower_char a = map lower_char b"

definition has_text :: "string \<Rightarrow> string \<Rightarrow> bool" where
  "has_text s t \<longleftrightarrow> sublist t s"

text \<open>The lines of a text; a last line without a line feed counts when it is not empty.\<close>

fun getlines_from :: "string \<Rightarrow> string \<Rightarrow> string list" where
  "getlines_from line [] = (if line = [] then [] else [line])"
| "getlines_from line (c # s) = (if c = CHR 0x0A then line # getlines_from [] s else getlines_from (line @ [c]) s)"

definition getlines :: "string \<Rightarrow> string list" where
  "getlines = getlines_from []"

fun decimal :: "nat \<Rightarrow> string" where
  "decimal n = (if n < 10 then [char_of (48 + n)] else decimal (n div 10) @ [char_of (48 + n mod 10)])"

declare decimal.simps [simp del]

definition to_string :: "int \<Rightarrow> string" where
  "to_string n = (if n < 0 then ''-'' @ decimal (nat (- n)) else decimal (nat n))"

lemma same_text_refl [simp]: "same_text s s"
  by (simp add: same_text_def)

lemma rnnoise_not_dpdfnet [simp]: "\<not> same_text ''rnnoise'' ''dpdfnet''"
  by (simp add: same_text_def lower_char_def)

lemma getlines_from_append:
  "CHR 0x0A \<notin> set l \<Longrightarrow> getlines_from p (l @ CHR 0x0A # s) = (p @ l) # getlines_from [] s"
  by (induction l arbitrary: p) auto

lemma getlines_line: "CHR 0x0A \<notin> set l \<Longrightarrow> getlines (l @ CHR 0x0A # s) = l # getlines s"
  by (simp add: getlines_def getlines_from_append)

end
