(* ===== verification/App_Config.thy ===== *)
theory App_Config
  imports C_Strings Dsp_Pipeline
begin

text \<open>
  \<open>src/config.h\<close> and \<open>src/config.cpp\<close>: the settings and the file they are kept in, and from
  \<open>src/main.cpp\<close> the step that hands them to the DSP (\<open>syncDspAtomsFromConfig\<close>).

  The profile functions of Windows and the number formats of the C library are parameters, the record
  \<open>ini\<close>: its type argument \<open>'i\<close> is the contents of the file, a read sees them and a write may change
  them and may fail. Strings are C strings, without null characters. The path of the file
  (\<open>getIniPath\<close>) only appears in the text of an error.
\<close>

record ('a, 'i) ini =
  GetPrivateProfileString :: "'i \<Rightarrow> string \<Rightarrow> string \<Rightarrow> nat \<Rightarrow> string"
  GetPrivateProfileInt :: "'i \<Rightarrow> string \<Rightarrow> int \<Rightarrow> int"
  WritePrivateProfileString :: "string \<Rightarrow> string \<Rightarrow> 'i \<Rightarrow> bool \<times> 'i"
  file_exists :: "'i \<Rightarrow> bool"
  ini_path :: string
  atof :: "string \<Rightarrow> 'a"
  format_2f :: "'a \<Rightarrow> string"
  format_d :: "int \<Rightarrow> string"

record 'a Config =
  c_serial :: string
  c_host :: string
  c_port :: int
  c_androidSocket :: string
  c_androidComponent :: string
  c_androidAppPreset :: int
  c_gain :: 'a
  c_nsEnabled :: bool
  c_aecEnabled :: bool
  c_agcEnabled :: bool
  c_eqEnabled :: bool
  c_eqPresence :: 'a
  c_eqBassCut :: 'a
  c_compressorEnabled :: bool
  c_nrEnabled :: bool
  c_nrStrength :: 'a
  c_denoiseBackend :: string
  c_debugConsole :: bool
  c_demandMode :: bool
  c_alwaysHot :: bool

definition config_new :: "'a::{one,uminus,scaleR} Config" where
  "config_new = \<lparr>c_serial = '''', c_host = ''127.0.0.1'', c_port = 27183, c_androidSocket = ''audiosource'',
     c_androidComponent = ''com.voxmic.source/.MainActivity'', c_androidAppPreset = 1, c_gain = lit 1.35,
     c_nsEnabled = False, c_aecEnabled = True, c_agcEnabled = False, c_eqEnabled = False, c_eqPresence = lit 3,
     c_eqBassCut = - lit 3, c_compressorEnabled = False, c_nrEnabled = True, c_nrStrength = lit 0.6,
     c_denoiseBackend = ''dpdfnet'', c_debugConsole = False, c_demandMode = True, c_alwaysHot = False\<rparr>"

section \<open>Reading and writing one key\<close>

definition readIniString :: "('a, 'i) ini \<Rightarrow> 'i \<Rightarrow> string \<Rightarrow> string \<Rightarrow> string" where
  "readIniString P i key def = GetPrivateProfileString P i key def 256"

definition hasIniKey :: "('a, 'i) ini \<Rightarrow> 'i \<Rightarrow> string \<Rightarrow> bool" where
  "hasIniKey P i key \<longleftrightarrow> GetPrivateProfileString P i key ''__VOXMIC_MISSING__'' 32 \<noteq> ''__VOXMIC_MISSING__''"

definition readIniInt :: "('a, 'i) ini \<Rightarrow> 'i \<Rightarrow> string \<Rightarrow> int \<Rightarrow> int" where
  "readIniInt P i key def = GetPrivateProfileInt P i key def"

definition readIniFloat :: "('a, 'i) ini \<Rightarrow> 'i \<Rightarrow> string \<Rightarrow> 'a \<Rightarrow> 'a" where
  "readIniFloat P i key def = atof P (GetPrivateProfileString P i key (take 63 (format_2f P def)) 64)"

text \<open>The text each of \<open>writeIniString\<close>, \<open>writeIniInt\<close> and \<open>writeIniFloat\<close> hands to the profile function.\<close>

definition writeIniString :: "('a, 'i) ini \<Rightarrow> string \<Rightarrow> string \<Rightarrow> 'i \<Rightarrow> bool \<times> 'i" where
  "writeIniString P key val = WritePrivateProfileString P key val"

definition writeIniInt :: "('a, 'i) ini \<Rightarrow> string \<Rightarrow> int \<Rightarrow> 'i \<Rightarrow> bool \<times> 'i" where
  "writeIniInt P key val = WritePrivateProfileString P key (take 31 (format_d P val))"

definition writeIniFloat :: "('a, 'i) ini \<Rightarrow> string \<Rightarrow> 'a \<Rightarrow> 'i \<Rightarrow> bool \<times> 'i" where
  "writeIniFloat P key val = WritePrivateProfileString P key (take 31 (format_2f P val))"

definition normalizeDenoiseBackend :: "string \<Rightarrow> string" where
  "normalizeDenoiseBackend v = (if same_text v ''dpdfnet'' then ''dpdfnet'' else ''rnnoise'')"

section \<open>The whole configuration\<close>

text \<open>The two comparisons that follow each of the four numbers read from the file.\<close>

definition clamp_to :: "'a \<Rightarrow> 'a \<Rightarrow> 'a::ord \<Rightarrow> 'a" where
  "clamp_to lo hi v = (let v = (if v < lo then lo else v) in if hi < v then hi else v)"

definition load :: "('a::{zero,one,uminus,ord,scaleR}, 'i) ini \<Rightarrow> 'i \<Rightarrow> 'a Config" where
  "load P i =
     (let hasConfigFile = file_exists P i;
          legacyDefaults = (hasConfigFile \<and> \<not> hasIniKey P i ''DenoiseBackend'');
          flag = (\<lambda>key def. readIniInt P i key (if def then 1 else 0) \<noteq> 0)
      in \<lparr>c_serial = readIniString P i ''Serial'' '''',
          c_host = readIniString P i ''Host'' ''127.0.0.1'',
          c_port = readIniInt P i ''Port'' 27183,
          c_androidSocket = readIniString P i ''AndroidSocket'' ''audiosource'',
          c_androidComponent = readIniString P i ''AndroidComponent'' ''com.voxmic.source/.MainActivity'',
          c_androidAppPreset = readIniInt P i ''AndroidAppPreset'' 1,
          c_gain = clamp_to (lit 0.25) (lit 4) (readIniFloat P i ''Gain'' (lit 1.35)),
          c_nsEnabled = flag ''NsEnabled'' False,
          c_aecEnabled = flag ''AecEnabled'' True,
          c_agcEnabled = flag ''AgcEnabled'' False,
          c_eqEnabled = flag ''EqEnabled'' legacyDefaults,
          c_eqPresence = clamp_to 0 (lit 8) (readIniFloat P i ''EqPresence'' (lit 3)),
          c_eqBassCut = clamp_to (- lit 6) 0 (readIniFloat P i ''EqBassCut'' (- lit 3)),
          c_compressorEnabled = flag ''CompressorEnabled'' legacyDefaults,
          c_nrEnabled = flag ''NrEnabled'' True,
          c_nrStrength = clamp_to (lit 0.3) (lit 0.95) (readIniFloat P i ''NrStrength'' (lit 0.6)),
          c_denoiseBackend = normalizeDenoiseBackend
            (readIniString P i ''DenoiseBackend'' (if legacyDefaults then ''rnnoise'' else ''dpdfnet'')),
          c_debugConsole = flag ''DebugConsole'' legacyDefaults,
          c_demandMode = flag ''DemandMode'' True,
          c_alwaysHot = flag ''AlwaysHot'' False\<rparr>)"

text \<open>\<open>save\<close> writes every key, also after one of them has failed.\<close>

fun write_keys :: "('i \<Rightarrow> bool \<times> 'i) list \<Rightarrow> 'i \<Rightarrow> bool \<times> 'i" where
  "write_keys [] i = (True, i)"
| "write_keys (w # ws) i = (let (ok1, i) = w i; (ok2, i) = write_keys ws i in (ok1 \<and> ok2, i))"

definition save_writes :: "('a, 'i) ini \<Rightarrow> 'a Config \<Rightarrow> ('i \<Rightarrow> bool \<times> 'i) list" where
  "save_writes P c =
     (let flag = (\<lambda>key b. writeIniInt P key (if b then 1 else 0))
      in [writeIniString P ''Serial'' (c_serial c), writeIniString P ''Host'' (c_host c), writeIniInt P ''Port'' (c_port c),
          writeIniString P ''AndroidSocket'' (c_androidSocket c), writeIniString P ''AndroidComponent'' (c_androidComponent c),
          writeIniInt P ''AndroidAppPreset'' (c_androidAppPreset c), writeIniFloat P ''Gain'' (c_gain c),
          flag ''NsEnabled'' (c_nsEnabled c), flag ''AecEnabled'' (c_aecEnabled c), flag ''AgcEnabled'' (c_agcEnabled c),
          flag ''EqEnabled'' (c_eqEnabled c), writeIniFloat P ''EqPresence'' (c_eqPresence c),
          writeIniFloat P ''EqBassCut'' (c_eqBassCut c), flag ''CompressorEnabled'' (c_compressorEnabled c),
          flag ''NrEnabled'' (c_nrEnabled c), writeIniFloat P ''NrStrength'' (c_nrStrength c),
          writeIniString P ''DenoiseBackend'' (normalizeDenoiseBackend (c_denoiseBackend c)),
          flag ''DebugConsole'' (c_debugConsole c), flag ''DemandMode'' (c_demandMode c), flag ''AlwaysHot'' (c_alwaysHot c)])"

definition save :: "('a, 'i) ini \<Rightarrow> 'a Config \<Rightarrow> 'i \<Rightarrow> (AppError + unit) \<times> 'i" where
  "save P c i =
     (let (ok, i) = write_keys (save_writes P c) i
      in if ok then (Inr (), i) else (Inl (AppError_make Io (''could not write every key to '' @ ini_path P)), i))"

section \<open>From the configuration to the DSP\<close>

text \<open>
  The pipeline is there once the audio output has been created (\<open>g_wasapiOutput\<close>). \<open>rate\<close> is its sample rate
  and \<open>n\<close> the steps a worker that is told to stop gets before its time is up.
\<close>

definition syncDspAtomsFromConfig ::
  "'a::zero pipe_env \<Rightarrow> int \<Rightarrow> nat \<Rightarrow> 'a Config \<Rightarrow> bool \<Rightarrow> 'a pipeline option \<times> 'a AppState \<Rightarrow> 'a pipeline option \<times> 'a AppState" where
  "syncDspAtomsFromConfig E rate n c committed = (\<lambda>(out, g).
     (let backend = (if same_text (c_denoiseBackend c) ''dpdfnet'' then backend_int Dpdfnet else backend_int Rnnoise);
          g = g\<lparr>g_gain := c_gain c, g_eqEnabled := c_eqEnabled c, g_eqPresence := c_eqPresence c,
                g_eqBassCut := c_eqBassCut c, g_compressorEnabled := c_compressorEnabled c,
                g_nrEnabled := c_nrEnabled c, g_nrStrength := c_nrStrength c, g_denoiseBackend := backend\<rparr>
      in case out of
           None \<Rightarrow> (None, g)
         | Some p \<Rightarrow>
             if backend = backend_int Dpdfnet then (let (p, g) = loadDpdfnetIfNeeded E rate (p, g) in (Some p, g))
             else if committed then (let (p, g) = releaseDpdfnet E n (p, g) in (Some p, g))
             else (Some p, g)))"

text \<open>The start of \<open>main\<close>: load, publish (there is no output yet), and the two flags of the bridge.\<close>

definition start_settings ::
  "('a::{zero,one,uminus,ord,scaleR}, 'i) ini \<Rightarrow> 'i \<Rightarrow> 'a pipe_env \<Rightarrow> int \<Rightarrow> nat \<Rightarrow> 'a AppState \<Rightarrow> 'a Config \<times> 'a AppState" where
  "start_settings P i E rate n g =
     (let cfg = load P i;
          (out, g) = syncDspAtomsFromConfig E rate n cfg False (None, g)
      in (cfg, g\<lparr>g_demandMode := c_demandMode cfg, g_alwaysHot := c_alwaysHot cfg\<rparr>))"

section \<open>What a loaded configuration is\<close>

text \<open>Neither below nor above: in the range, or not comparable at all.\<close>

definition in_range :: "'a \<Rightarrow> 'a \<Rightarrow> 'a::ord \<Rightarrow> bool" where
  "in_range lo hi v \<longleftrightarrow> \<not> v < lo \<and> \<not> hi < v"

lemma clamp_in_range:
  assumes asym: "\<And>x y :: 'a::ord. x < y \<Longrightarrow> \<not> y < x" and "lo < hi"
  shows "in_range lo hi (clamp_to lo hi (v :: 'a))"
proof -
  have "\<not> lo < lo" "\<not> hi < hi" "\<not> hi < lo" using asym [of lo lo] asym [of hi hi] asym [OF assms(2)] by auto
  then show ?thesis by (simp add: in_range_def clamp_to_def)
qed

lemma clamp_inside: "in_range lo hi v \<Longrightarrow> clamp_to lo hi v = v"
  by (simp add: in_range_def clamp_to_def)

definition config_ok :: "'a::{zero,one,uminus,ord,scaleR} Config \<Rightarrow> bool" where
  "config_ok c \<longleftrightarrow> in_range (lit 0.25) (lit 4) (c_gain c) \<and> in_range 0 (lit 8) (c_eqPresence c) \<and> in_range (- lit 6) 0 (c_eqBassCut c) \<and>
     in_range (lit 0.3) (lit 0.95) (c_nrStrength c) \<and> c_denoiseBackend c \<in> {''dpdfnet'', ''rnnoise''} \<and>
     (\<forall>s\<in>{c_serial c, c_host c, c_androidSocket c, c_androidComponent c}. length s < 256)"

text \<open>What the DSP sees agrees with the configuration.\<close>

definition published :: "'a Config \<Rightarrow> 'a AppState \<Rightarrow> bool" where
  "published c g \<longleftrightarrow> g_gain g = c_gain c \<and> g_eqEnabled g = c_eqEnabled c \<and> g_eqPresence g = c_eqPresence c \<and>
     g_eqBassCut g = c_eqBassCut c \<and> g_compressorEnabled g = c_compressorEnabled c \<and> g_nrEnabled g = c_nrEnabled c \<and>
     g_nrStrength g = c_nrStrength c \<and> g_demandMode g = c_demandMode c \<and> g_alwaysHot g = c_alwaysHot c \<and>
     g_denoiseBackend g = backend_int (if c_denoiseBackend c = ''dpdfnet'' then Dpdfnet else Rnnoise)"

lemma normalize_cases: "normalizeDenoiseBackend v \<in> {''dpdfnet'', ''rnnoise''}"
  by (simp add: normalizeDenoiseBackend_def)

lemma normalize_idem [simp]: "v \<in> {''dpdfnet'', ''rnnoise''} \<Longrightarrow> normalizeDenoiseBackend v = v"
  by (auto simp: normalizeDenoiseBackend_def)

text \<open>
  C39. Whatever the file holds, the configuration \<open>main\<close> starts with is well formed: the four numbers are not
  outside their ranges (a NaN in the file is neither below nor above and stays), the texts fit their buffers,
  the backend is one of the two names; and exactly that is what the DSP is given.
\<close>

theorem start_settings_well_formed:
  fixes P :: "('a::{zero,one,uminus,ord,scaleR}, 'i) ini"
  assumes "\<And>x y :: 'a. x < y \<Longrightarrow> \<not> y < x"
    "(lit 0.25 :: 'a) < lit 4" "(0 :: 'a) < lit 8" "(- lit 6 :: 'a) < 0" "(lit 0.3 :: 'a) < lit 0.95"
    "\<And>key def n. 0 < n \<Longrightarrow> length (GetPrivateProfileString P i key def n) < n"
    "start_settings P i E rate n g = (cfg, g')"
  shows "config_ok cfg \<and> published cfg g'"
proof
  have cfg: "cfg = load P i" using assms(7) by (auto simp: start_settings_def Let_def split: prod.splits)
  then show "config_ok cfg"
    using clamp_in_range [OF assms(1)] assms(2-6) normalize_cases by (simp add: config_ok_def load_def readIniString_def Let_def)
  then show "published cfg g'"
    using assms(7) by (auto simp: start_settings_def syncDspAtomsFromConfig_def published_def config_ok_def Let_def)
qed

text \<open>A file in which every key has the value \<open>9\<close>.\<close>

definition all_nine :: "(real, unit) ini" where
  "all_nine = \<lparr>GetPrivateProfileString = \<lambda>_ _ _ n. take (n - 1) ''9'', GetPrivateProfileInt = \<lambda>_ _ _. 9,
     WritePrivateProfileString = \<lambda>_ _ i. (True, i), file_exists = \<lambda>_. True, ini_path = ''config.ini'',
     atof = \<lambda>s. (if s = ''9'' then 9 else 0), format_2f = \<lambda>_. ''9.00'', format_d = \<lambda>_. ''9''\<rparr>"

theorem start_settings_well_formed_witness:
  "\<forall>E. \<exists>cfg g'. start_settings all_nine () E 48000 0 app_state_new = (cfg, g') \<and> config_ok cfg \<and> published cfg g' \<and>
     c_gain cfg = 4 \<and> c_eqBassCut cfg = 0 \<and> g_denoiseBackend g' = backend_int Rnnoise"
proof
  fix E :: "real pipe_env"
  obtain cfg g' where s: "start_settings all_nine () E 48000 0 app_state_new = (cfg, g')" by fastforce
  have "config_ok cfg \<and> published cfg g'"
    by (rule start_settings_well_formed [OF _ _ _ _ _ _ s]) (auto simp: all_nine_def)
  moreover have "cfg = load all_nine ()" using s by (auto simp: start_settings_def Let_def split: prod.splits)
  ultimately show "\<exists>cfg g'. start_settings all_nine () E 48000 0 app_state_new = (cfg, g') \<and> config_ok cfg \<and> published cfg g' \<and>
     c_gain cfg = 4 \<and> c_eqBassCut cfg = 0 \<and> g_denoiseBackend g' = backend_int Rnnoise" using s
    by (auto simp: load_def all_nine_def readIniFloat_def readIniString_def clamp_to_def normalizeDenoiseBackend_def
        same_text_def published_def Let_def)
qed

end
