(* ===== verification/Adb_Control.thy ===== *)
theory Adb_Control
  imports C_Strings
begin

text \<open>
  \<open>src/adb_control.h\<close> and \<open>src/adb_control.cpp\<close>: the program drives a phone through the command
  \<open>adb\<close> and reads its answers. \<open>runCommandNoWindow\<close> (a process with its output in a pipe) is a
  parameter: a command line and the outside world give a text, empty when the command could not be run,
  and a new world. The object's one member, the selected serial, is an argument and a result.
  The pause in \<open>setupAudioSource\<close> and log lines are left out.
\<close>

type_synonym 'w shell = "string \<Rightarrow> 'w \<Rightarrow> string \<times> 'w"

definition toLower :: "string \<Rightarrow> string" where "toLower s = map lower_char s"

definition hasAdbError :: "string \<Rightarrow> bool" where
  "hasAdbError result =
     (let lower = toLower result
      in has_text lower ''error'' \<or> has_text lower ''offline'' \<or> has_text lower ''unauthorized'' \<or>
         has_text lower ''no devices'' \<or> has_text lower ''more than one device'' \<or> has_text lower ''[timeout]'')"

definition isADBExists :: "'w shell \<Rightarrow> 'w \<Rightarrow> bool \<times> 'w" where
  "isADBExists sh w = (let (result, w) = sh ''adb version'' w in (has_text result ''Android Debug Bridge'', w))"

text \<open>A line of \<open>adb devices\<close>: serial, tab, status.\<close>

definition device_line :: "string \<Rightarrow> string option" where
  "device_line line =
     (let serial = takeWhile (\<lambda>c. c \<noteq> CHR 0x09) line
      in if length serial < length line \<and> has_text (drop (length serial + 1) line) ''device'' then Some serial else None)"

definition devices_in :: "string \<Rightarrow> string list" where
  "devices_in result = List.map_filter device_line (drop 1 (getlines result))"

definition getDevices :: "'w shell \<Rightarrow> 'w \<Rightarrow> string list \<times> 'w" where
  "getDevices sh w = (let (result, w) = sh ''adb devices'' w in (devices_in result, w))"

definition isDeviceOnline :: "'w shell \<Rightarrow> string \<Rightarrow> string \<Rightarrow> 'w \<Rightarrow> bool \<times> 'w" where
  "isDeviceOnline sh preferredSerial m_serial w =
     (let (devices, w) = getDevices sh w
      in if devices = [] then (False, w)
         else (let target = preferredSerial; target = (if target = '''' then m_serial else target)
               in if target = '''' then (True, w) else (target \<in> set devices, w)))"

definition adb_cmd :: "string \<Rightarrow> string" where
  "adb_cmd m_serial = (if m_serial \<noteq> '''' then ''adb -s '' @ m_serial else ''adb'')"

definition startApp :: "'w shell \<Rightarrow> string \<Rightarrow> string \<Rightarrow> bool \<Rightarrow> bool \<Rightarrow> bool \<Rightarrow> 'w \<Rightarrow> bool \<times> 'w" where
  "startApp sh m_serial component ns aec agc w =
     (let truth = (\<lambda>b. if b then ''true'' else ''false'');
          cmd = adb_cmd m_serial @ '' shell am start -n '' @ component @ '' --ez ns_enabled '' @ truth ns
            @ '' --ez aec_enabled '' @ truth aec @ '' --ez agc_enabled '' @ truth agc;
          (result, w) = sh cmd w
      in (\<not> hasAdbError result, w))"

definition removeForward :: "'w shell \<Rightarrow> string \<Rightarrow> int \<Rightarrow> 'w \<Rightarrow> 'w" where
  "removeForward sh m_serial port w = snd (sh (adb_cmd m_serial @ '' forward --remove tcp:'' @ to_string port) w)"

definition lists_forward :: "string \<Rightarrow> int \<Rightarrow> string \<Rightarrow> string \<Rightarrow> bool" where
  "lists_forward m_serial port remoteSocket result =
     (\<exists>line\<in>set (getlines result). (m_serial = '''' \<or> has_text line m_serial) \<and>
        has_text line (''tcp:'' @ to_string port) \<and> has_text line remoteSocket)"

definition verifyForward :: "'w shell \<Rightarrow> string \<Rightarrow> int \<Rightarrow> string \<Rightarrow> 'w \<Rightarrow> bool \<times> 'w" where
  "verifyForward sh m_serial port remoteSocket w =
     (let (result, w) = sh ''adb forward --list'' w
      in if hasAdbError result then (False, w) else (lists_forward m_serial port remoteSocket result, w))"

definition createForward :: "'w shell \<Rightarrow> string \<Rightarrow> int \<Rightarrow> string \<Rightarrow> 'w \<Rightarrow> bool \<times> 'w" where
  "createForward sh m_serial port remoteSocket w =
     (let w = removeForward sh m_serial port w;
          (result, w) = sh (adb_cmd m_serial @ '' forward tcp:'' @ to_string port @ '' '' @ remoteSocket) w
      in if hasAdbError result then (False, w) else verifyForward sh m_serial port remoteSocket w)"

definition refreshForward :: "'w shell \<Rightarrow> string \<Rightarrow> int \<Rightarrow> string \<Rightarrow> 'w \<Rightarrow> bool \<times> 'w" where
  "refreshForward sh m_serial port remoteSocket w =
     (let w = removeForward sh m_serial port w;
          (result, w) = sh (adb_cmd m_serial @ '' forward tcp:'' @ to_string port @ '' '' @ remoteSocket) w
      in if hasAdbError result then (False, w)
         else let (ok, w) = verifyForward sh m_serial port remoteSocket w
              in if \<not> ok then (False, w) else (True, w))"

definition adb_init :: "'w shell \<Rightarrow> string \<Rightarrow> string \<Rightarrow> 'w \<Rightarrow> bool \<times> string \<times> 'w" where
  "adb_init sh preferredSerial m_serial w =
     (let (found, w) = isADBExists sh w
      in if \<not> found then (False, m_serial, w)
         else let (devices, w) = getDevices sh w
              in if devices = [] then (False, m_serial, w)
                 else if preferredSerial \<noteq> '''' \<and> preferredSerial \<in> set devices then (True, preferredSerial, w)
                 else (True, hd devices, w))"

definition setupAudioSource ::
  "'w shell \<Rightarrow> string \<Rightarrow> string \<Rightarrow> string \<Rightarrow> int \<Rightarrow> bool \<Rightarrow> bool \<Rightarrow> bool \<Rightarrow> 'w \<Rightarrow> bool \<times> 'w" where
  "setupAudioSource sh m_serial androidComponent androidSocket port ns aec agc w =
     (let (ok, w) = startApp sh m_serial androidComponent ns aec agc w
      in if \<not> ok then (False, w)
         else let (ok, w) = createForward sh m_serial port (''localabstract:'' @ androidSocket) w
              in if \<not> ok then (False, w) else (True, w))"

definition adb_cleanup :: "'w shell \<Rightarrow> string \<Rightarrow> int \<Rightarrow> 'w \<Rightarrow> 'w" where
  "adb_cleanup sh m_serial port w = removeForward sh m_serial port w"

section \<open>What the answers mean\<close>

text \<open>A success of \<open>init\<close> selects a device that is listed: the preferred one where it is.\<close>

lemma adb_init_selects:
  assumes "adb_init sh pref old w = (True, s, w')"
  shows "\<exists>devices. s \<in> set devices \<and> (pref \<in> set devices \<and> pref \<noteq> '''' \<longrightarrow> s = pref)"
proof -
  obtain found w1 where e: "isADBExists sh w = (found, w1)" by fastforce
  obtain ds w2 where d: "getDevices sh w1 = (ds, w2)" by fastforce
  show ?thesis using assms by (intro exI [of _ ds]) (auto simp: adb_init_def e d split: if_splits)
qed

text \<open>
  After \<open>init\<close> has fallen back to another device, \<open>isDeviceOnline\<close> still asks for the preferred one: with
  the same list it says that the device in use is offline.
\<close>

lemma fallback_reported_offline:
  assumes "getDevices sh w = (devices, w')" "pref \<noteq> ''''" "pref \<notin> set devices"
  shows "isDeviceOnline sh pref m_serial w = (False, w')"
  using assms by (simp add: isDeviceOnline_def)

text \<open>A forward that is verified is listed with its port and its socket, in one line.\<close>

lemma verifyForward_line:
  assumes "verifyForward sh m_serial port sock w = (True, w')"
  shows "\<exists>line\<in>set (getlines (fst (sh ''adb forward --list'' w))). has_text line (''tcp:'' @ to_string port) \<and> has_text line sock"
  using assms by (auto simp: verifyForward_def lists_forward_def Let_def split: prod.splits if_splits)

end
