(* ===== verification/Socket_Client.thy ===== *)
theory Socket_Client
  imports VM_Prelude
begin

text \<open>
  \<open>src/socket_client.h\<close> and \<open>src/socket_client.cpp\<close>. The calls of Winsock are parameters over the
  outside world. Of the object's state only whether it holds a socket matters to its callers. \<open>recv\<close>
  answers with the bytes it got (none: the peer closed the connection) or with an error, of which the
  client tells the timeout apart.
\<close>

datatype recv_error = Closed | RECV_TIMEOUT | RECV_ERROR

record 'w winsock =
  ws_socket :: "'w \<Rightarrow> bool \<times> 'w"
  ws_connect :: "string \<Rightarrow> int \<Rightarrow> 'w \<Rightarrow> bool \<times> 'w"
  ws_select :: "'w \<Rightarrow> bool \<times> 'w"
  ws_recv :: "nat \<Rightarrow> 'w \<Rightarrow> (bool + byte list) \<times> 'w"

text \<open>\<open>connect\<close> drops a socket it holds; it then holds a new one exactly when it succeeds.\<close>

definition sc_connect :: "'w winsock \<Rightarrow> string \<Rightarrow> int \<Rightarrow> 'w \<Rightarrow> bool \<times> 'w" where
  "sc_connect S host port w =
     (let (ok, w) = ws_socket S w
      in if \<not> ok then (False, w)
         else let (ok, w) = ws_connect S host port w in if \<not> ok then (False, w) else (True, w))"

definition waitForData :: "'w winsock \<Rightarrow> bool \<Rightarrow> 'w \<Rightarrow> bool \<times> 'w" where
  "waitForData S isConnected w = (if \<not> isConnected then (False, w) else ws_select S w)"

text \<open>An error of \<open>recv\<close> is \<open>Inl\<close>, with \<open>True\<close> for the timeout.\<close>

function recvExact :: "'w winsock \<Rightarrow> nat \<Rightarrow> 'w \<Rightarrow> (recv_error + byte list) \<times> 'w" where
  "recvExact S n w =
     (if n = 0 then (Inr [], w)
      else case ws_recv S n w of
             (Inl timeout, w) \<Rightarrow> (Inl (if timeout then RECV_TIMEOUT else RECV_ERROR), w)
           | (Inr bytes, w) \<Rightarrow>
               if bytes = [] then (Inl Closed, w)
               else (case recvExact S (n - length bytes) w of
                       (Inl e, w) \<Rightarrow> (Inl e, w)
                     | (Inr rest, w) \<Rightarrow> (Inr (bytes @ rest), w)))"
  by pat_completeness auto

termination by (relation "measure (\<lambda>(_, n, _). n)") auto

declare recvExact.simps [simp del]

definition recv_ok :: "'w winsock \<Rightarrow> bool" where
  "recv_ok S \<longleftrightarrow> (\<forall>n w bytes w'. ws_recv S n w = (Inr bytes, w') \<longrightarrow> length bytes \<le> n)"

lemma recvExact_cases:
  assumes "recvExact S n w = (Inr bytes, w')" "n \<noteq> 0"
  obtains b rest w1 where "ws_recv S n w = (Inr b, w1)" "b \<noteq> []" "recvExact S (n - length b) w1 = (Inr rest, w')" "bytes = b @ rest"
proof -
  obtain r w1 where r: "ws_recv S n w = (r, w1)" by fastforce
  show thesis
  proof (cases r)
    case (Inl a)
    then show ?thesis using assms r by (subst (asm) recvExact.simps) simp
  next
    case (Inr b)
    then show ?thesis using assms r that
      by (subst (asm) recvExact.simps) (simp split: if_splits prod.splits sum.splits)
  qed
qed

text \<open>A read that succeeds has exactly the size asked for, however the stream is cut into pieces.\<close>

lemma recvExact_length:
  assumes "recv_ok S"
  shows "recvExact S n w = (Inr bytes, w') \<Longrightarrow> length bytes = n"
proof (induction n arbitrary: w bytes rule: less_induct)
  case (less n)
  show ?case
  proof (cases "n = 0")
    case True then show ?thesis using less.prems by (subst (asm) recvExact.simps) simp
  next
    case False
    from recvExact_cases [OF less.prems False] obtain b rest w1 where
      b: "ws_recv S n w = (Inr b, w1)" "b \<noteq> []" "recvExact S (n - length b) w1 = (Inr rest, w')" "bytes = b @ rest" .
    have "length b \<le> n" using assms b(1) unfolding recv_ok_def by blast
    moreover have "length rest = n - length b" using less.IH [OF _ b(3)] b(2) False by simp
    ultimately show ?thesis using b(4) by simp
  qed
qed

end
