(* ===== verification/Audio_Bridge.thy ===== *)
theory Audio_Bridge
  imports App_Config Adb_Control Socket_Client Ring_Buffer
begin

text \<open>
  \<open>audioBridgeThread\<close> of \<open>src/main.cpp\<close>: the thread that keeps the phone connected and moves its audio
  into the ring. One step of \<open>bridge_step\<close> is one round of the loop the thread is in: of the set-up
  loop, of the outer loop, or of the inner loop over the blocks of one connection. The commands of
  \<open>adb\<close>, the socket calls and the clock act on the outside world \<open>b_world\<close>. Pauses, the
  measurement of connect times and log lines are left out, and the local \<open>wasPreviouslyConnected\<close>,
  which is only written.

  Between two rounds the other threads act: the render thread takes blocks from the ring and
  reports stalls, the settings and the monitor write the shared state (\<open>bridge_reach\<close>).
\<close>

section \<open>State\<close>

datatype BridgeRecoveryState = Healthy | AdbLost | Recovering

datatype BridgeStatus =
  BRIDGE_STARTING | BRIDGE_IDLE_SLEEP | BRIDGE_IDLE_HOT | BRIDGE_STREAMING | BRIDGE_ADB_LOST | BRIDGE_RECOVERING

fun bridgeStatusName :: "BridgeStatus \<Rightarrow> string" where
  "bridgeStatusName BRIDGE_IDLE_SLEEP = ''idle-sleep''"
| "bridgeStatusName BRIDGE_IDLE_HOT = ''idle-hot''"
| "bridgeStatusName BRIDGE_STREAMING = ''streaming''"
| "bridgeStatusName BRIDGE_ADB_LOST = ''adb-lost''"
| "bridgeStatusName BRIDGE_RECOVERING = ''recovering''"
| "bridgeStatusName BRIDGE_STARTING = ''starting''"

definition IDLE_HEALTH_CHECK_MS :: u64 where "IDLE_HEALTH_CHECK_MS = 15000"
definition ADB_LOST_RETRY_MIN_MS :: u64 where "ADB_LOST_RETRY_MIN_MS = 1000"
definition ADB_LOST_RETRY_MAX_MS :: u64 where "ADB_LOST_RETRY_MAX_MS = 3000"
definition ADB_LOST_LOG_MS :: u64 where "ADB_LOST_LOG_MS = 30000"
definition BLOCK_SIZE :: nat where "BLOCK_SIZE = 480 * 1 * 2"
definition RING_BUFFER_BLOCKS :: nat where "RING_BUFFER_BLOCKS = 128"

datatype bridge_loop = Setup | Outer | Inner | Ended

record ('a, 'w) bridge_env =
  be_config :: "'a Config"
  be_shell :: "'w shell"
  be_winsock :: "'w winsock"
  be_clock :: "'w \<Rightarrow> u64 \<times> 'w"

text \<open>
  First what other threads see: the shared state, the status and counters, the ring and the counters
  of the audio output, the tray icon's two flags where there is one. Then the two objects of the
  thread and its local variables.
\<close>

record ('a, 'w) bridge =
  b_world :: 'w
  b_app :: "'a AppState"
  b_streaming :: bool
  b_micStreaming :: bool
  b_status :: BridgeStatus
  b_received :: u64
  b_discarded :: u64
  b_pushed :: u64
  b_ring :: spsc_ring
  b_receivedBlocks :: u32
  b_droppedBlocks :: u32
  b_renderStallScore :: nat
  b_icon :: "(bool \<times> bool) option"
  b_serial :: string
  b_connected :: bool
  b_recovery :: BridgeRecoveryState
  b_quickDisconnects :: nat
  b_connectFails :: nat
  b_adbReadyOnce :: bool
  b_connectTick :: u64
  b_nextIdleHealthTick :: u64
  b_nextAdbCheckTick :: u64
  b_lastAdbLostLogTick :: u64
  b_adbLostDelayMs :: u64
  b_idleCount :: nat
  b_staleCount :: nat
  b_wasIdle :: bool
  b_loop :: bridge_loop

definition bridge_new :: "'w \<Rightarrow> 'a AppState \<Rightarrow> (bool \<times> bool) option \<Rightarrow> ('a, 'w) bridge" where
  "bridge_new w g icon = \<lparr>b_world = w, b_app = g, b_streaming = False, b_micStreaming = False, b_status = BRIDGE_STARTING,
     b_received = 0, b_discarded = 0, b_pushed = 0, b_ring = rb_new (BLOCK_SIZE * RING_BUFFER_BLOCKS),
     b_receivedBlocks = 0, b_droppedBlocks = 0, b_renderStallScore = 0, b_icon = icon, b_serial = '''',
     b_connected = False, b_recovery = Healthy, b_quickDisconnects = 0, b_connectFails = 0, b_adbReadyOnce = True,
     b_connectTick = 0, b_nextIdleHealthTick = 0, b_nextAdbCheckTick = 0, b_lastAdbLostLogTick = 0,
     b_adbLostDelayMs = ADB_LOST_RETRY_MIN_MS, b_idleCount = 0, b_staleCount = 0, b_wasIdle = True, b_loop = Setup\<rparr>"

section \<open>Calls on the objects of the thread\<close>

definition tick :: "('a, 'w) bridge_env \<Rightarrow> ('a, 'w) bridge \<Rightarrow> u64 \<times> ('a, 'w) bridge" where
  "tick E b = (let (t, w) = be_clock E (b_world b) in (t, b\<lparr>b_world := w\<rparr>))"

definition remote_socket :: "('a, 'w) bridge_env \<Rightarrow> string" where
  "remote_socket E = ''localabstract:'' @ c_androidSocket (be_config E)"

definition call_init :: "('a, 'w) bridge_env \<Rightarrow> ('a, 'w) bridge \<Rightarrow> bool \<times> ('a, 'w) bridge" where
  "call_init E b = (let (ok, s, w) = adb_init (be_shell E) (c_serial (be_config E)) (b_serial b) (b_world b)
                    in (ok, b\<lparr>b_serial := s, b_world := w\<rparr>))"

definition call_setup :: "('a, 'w) bridge_env \<Rightarrow> ('a, 'w) bridge \<Rightarrow> bool \<times> ('a, 'w) bridge" where
  "call_setup E b = (let c = be_config E;
       (ok, w) = setupAudioSource (be_shell E) (b_serial b) (c_androidComponent c) (c_androidSocket c) (c_port c)
         (c_nsEnabled c) (c_aecEnabled c) (c_agcEnabled c) (b_world b)
     in (ok, b\<lparr>b_world := w\<rparr>))"

definition call_online :: "('a, 'w) bridge_env \<Rightarrow> ('a, 'w) bridge \<Rightarrow> bool \<times> ('a, 'w) bridge" where
  "call_online E b = (let (ok, w) = isDeviceOnline (be_shell E) (c_serial (be_config E)) (b_serial b) (b_world b) in (ok, b\<lparr>b_world := w\<rparr>))"

definition call_verify :: "('a, 'w) bridge_env \<Rightarrow> ('a, 'w) bridge \<Rightarrow> bool \<times> ('a, 'w) bridge" where
  "call_verify E b = (let (ok, w) = verifyForward (be_shell E) (b_serial b) (c_port (be_config E)) (remote_socket E) (b_world b) in (ok, b\<lparr>b_world := w\<rparr>))"

definition call_refresh :: "('a, 'w) bridge_env \<Rightarrow> ('a, 'w) bridge \<Rightarrow> bool \<times> ('a, 'w) bridge" where
  "call_refresh E b = (let (ok, w) = refreshForward (be_shell E) (b_serial b) (c_port (be_config E)) (remote_socket E) (b_world b) in (ok, b\<lparr>b_world := w\<rparr>))"

definition call_connect :: "('a, 'w) bridge_env \<Rightarrow> ('a, 'w) bridge \<Rightarrow> bool \<times> ('a, 'w) bridge" where
  "call_connect E b = (let (ok, w) = sc_connect (be_winsock E) (c_host (be_config E)) (c_port (be_config E)) (b_world b)
                       in (ok, b\<lparr>b_connected := ok, b_world := w\<rparr>))"

definition call_cleanup :: "('a, 'w) bridge_env \<Rightarrow> ('a, 'w) bridge \<Rightarrow> ('a, 'w) bridge" where
  "call_cleanup E b = b\<lparr>b_world := adb_cleanup (be_shell E) (b_serial b) (c_port (be_config E)) (b_world b)\<rparr>"

definition updateIcon :: "bool \<Rightarrow> bool \<Rightarrow> ('a, 'w) bridge \<Rightarrow> ('a, 'w) bridge" where
  "updateIcon mic conn b = b\<lparr>b_icon := map_option (\<lambda>_. (mic, conn)) (b_icon b)\<rparr>"

definition ask_reset :: "('a, 'w) bridge \<Rightarrow> ('a, 'w) bridge" where
  "ask_reset b = b\<lparr>b_app := requestDenoiseReset (b_app b)\<rparr>"

text \<open>The end of a connection: the socket, the denoiser, the flags, the icon.\<close>

definition hang_up :: "('a, 'w) bridge \<Rightarrow> ('a, 'w) bridge" where
  "hang_up b = updateIcon False False ((ask_reset (b\<lparr>b_connected := False\<rparr>))\<lparr>b_streaming := False, b_micStreaming := False\<rparr>)"

section \<open>Losing and recovering the device\<close>

definition enterAdbLost :: "('a, 'w) bridge_env \<Rightarrow> ('a, 'w) bridge \<Rightarrow> ('a, 'w) bridge" where
  "enterAdbLost E b =
     (let (now, b) = tick E b
      in hang_up (b\<lparr>b_recovery := AdbLost, b_status := BRIDGE_ADB_LOST,
           b_nextAdbCheckTick := now + b_adbLostDelayMs b, b_lastAdbLostLogTick := now\<rparr>))"

definition recoverAdb :: "('a, 'w) bridge_env \<Rightarrow> ('a, 'w) bridge \<Rightarrow> ('a, 'w) bridge" where
  "recoverAdb E b =
     (let (ok, b) = call_init E (b\<lparr>b_recovery := Recovering, b_status := BRIDGE_RECOVERING\<rparr>)
      in if \<not> ok then enterAdbLost E b
         else let (ok, b) = call_setup E b
              in if \<not> ok then enterAdbLost E b
                 else let (ok, b) = call_verify E b
                      in if \<not> ok then enterAdbLost E b
                         else let (now, b) = tick E (b\<lparr>b_recovery := Healthy, b_adbReadyOnce := True, b_connectFails := 0,
                                b_quickDisconnects := 0, b_adbLostDelayMs := ADB_LOST_RETRY_MIN_MS\<rparr>)
                              in b\<lparr>b_nextIdleHealthTick := now + IDLE_HEALTH_CHECK_MS\<rparr>)"

definition pollAdbLost :: "('a, 'w) bridge_env \<Rightarrow> ('a, 'w) bridge \<Rightarrow> ('a, 'w) bridge" where
  "pollAdbLost E b =
     (let (now, b) = tick E b
      in if now < b_nextAdbCheckTick b then b
         else let (online, b) = call_online E b
              in if online then recoverAdb E (b\<lparr>b_adbLostDelayMs := ADB_LOST_RETRY_MIN_MS\<rparr>)
                 else let b = (if ADB_LOST_LOG_MS \<le> now - b_lastAdbLostLogTick b then b\<lparr>b_lastAdbLostLogTick := now\<rparr> else b);
                          b = b\<lparr>b_nextAdbCheckTick := now + b_adbLostDelayMs b\<rparr>
                      in if b_adbLostDelayMs b < ADB_LOST_RETRY_MAX_MS
                         then (let d = b_adbLostDelayMs b + 1000
                               in b\<lparr>b_adbLostDelayMs := (if ADB_LOST_RETRY_MAX_MS < d then ADB_LOST_RETRY_MAX_MS else d)\<rparr>)
                         else b)"

section \<open>The outer loop\<close>

definition idle_health :: "('a, 'w) bridge_env \<Rightarrow> ('a, 'w) bridge \<Rightarrow> ('a, 'w) bridge" where
  "idle_health E b =
     (let (now, b) = tick E (b\<lparr>b_status := BRIDGE_IDLE_SLEEP\<rparr>)
      in if b_adbReadyOnce b \<and> b_nextIdleHealthTick b \<le> now then
           (let (online, b) = call_online E (b\<lparr>b_nextIdleHealthTick := now + IDLE_HEALTH_CHECK_MS\<rparr>)
            in if \<not> online then enterAdbLost E b
               else let (there, b) = call_verify E b in if \<not> there then recoverAdb E b else b)
         else b)"

definition connect_failed :: "('a, 'w) bridge_env \<Rightarrow> ('a, 'w) bridge \<Rightarrow> ('a, 'w) bridge" where
  "connect_failed E b =
     (let (online, b) = call_online E (b\<lparr>b_connectFails := b_connectFails b + 1\<rparr>)
      in if \<not> online then enterAdbLost E b
         else let b = (if b_connectFails b = 1 \<and> b_adbReadyOnce b
                       then let (ok, b) = call_refresh E b in if \<not> ok then recoverAdb E b else b
                       else b)
              in if 3 \<le> b_connectFails b then (recoverAdb E b)\<lparr>b_connectFails := 0\<rparr> else b)"

definition connect_succeeded :: "('a, 'w) bridge_env \<Rightarrow> ('a, 'w) bridge \<Rightarrow> ('a, 'w) bridge" where
  "connect_succeeded E b =
     (let (now, b) = tick E (b\<lparr>b_connectFails := 0, b_recovery := Healthy\<rparr>);
          (t, b) = tick E (b\<lparr>b_nextIdleHealthTick := now + IDLE_HEALTH_CHECK_MS, b_status := BRIDGE_STREAMING\<rparr>)
      in updateIcon (\<not> g_demandMode (b_app b)) True
           ((ask_reset (b\<lparr>b_connectTick := t\<rparr>))\<lparr>b_streaming := True, b_micStreaming := True\<rparr>))"

definition enter_inner :: "('a, 'w) bridge \<Rightarrow> ('a, 'w) bridge" where
  "enter_inner b = b\<lparr>b_idleCount := 0, b_staleCount := 0, b_wasIdle := True, b_loop := Inner\<rparr>"

definition outer_step :: "('a, 'w) bridge_env \<Rightarrow> ('a, 'w) bridge \<Rightarrow> ('a, 'w) bridge" where
  "outer_step E b =
     (if b_recovery b = AdbLost then pollAdbLost E b
      else if \<not> g_alwaysHot (b_app b) \<and> g_demandMode (b_app b) \<and> \<not> g_micRequested (b_app b) then idle_health E b
      else if \<not> b_connected b then
        (let (ok, b) = call_connect E b
         in if \<not> ok then connect_failed E b else enter_inner (connect_succeeded E b))
      else enter_inner b)"

section \<open>The inner loop\<close>

text \<open>After the inner loop: a connection that lasted less than three seconds is counted.\<close>

definition after_inner :: "('a, 'w) bridge_env \<Rightarrow> ('a, 'w) bridge \<Rightarrow> ('a, 'w) bridge" where
  "after_inner E b =
     (let b = (hang_up b)\<lparr>b_loop := Outer\<rparr>;
          b = (if 0 < b_connectTick b then
                 (let (now, b) = tick E b
                  in b\<lparr>b_quickDisconnects := (if now - b_connectTick b < 3000 then b_quickDisconnects b + 1 else 0), b_connectTick := 0\<rparr>)
               else b)
      in if 3 \<le> b_quickDisconnects b then
           (let (online, b) = call_online E b
            in (if \<not> online then enterAdbLost E b else recoverAdb E b)\<lparr>b_quickDisconnects := 0\<rparr>)
         else b)"

text \<open>Is the audio wanted, and is somebody taking it?\<close>

definition effectiveActive :: "('a, 'w) bridge \<Rightarrow> bool" where
  "effectiveActive b \<longleftrightarrow> \<not> g_demandMode (b_app b) \<or> g_micRequested (b_app b) \<and> \<not> 3 \<le> b_renderStallScore b"

definition idle_block :: "('a, 'w) bridge_env \<Rightarrow> ('a, 'w) bridge \<Rightarrow> ('a, 'w) bridge" where
  "idle_block E b =
     (let b = b\<lparr>b_discarded := b_discarded b + 1\<rparr>;
          b = (if \<not> b_wasIdle b then ask_reset b else b);
          b = b\<lparr>b_micStreaming := False, b_status := BRIDGE_IDLE_HOT\<rparr>;
          b = (if \<not> b_wasIdle b then updateIcon False True b else b);
          b = b\<lparr>b_idleCount := b_idleCount b + 1, b_wasIdle := True\<rparr>;
          b = (if b_idleCount b mod 50 = 0 then b\<lparr>b_ring := rb_reset (b_ring b)\<rparr> else b)
      in if \<not> g_alwaysHot (b_app b) \<and> 500 < b_idleCount b
         then after_inner E (updateIcon False False (b\<lparr>b_connected := False, b_streaming := False, b_micStreaming := False\<rparr>))
         else b)"

text \<open>More than three blocks queued: all but the two youngest go.\<close>

definition trim_ring :: "('a, 'w) bridge \<Rightarrow> ('a, 'w) bridge" where
  "trim_ring b =
     (let queueSize = rb_sizeBlocks (b_ring b) BLOCK_SIZE
      in if 3 < queueSize then
           (let toDrop = queueSize - 2
            in b\<lparr>b_ring := ((\<lambda>q. snd (rb_pop q BLOCK_SIZE)) ^^ toDrop) (b_ring b),
                 b_droppedBlocks := b_droppedBlocks b + of_nat toDrop\<rparr>)
         else b)"

definition active_block :: "('a, 'w) bridge_env \<Rightarrow> byte list \<Rightarrow> ('a, 'w) bridge \<Rightarrow> ('a, 'w) bridge" where
  "active_block E buffer b =
     (let b = b\<lparr>b_idleCount := 0, b_micStreaming := True, b_status := BRIDGE_STREAMING\<rparr>;
          b = (if b_wasIdle b then updateIcon True True b else b);
          b = (if b_wasIdle b then
                 (let b = ask_reset b; t = g_micOnTick (b_app b); b = b\<lparr>b_app := (b_app b)\<lparr>g_micOnTick := 0\<rparr>\<rparr>;
                      b = (if t \<noteq> 0 then snd (tick E b) else b)
                  in b\<lparr>b_wasIdle := False\<rparr>)
               else b);
          b = trim_ring b;
          (ok, q) = rb_push (b_ring b) buffer;
          b = (if \<not> ok then b\<lparr>b_ring := q, b_droppedBlocks := b_droppedBlocks b + 1\<rparr> else b\<lparr>b_ring := q, b_pushed := b_pushed b + 1\<rparr>)
      in b\<lparr>b_receivedBlocks := b_receivedBlocks b + 1\<rparr>)"

definition inner_step :: "('a, 'w) bridge_env \<Rightarrow> ('a, 'w) bridge \<Rightarrow> ('a, 'w) bridge" where
  "inner_step E b =
     (if \<not> b_connected b then after_inner E b
      else let (there, w) = waitForData (be_winsock E) (b_connected b) (b_world b); b = b\<lparr>b_world := w\<rparr>
           in if \<not> there then
                (let b = b\<lparr>b_staleCount := b_staleCount b + 1\<rparr>
                 in if 90 < b_staleCount b then after_inner E (hang_up b) else b)
              else (case recvExact (be_winsock E) BLOCK_SIZE (b_world b) of
                      (Inl e, w) \<Rightarrow> after_inner E (hang_up (b\<lparr>b_staleCount := 0, b_world := w\<rparr>))
                    | (Inr buffer, w) \<Rightarrow>
                        (let b = b\<lparr>b_staleCount := 0, b_world := w, b_received := b_received b + 1\<rparr>
                         in if \<not> effectiveActive b then idle_block E b else active_block E buffer b)))"

section \<open>The thread\<close>

definition setup_step :: "('a, 'w) bridge_env \<Rightarrow> ('a, 'w) bridge \<Rightarrow> ('a, 'w) bridge" where
  "setup_step E b =
     (let (ok, b) = call_init E b
      in if \<not> ok then b
         else let (ok, b) = call_setup E b
              in if \<not> ok then b
                 else let (now, b) = tick E (b\<lparr>b_status := BRIDGE_IDLE_SLEEP\<rparr>)
                      in b\<lparr>b_nextIdleHealthTick := now + IDLE_HEALTH_CHECK_MS, b_loop := Outer\<rparr>)"

definition bridge_step :: "('a, 'w) bridge_env \<Rightarrow> ('a, 'w) bridge \<Rightarrow> ('a, 'w) bridge" where
  "bridge_step E b = (case b_loop b of
     Setup \<Rightarrow> if g_running (b_app b) then setup_step E b else (call_cleanup E b)\<lparr>b_loop := Ended\<rparr>
   | Outer \<Rightarrow> if g_running (b_app b) then outer_step E b
              else (call_cleanup E (b\<lparr>b_connected := False\<rparr>))\<lparr>b_loop := Ended\<rparr>
   | Inner \<Rightarrow> if g_running (b_app b) then inner_step E b else after_inner E b
   | Ended \<Rightarrow> b)"

inductive bridge_reach :: "('a, 'w) bridge_env \<Rightarrow> ('a, 'w) bridge \<Rightarrow> bool" for E where
  start: "icon = None \<or> icon = Some (False, False) \<Longrightarrow> bridge_reach E (bridge_new w g icon)"
| round: "bridge_reach E b \<Longrightarrow> bridge_reach E (bridge_step E b)"
| render: "bridge_reach E b \<Longrightarrow> bridge_reach E (b\<lparr>b_ring := snd (rb_pop (b_ring b) BLOCK_SIZE)\<rparr>)"
| others: "bridge_reach E b \<Longrightarrow> bridge_reach E (b\<lparr>b_app := g, b_renderStallScore := n, b_world := w\<rparr>)"

section \<open>The invariant\<close>

text \<open>At most four blocks, 40 ms of audio, wait in the ring.\<close>

definition ring_ok :: "spsc_ring \<Rightarrow> bool" where
  "ring_ok q \<longleftrightarrow> rb_inv q \<and> m_capacity q = BLOCK_SIZE * RING_BUFFER_BLOCKS \<and> (\<exists>k\<le>4. rb_size q = k * BLOCK_SIZE)"

text \<open>What every part of a round keeps: the ring, the retry delay, and no received block is unaccounted for.\<close>

definition steady :: "('a, 'w) bridge \<Rightarrow> bool" where
  "steady b \<longleftrightarrow> ring_ok (b_ring b) \<and> b_adbLostDelayMs b \<in> {1000, 2000, 3000} \<and>
     b_received b = b_discarded b + b_pushed b \<and> b_receivedBlocks b = ucast (b_pushed b)"

text \<open>The flags and the icon agree with the connection.\<close>

definition shows_conn :: "bool \<Rightarrow> ('a, 'w) bridge \<Rightarrow> bool" where
  "shows_conn c b \<longleftrightarrow> b_connected b = c \<and> b_streaming b = c \<and> (b_micStreaming b \<longrightarrow> c) \<and> (\<forall>m d. b_icon b = Some (m, d) \<longrightarrow> d = c)"

definition recovery_ok :: "('a, 'w) bridge \<Rightarrow> bool" where
  "recovery_ok b \<longleftrightarrow> b_recovery b \<noteq> Recovering \<and> (b_recovery b = AdbLost \<longleftrightarrow> b_status b = BRIDGE_ADB_LOST) \<and>
     b_quickDisconnects b < 3 \<and> (b_connectFails b < 3 \<or> b_recovery b = AdbLost \<and> b_connectFails b = 3)"

definition bridge_ok :: "('a, 'w) bridge \<Rightarrow> bool" where
  "bridge_ok b \<longleftrightarrow> steady b \<and> shows_conn (b_loop b = Inner) b \<and> recovery_ok b \<and> (b_loop b = Inner \<or> b_loop b = Setup \<longrightarrow> b_recovery b = Healthy)"

lemma steady_frame [simp]:
  "steady (b\<lparr>b_world := w\<rparr>) = steady b" "steady (b\<lparr>b_serial := s\<rparr>) = steady b" "steady (b\<lparr>b_app := g\<rparr>) = steady b"
  "steady (b\<lparr>b_status := st\<rparr>) = steady b" "steady (b\<lparr>b_recovery := r\<rparr>) = steady b" "steady (b\<lparr>b_loop := l\<rparr>) = steady b"
  "steady (b\<lparr>b_quickDisconnects := n\<rparr>) = steady b" "steady (b\<lparr>b_connectFails := n\<rparr>) = steady b"
  "steady (b\<lparr>b_adbReadyOnce := c\<rparr>) = steady b" "steady (b\<lparr>b_connectTick := t\<rparr>) = steady b"
  "steady (b\<lparr>b_nextIdleHealthTick := t\<rparr>) = steady b" "steady (b\<lparr>b_nextAdbCheckTick := t\<rparr>) = steady b"
  "steady (b\<lparr>b_lastAdbLostLogTick := t\<rparr>) = steady b" "steady (b\<lparr>b_idleCount := n\<rparr>) = steady b"
  "steady (b\<lparr>b_staleCount := n\<rparr>) = steady b" "steady (b\<lparr>b_wasIdle := c\<rparr>) = steady b"
  "steady (b\<lparr>b_connected := c\<rparr>) = steady b" "steady (b\<lparr>b_streaming := c\<rparr>) = steady b"
  "steady (b\<lparr>b_micStreaming := c\<rparr>) = steady b" "steady (b\<lparr>b_icon := i\<rparr>) = steady b"
  "steady (b\<lparr>b_renderStallScore := n\<rparr>) = steady b"
  by (simp_all add: steady_def)

lemma shows_frame [simp]:
  "shows_conn c (b\<lparr>b_world := w\<rparr>) = shows_conn c b" "shows_conn c (b\<lparr>b_serial := s\<rparr>) = shows_conn c b"
  "shows_conn c (b\<lparr>b_app := g\<rparr>) = shows_conn c b" "shows_conn c (b\<lparr>b_status := st\<rparr>) = shows_conn c b"
  "shows_conn c (b\<lparr>b_recovery := r\<rparr>) = shows_conn c b" "shows_conn c (b\<lparr>b_loop := l\<rparr>) = shows_conn c b"
  "shows_conn c (b\<lparr>b_quickDisconnects := n\<rparr>) = shows_conn c b" "shows_conn c (b\<lparr>b_connectFails := n\<rparr>) = shows_conn c b"
  "shows_conn c (b\<lparr>b_adbReadyOnce := d\<rparr>) = shows_conn c b" "shows_conn c (b\<lparr>b_connectTick := t\<rparr>) = shows_conn c b"
  "shows_conn c (b\<lparr>b_nextIdleHealthTick := t\<rparr>) = shows_conn c b" "shows_conn c (b\<lparr>b_nextAdbCheckTick := t\<rparr>) = shows_conn c b"
  "shows_conn c (b\<lparr>b_lastAdbLostLogTick := t\<rparr>) = shows_conn c b" "shows_conn c (b\<lparr>b_adbLostDelayMs := t\<rparr>) = shows_conn c b"
  "shows_conn c (b\<lparr>b_idleCount := n\<rparr>) = shows_conn c b" "shows_conn c (b\<lparr>b_staleCount := n\<rparr>) = shows_conn c b"
  "shows_conn c (b\<lparr>b_wasIdle := d\<rparr>) = shows_conn c b" "shows_conn c (b\<lparr>b_ring := q\<rparr>) = shows_conn c b"
  "shows_conn c (b\<lparr>b_received := t\<rparr>) = shows_conn c b" "shows_conn c (b\<lparr>b_discarded := t\<rparr>) = shows_conn c b"
  "shows_conn c (b\<lparr>b_pushed := t\<rparr>) = shows_conn c b" "shows_conn c (b\<lparr>b_receivedBlocks := v\<rparr>) = shows_conn c b"
  "shows_conn c (b\<lparr>b_droppedBlocks := v\<rparr>) = shows_conn c b" "shows_conn c (b\<lparr>b_renderStallScore := n\<rparr>) = shows_conn c b"
  by (simp_all add: shows_conn_def)

text \<open>A call changes the outside world and perhaps the selected device.\<close>

lemma call_frames:
  "\<exists>ok s w. call_init E b = (ok, b\<lparr>b_serial := s, b_world := w\<rparr>)"
  "\<exists>ok w. call_setup E b = (ok, b\<lparr>b_world := w\<rparr>)"
  "\<exists>ok w. call_online E b = (ok, b\<lparr>b_world := w\<rparr>)"
  "\<exists>ok w. call_verify E b = (ok, b\<lparr>b_world := w\<rparr>)"
  "\<exists>ok w. call_refresh E b = (ok, b\<lparr>b_world := w\<rparr>)"
  "\<exists>ok w. call_connect E b = (ok, b\<lparr>b_connected := ok, b_world := w\<rparr>)"
  "\<exists>w. call_cleanup E b = b\<lparr>b_world := w\<rparr>"
  "\<exists>t w. tick E b = (t, b\<lparr>b_world := w\<rparr>)"
  by (auto simp: call_init_def call_setup_def call_online_def call_verify_def call_refresh_def call_connect_def
      call_cleanup_def tick_def case_prod_beta Let_def)

lemma hang_up_fields [simp]:
  "steady (hang_up b) = steady b" "shows_conn False (hang_up b)" "b_loop (hang_up b) = b_loop b"
  "b_recovery (hang_up b) = b_recovery b" "b_status (hang_up b) = b_status b"
  "b_quickDisconnects (hang_up b) = b_quickDisconnects b" "b_connectFails (hang_up b) = b_connectFails b"
  "b_ring (hang_up b) = b_ring b" "b_pushed (hang_up b) = b_pushed b"
  by (auto simp: hang_up_def updateIcon_def ask_reset_def shows_conn_def)

text \<open>The outcome of an operation that may lose the device: without a connection, and either lost or not.\<close>

definition parted :: "('a, 'w) bridge \<Rightarrow> ('a, 'w) bridge \<Rightarrow> bool" where
  "parted b b' \<longleftrightarrow> steady b' \<and> shows_conn False b' \<and> b_loop b' = b_loop b \<and> b_ring b' = b_ring b \<and> b_pushed b' = b_pushed b"

definition lost :: "('a, 'w) bridge \<Rightarrow> ('a, 'w) bridge \<Rightarrow> bool" where
  "lost b b' \<longleftrightarrow> parted b b' \<and> b_recovery b' = AdbLost \<and> b_status b' = BRIDGE_ADB_LOST \<and>
     b_quickDisconnects b' = b_quickDisconnects b \<and> b_connectFails b' = b_connectFails b"

definition recovered :: "('a, 'w) bridge \<Rightarrow> ('a, 'w) bridge \<Rightarrow> bool" where
  "recovered b b' \<longleftrightarrow> parted b b' \<and> b_recovery b' = Healthy \<and> b_status b' = BRIDGE_RECOVERING \<and>
     b_quickDisconnects b' = 0 \<and> b_connectFails b' = 0"

lemma enterAdbLost_lost: "steady b \<Longrightarrow> lost b (enterAdbLost E b)"
  using call_frames(8) [of E b] by (auto simp: enterAdbLost_def lost_def parted_def)

lemma lost_frame:
  "lost (b\<lparr>b_recovery := r, b_status := st\<rparr>) b' = lost b b'" "lost (b\<lparr>b_serial := s\<rparr>) b' = lost b b'" "lost (b\<lparr>b_world := w\<rparr>) b' = lost b b'"
  "lost (b\<lparr>b_adbLostDelayMs := d\<rparr>) b' = lost b b'"
  by (simp_all add: lost_def parted_def)

lemma recovered_frame:
  "recovered (b\<lparr>b_world := w\<rparr>) b' = recovered b b'" "recovered (b\<lparr>b_adbLostDelayMs := d\<rparr>) b' = recovered b b'"
  by (simp_all add: recovered_def parted_def)

lemma recoverAdb_outcome:
  assumes "steady b" "shows_conn False b"
  shows "lost b (recoverAdb E b) \<or> recovered b (recoverAdb E b)"
proof -
  let ?b = "b\<lparr>b_recovery := Recovering, b_status := BRIDGE_RECOVERING\<rparr>"
  obtain ok1 s w1 where c1: "call_init E ?b = (ok1, ?b\<lparr>b_serial := s, b_world := w1\<rparr>)" using call_frames(1) [of E ?b] by blast
  let ?b1 = "?b\<lparr>b_serial := s, b_world := w1\<rparr>"
  obtain ok2 w2 where c2: "call_setup E ?b1 = (ok2, ?b1\<lparr>b_world := w2\<rparr>)" using call_frames(2) [of E ?b1] by blast
  let ?b2 = "?b1\<lparr>b_world := w2\<rparr>"
  obtain ok3 w3 where c3: "call_verify E ?b2 = (ok3, ?b2\<lparr>b_world := w3\<rparr>)" using call_frames(4) [of E ?b2] by blast
  let ?b3 = "?b2\<lparr>b_world := w3\<rparr>"
  let ?b4 = "?b3\<lparr>b_recovery := Healthy, b_adbReadyOnce := True, b_connectFails := 0, b_quickDisconnects := 0, b_adbLostDelayMs := ADB_LOST_RETRY_MIN_MS\<rparr>"
  obtain t w4 where c4: "tick E ?b4 = (t, ?b4\<lparr>b_world := w4\<rparr>)" using call_frames(8) [of E ?b4] by blast
  have l: "lost b (enterAdbLost E ?b1)" "lost b (enterAdbLost E ?b2)" "lost b (enterAdbLost E ?b3)"
    using enterAdbLost_lost [of ?b1 E] enterAdbLost_lost [of ?b2 E] enterAdbLost_lost [of ?b3 E] assms(1)
    by (simp_all add: lost_def parted_def)
  have "recovered b (?b4\<lparr>b_world := w4, b_nextIdleHealthTick := t + IDLE_HEALTH_CHECK_MS\<rparr>)"
    using assms by (simp add: recovered_def parted_def steady_def ADB_LOST_RETRY_MIN_MS_def)
  then show ?thesis using l unfolding recoverAdb_def c1 Let_def prod.case c2 c3 c4 by simp
qed


lemma outcome_ok:
  assumes "lost b b' \<or> recovered b b'" "b_quickDisconnects b < 3" "b_connectFails b \<le> 3"
  shows "parted b b' \<and> recovery_ok b'"
  using assms by (auto simp: lost_def recovered_def recovery_ok_def)

lemma lost_ok: "steady b \<Longrightarrow> b_quickDisconnects b < 3 \<Longrightarrow> b_connectFails b \<le> 3 \<Longrightarrow>
    parted b (enterAdbLost E b) \<and> recovery_ok (enterAdbLost E b)"
  using outcome_ok enterAdbLost_lost by blast

lemma recover_ok: "steady b \<Longrightarrow> shows_conn False b \<Longrightarrow> b_quickDisconnects b < 3 \<Longrightarrow> b_connectFails b \<le> 3 \<Longrightarrow>
    parted b (recoverAdb E b) \<and> recovery_ok (recoverAdb E b)"
  using outcome_ok recoverAdb_outcome by blast

lemma steady_delay: "steady b \<Longrightarrow> d \<in> {1000, 2000, 3000} \<Longrightarrow> steady (b\<lparr>b_adbLostDelayMs := d\<rparr>)"
  by (simp add: steady_def)

lemma pollAdbLost_ok:
  assumes "steady b" "shows_conn False b" "recovery_ok b" "b_recovery b = AdbLost"
  shows "parted b (pollAdbLost E b) \<and> recovery_ok (pollAdbLost E b)"
proof -
  have q: "b_quickDisconnects b < 3" "b_connectFails b \<le> 3" "b_status b = BRIDGE_ADB_LOST" using assms(3,4) by (auto simp: recovery_ok_def)
  obtain now w1 where c1: "tick E b = (now, b\<lparr>b_world := w1\<rparr>)" using call_frames(8) [of E b] by blast
  let ?b1 = "b\<lparr>b_world := w1\<rparr>"
  obtain on w2 where c2: "call_online E ?b1 = (on, ?b1\<lparr>b_world := w2\<rparr>)" using call_frames(3) [of E ?b1] by blast
  let ?b2 = "?b1\<lparr>b_world := w2\<rparr>"
  have stay: "parted b ?b1 \<and> recovery_ok ?b1" using assms by (simp add: parted_def recovery_ok_def)
  let ?r = "?b2\<lparr>b_adbLostDelayMs := ADB_LOST_RETRY_MIN_MS\<rparr>"
  have "steady ?r" using assms(1) by (simp add: steady_def ADB_LOST_RETRY_MIN_MS_def)
  then have "parted ?r (recoverAdb E ?r) \<and> recovery_ok (recoverAdb E ?r)" using recover_ok [of ?r E] assms(2) q by simp
  then have rec: "parted b (recoverAdb E ?r) \<and> recovery_ok (recoverAdb E ?r)" by (simp add: parted_def)
  let ?l = "if ADB_LOST_LOG_MS \<le> now - b_lastAdbLostLogTick ?b2 then ?b2\<lparr>b_lastAdbLostLogTick := now\<rparr> else ?b2"
  let ?d = "b_adbLostDelayMs b"
  let ?n = "?l\<lparr>b_nextAdbCheckTick := now + ?d\<rparr>"
  let ?w = "?n\<lparr>b_adbLostDelayMs := (if ADB_LOST_RETRY_MAX_MS < ?d + 1000 then ADB_LOST_RETRY_MAX_MS else ?d + 1000)\<rparr>"
  have keep: "parted b ?n \<and> recovery_ok ?n" using assms by (auto simp: parted_def recovery_ok_def)
  have "?d \<in> {1000, 2000, 3000}" using assms(1) by (simp add: steady_def)
  then have "?d < ADB_LOST_RETRY_MAX_MS \<Longrightarrow> steady ?w" using assms(1) by (auto simp: steady_def ADB_LOST_RETRY_MAX_MS_def)
  then have wait: "?d < ADB_LOST_RETRY_MAX_MS \<Longrightarrow> parted b ?w \<and> recovery_ok ?w" using assms by (auto simp: parted_def recovery_ok_def)
  have "b_adbLostDelayMs ?n = ?d" by simp
  then have "pollAdbLost E b = (if now < b_nextAdbCheckTick b then ?b1 else if on then recoverAdb E ?r
      else if ?d < ADB_LOST_RETRY_MAX_MS then ?w else ?n)"
    by (simp add: pollAdbLost_def c1 c2 Let_def)
  then show ?thesis using stay rec keep wait by simp
qed

lemma idle_health_ok:
  assumes "steady b" "shows_conn False b" "recovery_ok b" "b_recovery b = Healthy"
  shows "parted b (idle_health E b) \<and> recovery_ok (idle_health E b)"
proof -
  have q: "b_quickDisconnects b < 3" "b_connectFails b \<le> 3" "b_connectFails b < 3" using assms(3,4) by (auto simp: recovery_ok_def)
  let ?b0 = "b\<lparr>b_status := BRIDGE_IDLE_SLEEP\<rparr>"
  obtain now w1 where c1: "tick E ?b0 = (now, ?b0\<lparr>b_world := w1\<rparr>)" using call_frames(8) [of E ?b0] by blast
  let ?b1 = "?b0\<lparr>b_world := w1, b_nextIdleHealthTick := now + IDLE_HEALTH_CHECK_MS\<rparr>"
  obtain on w2 where c2: "call_online E ?b1 = (on, ?b1\<lparr>b_world := w2\<rparr>)" using call_frames(3) [of E ?b1] by blast
  let ?b2 = "?b1\<lparr>b_world := w2\<rparr>"
  obtain there w3 where c3: "call_verify E ?b2 = (there, ?b2\<lparr>b_world := w3\<rparr>)" using call_frames(4) [of E ?b2] by blast
  let ?b3 = "?b2\<lparr>b_world := w3\<rparr>"
  have "parted b (?b0\<lparr>b_world := w1\<rparr>) \<and> recovery_ok (?b0\<lparr>b_world := w1\<rparr>)" "parted b ?b3 \<and> recovery_ok ?b3"
    using assms q by (simp_all add: parted_def recovery_ok_def)
  moreover have "parted b (enterAdbLost E ?b2) \<and> recovery_ok (enterAdbLost E ?b2)"
    using lost_ok [of ?b2 E] assms(1) q by (simp add: parted_def)
  moreover have "parted b (recoverAdb E ?b3) \<and> recovery_ok (recoverAdb E ?b3)"
    using recover_ok [of ?b3 E] assms(1,2) q by (simp add: parted_def)
  ultimately show ?thesis unfolding idle_health_def c1 Let_def prod.case c2 c3 by simp
qed

lemma connect_failed_ok:
  assumes "steady b" "shows_conn False b" "recovery_ok b" "b_recovery b = Healthy"
  shows "parted b (connect_failed E b) \<and> recovery_ok (connect_failed E b)"
proof -
  have q: "b_quickDisconnects b < 3" "b_connectFails b < 3" using assms(3,4) by (auto simp: recovery_ok_def)
  let ?b0 = "b\<lparr>b_connectFails := b_connectFails b + 1\<rparr>"
  obtain on w1 where c1: "call_online E ?b0 = (on, ?b0\<lparr>b_world := w1\<rparr>)" using call_frames(3) [of E ?b0] by blast
  let ?b1 = "?b0\<lparr>b_world := w1\<rparr>"
  obtain ok w2 where c2: "call_refresh E ?b1 = (ok, ?b1\<lparr>b_world := w2\<rparr>)" using call_frames(5) [of E ?b1] by blast
  let ?b2 = "?b1\<lparr>b_world := w2\<rparr>"
  have lost: "parted b (enterAdbLost E ?b1) \<and> recovery_ok (enterAdbLost E ?b1)"
    using lost_ok [of ?b1 E] assms(1) q by (simp add: parted_def)
  have out: "lost ?b2 (recoverAdb E ?b2) \<or> recovered ?b2 (recoverAdb E ?b2)" using recoverAdb_outcome [of ?b2 E] assms(1,2) by simp
  have three: "lost ?b1 (recoverAdb E ?b1) \<or> recovered ?b1 (recoverAdb E ?b1)" using recoverAdb_outcome [of ?b1 E] assms(1,2) by simp
  consider (off) "\<not> on" | (first) "on" "b_connectFails b = 0" "b_adbReadyOnce b" | (third) "on" "b_connectFails b = 2"
    | (again) "on" "b_connectFails b < 2" "\<not> (b_connectFails b = 0 \<and> b_adbReadyOnce b)" using q(2) by fastforce
  then show ?thesis
  proof cases
    case off then show ?thesis using lost unfolding connect_failed_def c1 Let_def prod.case by simp
  next
    case first
    have few: "\<not> 3 \<le> b_connectFails (recoverAdb E ?b2)" using out first(2) by (auto simp: lost_def recovered_def)
    have "parted b (recoverAdb E ?b2) \<and> recovery_ok (recoverAdb E ?b2)"
      using outcome_ok [OF out] q first(2) by (simp add: parted_def)
    moreover have "parted b ?b2 \<and> recovery_ok ?b2" using assms q first(2) by (simp add: parted_def recovery_ok_def)
    ultimately show ?thesis using first few unfolding connect_failed_def c1 Let_def prod.case c2 by simp
  next
    case third
    have "parted b ((recoverAdb E ?b1)\<lparr>b_connectFails := 0\<rparr>) \<and> recovery_ok ((recoverAdb E ?b1)\<lparr>b_connectFails := 0\<rparr>)"
      using three q by (auto simp: lost_def recovered_def parted_def recovery_ok_def)
    then show ?thesis using third unfolding connect_failed_def c1 Let_def prod.case by simp
  next
    case again
    have "parted b ?b1 \<and> recovery_ok ?b1" using assms q again(2) by (simp add: parted_def recovery_ok_def)
    then show ?thesis using again unfolding connect_failed_def c1 Let_def prod.case by auto
  qed
qed


lemma connect_succeeded_ok:
  assumes "steady b" "b_connected b" "b_quickDisconnects b < 3"
  shows "steady (connect_succeeded E b) \<and> shows_conn True (connect_succeeded E b) \<and> recovery_ok (connect_succeeded E b) \<and>
    b_recovery (connect_succeeded E b) = Healthy \<and> b_pushed (connect_succeeded E b) = b_pushed b"
proof -
  let ?b0 = "b\<lparr>b_connectFails := 0, b_recovery := Healthy\<rparr>"
  obtain now w1 where c1: "tick E ?b0 = (now, ?b0\<lparr>b_world := w1\<rparr>)" using call_frames(8) [of E ?b0] by blast
  let ?b1 = "?b0\<lparr>b_world := w1, b_nextIdleHealthTick := now + IDLE_HEALTH_CHECK_MS, b_status := BRIDGE_STREAMING\<rparr>"
  obtain t w2 where c2: "tick E ?b1 = (t, ?b1\<lparr>b_world := w2\<rparr>)" using call_frames(8) [of E ?b1] by blast
  show ?thesis using assms unfolding connect_succeeded_def c1 Let_def prod.case c2
    by (auto simp: updateIcon_def ask_reset_def shows_conn_def recovery_ok_def)
qed

lemma outer_step_ok:
  assumes "bridge_ok b" "b_loop b = Outer"
  shows "bridge_ok (outer_step E b) \<and> b_pushed (outer_step E b) = b_pushed b"
proof -
  have b: "steady b" "shows_conn False b" "recovery_ok b" using assms by (simp_all add: bridge_ok_def)
  have ok: "bridge_ok b' \<and> b_pushed b' = b_pushed b" if "parted b b' \<and> recovery_ok b'" for b'
    using that assms(2) by (simp add: bridge_ok_def parted_def)
  show ?thesis
  proof (cases "b_recovery b = AdbLost")
    case True
    then show ?thesis using ok [OF pollAdbLost_ok [OF b]] by (simp add: outer_step_def)
  next
    case False
    then have h: "b_recovery b = Healthy" using b(3) by (cases "b_recovery b") (auto simp: recovery_ok_def)
    obtain k w where c: "call_connect E b = (k, b\<lparr>b_connected := k, b_world := w\<rparr>)" using call_frames(6) [of E b] by blast
    let ?b1 = "b\<lparr>b_connected := k, b_world := w\<rparr>"
    have nc: "\<not> b_connected b" using b(2) by (simp add: shows_conn_def)
    have "parted b (connect_failed E ?b1) \<and> recovery_ok (connect_failed E ?b1)" if "\<not> k"
    proof -
      have "steady ?b1" "shows_conn False ?b1" "recovery_ok ?b1" "b_recovery ?b1 = Healthy"
        using b h that nc by (auto simp: shows_conn_def recovery_ok_def)
      from connect_failed_ok [OF this, of E] show ?thesis by (simp add: parted_def)
    qed
    moreover have "bridge_ok (enter_inner (connect_succeeded E ?b1)) \<and> b_pushed (enter_inner (connect_succeeded E ?b1)) = b_pushed b" if k
      using connect_succeeded_ok [of ?b1 E] b that by (auto simp: recovery_ok_def bridge_ok_def enter_inner_def)
    ultimately show ?thesis using False nc ok idle_health_ok [OF b h] c by (auto simp: outer_step_def)
  qed
qed

lemma after_inner_ok:
  assumes "steady b" "b_recovery b = Healthy" "b_status b \<noteq> BRIDGE_ADB_LOST" "b_quickDisconnects b < 3" "b_connectFails b < 3"
  shows "bridge_ok (after_inner E b) \<and> b_pushed (after_inner E b) = b_pushed b"
proof -
  let ?h = "(hang_up b)\<lparr>b_loop := Outer\<rparr>"
  obtain now w1 where c1: "tick E ?h = (now, ?h\<lparr>b_world := w1\<rparr>)" using call_frames(8) [of E ?h] by blast
  define c where "c = (if 0 < b_connectTick ?h then
      (?h\<lparr>b_world := w1\<rparr>)\<lparr>b_quickDisconnects := (if now - b_connectTick (?h\<lparr>b_world := w1\<rparr>) < 3000
          then b_quickDisconnects (?h\<lparr>b_world := w1\<rparr>) + 1 else 0), b_connectTick := 0\<rparr> else ?h)"
  have c: "steady c" "shows_conn False c" "b_recovery c = Healthy" "b_status c \<noteq> BRIDGE_ADB_LOST" "b_connectFails c < 3"
    "b_loop c = Outer" "b_pushed c = b_pushed b"
    using assms by (simp_all add: c_def)
  obtain on w2 where c2: "call_online E c = (on, c\<lparr>b_world := w2\<rparr>)" using call_frames(3) [of E c] by blast
  let ?d = "c\<lparr>b_world := w2\<rparr>"
  have "lost ?d (enterAdbLost E ?d)" "lost ?d (recoverAdb E ?d) \<or> recovered ?d (recoverAdb E ?d)"
    using enterAdbLost_lost [of ?d E] recoverAdb_outcome [of ?d E] c by simp_all
  moreover have "bridge_ok (b'\<lparr>b_quickDisconnects := 0\<rparr>) \<and> b_pushed (b'\<lparr>b_quickDisconnects := 0\<rparr>) = b_pushed b"
    if "lost ?d b' \<or> recovered ?d b'" for b'
    using that c by (auto simp: lost_def recovered_def parted_def bridge_ok_def recovery_ok_def)
  ultimately have two: "bridge_ok ((if \<not> on then enterAdbLost E ?d else recoverAdb E ?d)\<lparr>b_quickDisconnects := 0\<rparr>) \<and>
      b_pushed ((if \<not> on then enterAdbLost E ?d else recoverAdb E ?d)\<lparr>b_quickDisconnects := 0\<rparr>) = b_pushed b"
    by simp
  have one: "bridge_ok c \<and> b_pushed c = b_pushed b" if "\<not> 3 \<le> b_quickDisconnects c"
    using that c by (simp add: bridge_ok_def recovery_ok_def)
  have "after_inner E b = (if 3 \<le> b_quickDisconnects c
      then (if \<not> on then enterAdbLost E ?d else recoverAdb E ?d)\<lparr>b_quickDisconnects := 0\<rparr> else c)"
    unfolding after_inner_def c1 Let_def prod.case c_def [symmetric] c2 ..
  then show ?thesis using one two by simp
qed

text \<open>What a round of the inner loop has before it: connected, nothing lost.\<close>

definition inside :: "('a, 'w) bridge \<Rightarrow> bool" where
  "inside b \<longleftrightarrow> shows_conn True b \<and> b_recovery b = Healthy \<and> b_status b \<noteq> BRIDGE_ADB_LOST \<and> b_loop b = Inner \<and>
     b_quickDisconnects b < 3 \<and> b_connectFails b < 3"

lemma inside_bridge_ok: "bridge_ok b \<and> b_loop b = Inner \<longleftrightarrow> steady b \<and> inside b"
  by (auto simp: bridge_ok_def inside_def recovery_ok_def)

lemma inside_after: "steady b \<Longrightarrow> inside b \<Longrightarrow> bridge_ok (after_inner E b) \<and> b_pushed (after_inner E b) = b_pushed b"
  by (rule after_inner_ok) (simp_all add: inside_def)


section \<open>The ring under the inner loop\<close>

lemma ring_ok_new: "ring_ok (rb_new (BLOCK_SIZE * RING_BUFFER_BLOCKS))"
  using rb_new_contents [of "BLOCK_SIZE * RING_BUFFER_BLOCKS"] length_rb_contents [of "rb_new (BLOCK_SIZE * RING_BUFFER_BLOCKS)"]
  by (simp add: ring_ok_def rb_new_inv BLOCK_SIZE_def RING_BUFFER_BLOCKS_def) (simp add: rb_new_def)

lemma ring_ok_reset: "ring_ok q \<Longrightarrow> ring_ok (rb_reset q)"
  using rb_reset_contents [of q] length_rb_contents [of "rb_reset q"]
  by (auto simp: ring_ok_def rb_reset_inv) (simp add: rb_reset_def)

lemma ring_pops:
  assumes "rb_inv q" "k * n \<le> rb_size q"
  shows "rb_inv (((\<lambda>q. snd (rb_pop q n)) ^^ k) q)"
    "m_capacity (((\<lambda>q. snd (rb_pop q n)) ^^ k) q) = m_capacity q"
    "rb_contents (((\<lambda>q. snd (rb_pop q n)) ^^ k) q) = drop (k * n) (rb_contents q)"
proof -
  have "rb_inv (((\<lambda>q. snd (rb_pop q n)) ^^ k) q) \<and> m_capacity (((\<lambda>q. snd (rb_pop q n)) ^^ k) q) = m_capacity q \<and>
      rb_contents (((\<lambda>q. snd (rb_pop q n)) ^^ k) q) = drop (k * n) (rb_contents q)"
    using assms(2)
  proof (induction k)
    case (Suc k)
    let ?q = "((\<lambda>q. snd (rb_pop q n)) ^^ k) q"
    have i: "rb_inv ?q" "m_capacity ?q = m_capacity q" "rb_contents ?q = drop (k * n) (rb_contents q)" using Suc by auto
    then have "rb_size ?q = rb_size q - k * n" by (metis length_rb_contents length_drop)
    then have "n \<le> rb_size ?q" using Suc.prems by simp
    from rb_pop_some [OF i(1) this] show ?case using i by (simp add: add.commute)
  qed (simp add: assms(1))
  then show "rb_inv (((\<lambda>q. snd (rb_pop q n)) ^^ k) q)" "m_capacity (((\<lambda>q. snd (rb_pop q n)) ^^ k) q) = m_capacity q"
    "rb_contents (((\<lambda>q. snd (rb_pop q n)) ^^ k) q) = drop (k * n) (rb_contents q)" by auto
qed

lemma ring_ok_pop: "ring_ok q \<Longrightarrow> ring_ok (snd (rb_pop q BLOCK_SIZE))"
proof -
  assume a: "ring_ok q"
  then obtain k where k: "k \<le> 4" "rb_size q = k * BLOCK_SIZE" "rb_inv q" by (auto simp: ring_ok_def)
  show ?thesis
  proof (cases k)
    case 0
    then show ?thesis using a k by (simp add: rb_pop_empty BLOCK_SIZE_def)
  next
    case (Suc j)
    have le: "BLOCK_SIZE \<le> rb_size q" using k(2) Suc by simp
    have "rb_size (snd (rb_pop q BLOCK_SIZE)) = j * BLOCK_SIZE"
      using arg_cong [OF rb_pop_some(3) [OF k(3) le], of length] k(2) Suc by simp
    then show ?thesis using rb_pop_some(2) [OF k(3) le] a k(1) Suc by (auto simp: ring_ok_def intro!: exI [of _ j])
  qed
qed

lemma trim_ring_ok:
  assumes "ring_ok (b_ring b)"
  shows "\<exists>q v j. trim_ring b = b\<lparr>b_ring := q, b_droppedBlocks := v\<rparr> \<and> ring_ok q \<and> rb_size q \<le> 3 * BLOCK_SIZE \<and>
    rb_contents q = drop j (rb_contents (b_ring b))"
proof -
  obtain k where k: "k \<le> 4" "rb_size (b_ring b) = k * BLOCK_SIZE" "rb_inv (b_ring b)" using assms by (auto simp: ring_ok_def)
  then have sz: "rb_sizeBlocks (b_ring b) BLOCK_SIZE = k" by (simp add: rb_sizeBlocks_def BLOCK_SIZE_def)
  show ?thesis
  proof (cases "3 < k")
    case True
    let ?q = "((\<lambda>q. snd (rb_pop q BLOCK_SIZE)) ^^ (k - 2)) (b_ring b)"
    have "(k - 2) * BLOCK_SIZE \<le> rb_size (b_ring b)" using k(2) by simp
    note p = ring_pops [OF k(3) this]
    have "k = 4" using True k(1) by simp
    then have "rb_size ?q = 2 * BLOCK_SIZE" using arg_cong [OF p(3), of length] k(2) by simp
    then have "ring_ok ?q" "rb_size ?q \<le> 3 * BLOCK_SIZE" using p(1,2) assms by (auto simp: ring_ok_def intro!: exI [of _ 2])
    moreover have "trim_ring b = b\<lparr>b_ring := ?q, b_droppedBlocks := b_droppedBlocks b + of_nat (k - 2)\<rparr>"
      using True unfolding trim_ring_def sz Let_def by simp
    ultimately show ?thesis using p(3) by blast
  next
    case False
    then have "trim_ring b = b" unfolding trim_ring_def sz Let_def by simp
    moreover have "rb_size (b_ring b) \<le> 3 * BLOCK_SIZE" using k False by simp
    ultimately show ?thesis using assms
      by (intro exI [of _ "b_ring b"] exI [of _ "b_droppedBlocks b"] exI [of _ 0]) simp
  qed
qed

lemma push_block:
  assumes "ring_ok q" "rb_size q \<le> 3 * BLOCK_SIZE" "length buffer = BLOCK_SIZE"
  shows "\<exists>q'. rb_push q buffer = (True, q') \<and> ring_ok q' \<and> rb_contents q' = rb_contents q @ buffer"
proof -
  obtain k where k: "k \<le> 4" "rb_size q = k * BLOCK_SIZE" "rb_inv q" using assms by (auto simp: ring_ok_def)
  have k3: "k \<le> 3" using k(2) assms(2) by (simp add: BLOCK_SIZE_def)
  have room: "rb_size q + length buffer \<le> rb_bound q" using assms by (simp add: ring_ok_def rb_bound_def BLOCK_SIZE_def RING_BUFFER_BLOCKS_def)
  obtain ok q' where p: "rb_push q buffer = (ok, q')" by fastforce
  have r: "ok" "rb_inv q'" "rb_contents q' = rb_contents q @ buffer" using rb_push_room [OF k(3) room] p by simp_all
  have "rb_size q' = (k + 1) * BLOCK_SIZE" using arg_cong [OF r(3), of length] k(2) assms(3) by simp
  then have "ring_ok q'" using r(2) k3 assms(1) rb_capacity(1) [of q buffer] p
    by (auto simp: ring_ok_def intro!: exI [of _ "k + 1"])
  then show ?thesis using p r by (intro exI [of _ q']) simp
qed

section \<open>A round of the inner loop\<close>

lemma ucast_Suc: "ucast (x + 1 :: u64) = (ucast x + 1 :: u32)"
  by (transfer, simp add: take_bit_eq_mod mod_add_left_eq mod_mod_cancel, rule mod_add_cong [OF _ refl], simp add: mod_mod_cancel)

lemma idle_block_ok:
  assumes "inside b" "ring_ok (b_ring b)" "b_adbLostDelayMs b \<in> {1000, 2000, 3000}"
    "b_received b = b_discarded b + b_pushed b + 1" "b_receivedBlocks b = ucast (b_pushed b)"
  shows "bridge_ok (idle_block E b) \<and> b_pushed (idle_block E b) = b_pushed b"
proof -
  define c where "c = (let b = b\<lparr>b_discarded := b_discarded b + 1\<rparr>; b = (if \<not> b_wasIdle b then ask_reset b else b);
      b = b\<lparr>b_micStreaming := False, b_status := BRIDGE_IDLE_HOT\<rparr>;
      b = (if \<not> b_wasIdle b then updateIcon False True b else b)
      in b\<lparr>b_idleCount := b_idleCount b + 1, b_wasIdle := True\<rparr>)"
  define d where "d = (if b_idleCount c mod 50 = 0 then c\<lparr>b_ring := rb_reset (b_ring c)\<rparr> else c)"
  have c: "inside c" "b_ring c = b_ring b" "b_adbLostDelayMs c = b_adbLostDelayMs b" "b_received c = b_received b"
    "b_discarded c = b_discarded b + 1" "b_pushed c = b_pushed b" "b_receivedBlocks c = b_receivedBlocks b"
    using assms(1) by (auto simp: c_def Let_def inside_def shows_conn_def ask_reset_def updateIcon_def)
  then have d: "inside d" "steady d" "b_pushed d = b_pushed b"
    using assms(2-5) by (auto simp: d_def inside_def steady_def ring_ok_reset)
  let ?u = "updateIcon False False (d\<lparr>b_connected := False, b_streaming := False, b_micStreaming := False\<rparr>)"
  have "bridge_ok (after_inner E ?u) \<and> b_pushed (after_inner E ?u) = b_pushed ?u"
    by (rule after_inner_ok) (use d in \<open>simp_all add: inside_def updateIcon_def\<close>)
  moreover have "bridge_ok d" using d inside_bridge_ok by blast
  moreover have "idle_block E b = (if \<not> g_alwaysHot (b_app d) \<and> 500 < b_idleCount d then after_inner E ?u else d)"
    unfolding idle_block_def c_def d_def Let_def ..
  ultimately show ?thesis using d(3) by (simp add: updateIcon_def)
qed

text \<open>A block that is wanted goes to the end of the ring; the first after a pause also resets the denoiser.\<close>

lemma active_block_ok:
  assumes "inside b" "ring_ok (b_ring b)" "b_adbLostDelayMs b \<in> {1000, 2000, 3000}"
    "b_received b = b_discarded b + b_pushed b + 1" "b_receivedBlocks b = ucast (b_pushed b)" "length buffer = BLOCK_SIZE"
  shows "bridge_ok (active_block E buffer b) \<and> b_pushed (active_block E buffer b) = b_pushed b + 1 \<and>
    (\<exists>j. rb_contents (b_ring (active_block E buffer b)) = drop j (rb_contents (b_ring b)) @ buffer) \<and>
    (b_wasIdle b \<longrightarrow> g_denoiseResetEpoch (b_app (active_block E buffer b)) = g_denoiseResetEpoch (b_app b) + 1)"
proof -
  define c where "c = (let b = b\<lparr>b_idleCount := 0, b_micStreaming := True, b_status := BRIDGE_STREAMING\<rparr>;
          b = (if b_wasIdle b then updateIcon True True b else b)
      in (if b_wasIdle b then
                 (let b = ask_reset b; t = g_micOnTick (b_app b); b = b\<lparr>b_app := (b_app b)\<lparr>g_micOnTick := 0\<rparr>\<rparr>;
                      b = (if t \<noteq> 0 then snd (tick E b) else b)
                  in b\<lparr>b_wasIdle := False\<rparr>)
               else b))"
  have "\<exists>w. snd (tick E b) = b\<lparr>b_world := w\<rparr>" for b using call_frames(8) [of E b] by auto
  then have c: "inside c" "b_ring c = b_ring b" "b_adbLostDelayMs c = b_adbLostDelayMs b" "b_received c = b_received b"
    "b_discarded c = b_discarded b" "b_pushed c = b_pushed b" "b_receivedBlocks c = b_receivedBlocks b"
    "b_wasIdle b \<longrightarrow> g_denoiseResetEpoch (b_app c) = g_denoiseResetEpoch (b_app b) + 1"
    using assms(1) by (auto simp: c_def Let_def inside_def shows_conn_def ask_reset_def updateIcon_def requestDenoiseReset_def tick_def case_prod_beta)
  obtain q v j where t: "trim_ring c = c\<lparr>b_ring := q, b_droppedBlocks := v\<rparr>" "ring_ok q" "rb_size q \<le> 3 * BLOCK_SIZE"
    "rb_contents q = drop j (rb_contents (b_ring b))" using trim_ring_ok [of c] assms(2) c(2) by auto
  obtain q' where p: "rb_push q buffer = (True, q')" "ring_ok q'" "rb_contents q' = rb_contents q @ buffer"
    using push_block [OF t(2,3) assms(6)] by blast
  let ?r = "c\<lparr>b_ring := q', b_droppedBlocks := v, b_pushed := b_pushed c + 1, b_receivedBlocks := b_receivedBlocks c + 1\<rparr>"
  have r: "active_block E buffer b = ?r"
    using p(1) unfolding active_block_def Let_def c_def [unfolded Let_def, symmetric] t(1) by simp
  have "steady ?r" "inside ?r" using c assms(3-5) p(2) by (simp_all add: steady_def inside_def ucast_Suc)
  then have "bridge_ok ?r" using inside_bridge_ok by blast
  then show ?thesis unfolding r using c(6,8) p(3) t(4) by auto
qed


text \<open>The property of one round that is not an invariant: what a round that stores a block does.\<close>

definition stores_wanted :: "('a, 'w) bridge \<Rightarrow> ('a, 'w) bridge \<Rightarrow> bool" where
  "stores_wanted b b' \<longleftrightarrow> b_connected b \<and> effectiveActive b \<and>
     (\<exists>j buffer. length buffer = BLOCK_SIZE \<and> rb_contents (b_ring b') = drop j (rb_contents (b_ring b)) @ buffer) \<and>
     (b_wasIdle b \<longrightarrow> g_denoiseResetEpoch (b_app b') = g_denoiseResetEpoch (b_app b) + 1)"

lemma inner_step_ok:
  assumes "bridge_ok b" "b_loop b = Inner" "recv_ok (be_winsock E)"
  shows "bridge_ok (inner_step E b) \<and> (b_pushed (inner_step E b) \<noteq> b_pushed b \<longrightarrow> stores_wanted b (inner_step E b))"
proof -
  have i: "steady b" "inside b" using assms(1,2) inside_bridge_ok by blast+
  then have con: "b_connected b" by (simp add: inside_def shows_conn_def)
  obtain there w where c1: "waitForData (be_winsock E) (b_connected b) (b_world b) = (there, w)" by fastforce
  let ?b1 = "b\<lparr>b_world := w\<rparr>"
  let ?s = "?b1\<lparr>b_staleCount := b_staleCount ?b1 + 1\<rparr>"
  have s: "steady ?s" "inside ?s" "steady (hang_up ?s)" using i by (simp_all add: inside_def)
  have hup: "bridge_ok (after_inner E (hang_up b')) \<and> b_pushed (after_inner E (hang_up b')) = b_pushed b'"
    if "steady b'" "inside b'" for b' using after_inner_ok [of "hang_up b'" E] that by (simp add: inside_def)
  obtain r w2 where c2: "recvExact (be_winsock E) BLOCK_SIZE (b_world ?b1) = (r, w2)" by fastforce
  consider (none) "\<not> there" | (err) e where there "r = Inl e" | (got) buffer where there "r = Inr buffer" by (cases r) auto
  then show ?thesis
  proof cases
    case none
    have "bridge_ok ?s" using s inside_bridge_ok by blast
    then show ?thesis using none hup [OF s(1,2)] con unfolding inner_step_def c1 Let_def prod.case by simp
  next
    case err
    have "steady (?b1\<lparr>b_staleCount := 0, b_world := w2\<rparr>)" "inside (?b1\<lparr>b_staleCount := 0, b_world := w2\<rparr>)"
      using i by (simp_all add: inside_def)
    from hup [OF this] show ?thesis using err con unfolding inner_step_def c1 Let_def prod.case c2 by simp
  next
    case got
    let ?r = "?b1\<lparr>b_staleCount := 0, b_world := w2, b_received := b_received ?b1 + 1\<rparr>"
    have len: "length buffer = BLOCK_SIZE" using recvExact_length [OF assms(3)] c2 got(2) by blast
    have r: "inside ?r" "ring_ok (b_ring ?r)" "b_adbLostDelayMs ?r \<in> {1000, 2000, 3000}"
      "b_received ?r = b_discarded ?r + b_pushed ?r + 1" "b_receivedBlocks ?r = ucast (b_pushed ?r)"
      using i by (simp_all add: inside_def steady_def)
    have "inner_step E b = (if \<not> effectiveActive ?r then idle_block E ?r else active_block E buffer ?r)"
      using con got unfolding inner_step_def c1 Let_def prod.case c2 by simp
    moreover have "effectiveActive ?r = effectiveActive b" by (simp add: effectiveActive_def)
    moreover note idle_block_ok [OF r, of E] active_block_ok [OF r len, of E]
    ultimately show ?thesis using con len by (auto simp: stores_wanted_def)
  qed
qed

lemma setup_step_ok:
  assumes "bridge_ok b" "b_loop b = Setup"
  shows "bridge_ok (setup_step E b) \<and> b_pushed (setup_step E b) = b_pushed b"
proof -
  obtain ok1 s w1 where c1: "call_init E b = (ok1, b\<lparr>b_serial := s, b_world := w1\<rparr>)" using call_frames(1) [of E b] by blast
  let ?b1 = "b\<lparr>b_serial := s, b_world := w1\<rparr>"
  obtain ok2 w2 where c2: "call_setup E ?b1 = (ok2, ?b1\<lparr>b_world := w2\<rparr>)" using call_frames(2) [of E ?b1] by blast
  let ?b2 = "?b1\<lparr>b_world := w2\<rparr>\<lparr>b_status := BRIDGE_IDLE_SLEEP\<rparr>"
  obtain t w3 where c3: "tick E ?b2 = (t, ?b2\<lparr>b_world := w3\<rparr>)" using call_frames(8) [of E ?b2] by blast
  have ok: "bridge_ok ?b1" "bridge_ok (?b1\<lparr>b_world := w2\<rparr>)" using assms by (auto simp: bridge_ok_def recovery_ok_def)
  show ?thesis
  proof (cases "ok1 \<and> ok2")
    case False
    then show ?thesis using ok unfolding setup_step_def c1 Let_def prod.case c2 by auto
  next
    case True
    then show ?thesis using assms unfolding setup_step_def c1 Let_def prod.case c2 c3
      by (auto simp: bridge_ok_def recovery_ok_def)
  qed
qed


lemma bridge_step_ok:
  assumes "bridge_ok b" "recv_ok (be_winsock E)"
  shows "bridge_ok (bridge_step E b) \<and> (b_pushed (bridge_step E b) \<noteq> b_pushed b \<longrightarrow> stores_wanted b (bridge_step E b))"
proof -
  have stop: "bridge_ok ((call_cleanup E b')\<lparr>b_loop := Ended\<rparr>) \<and> b_pushed ((call_cleanup E b')\<lparr>b_loop := Ended\<rparr>) = b_pushed b'"
    if "bridge_ok (b'\<lparr>b_loop := Ended\<rparr>)" for b' using call_frames(7) [of E b'] that by (auto simp: bridge_ok_def recovery_ok_def)
  show ?thesis
  proof (cases "b_loop b")
    case Setup
    then have "bridge_ok (b\<lparr>b_loop := Ended\<rparr>)" using assms(1) by (auto simp: bridge_ok_def recovery_ok_def)
    then show ?thesis using stop setup_step_ok [OF assms(1) Setup] Setup by (simp add: bridge_step_def)
  next
    case Outer
    then have "bridge_ok (b\<lparr>b_connected := False\<rparr>\<lparr>b_loop := Ended\<rparr>)"
      using assms(1) by (auto simp: bridge_ok_def recovery_ok_def shows_conn_def)
    from stop [OF this] show ?thesis using outer_step_ok [OF assms(1) Outer] Outer by (simp add: bridge_step_def)
  next
    case Inner
    then have "bridge_ok (after_inner E b) \<and> b_pushed (after_inner E b) = b_pushed b"
      using assms(1) inside_bridge_ok [of b] inside_after by blast
    then show ?thesis using inner_step_ok [OF assms(1) Inner assms(2)] Inner by (simp add: bridge_step_def)
  qed (use assms in \<open>simp add: bridge_step_def\<close>)
qed

lemma bridge_reach_ok: "bridge_reach E b \<Longrightarrow> recv_ok (be_winsock E) \<Longrightarrow> bridge_ok b"
proof (induction rule: bridge_reach.induct)
  case (start icon w g)
  then show ?case
    by (auto simp: bridge_ok_def bridge_new_def steady_def shows_conn_def recovery_ok_def ring_ok_new ADB_LOST_RETRY_MIN_MS_def)
next
  case (round b)
  then show ?case using bridge_step_ok by blast
next
  case (render b)
  then show ?case by (auto simp: bridge_ok_def steady_def shows_conn_def recovery_ok_def ring_ok_pop)
next
  case (others b g n w)
  then show ?case by (auto simp: bridge_ok_def steady_def shows_conn_def recovery_ok_def)
qed


text \<open>A phone that is there and sends sevens.\<close>

definition demo_shell :: "unit shell" where
  "demo_shell cmd w =
     ((if cmd = ''adb version'' then ''Android Debug Bridge''
       else if cmd = ''adb devices'' then ''L'' @ [CHR 0x0A] @ ''S'' @ [CHR 0x09] @ ''device''
       else if cmd = ''adb forward --list'' then ''S tcp:7 localabstract:a'' else ''''), ())"

definition demo_bridge :: "(int, unit) bridge_env" where
  "demo_bridge = \<lparr>be_config = undefined\<lparr>c_serial := '''', c_host := ''127.0.0.1'', c_port := 7, c_androidSocket := ''a'',
       c_androidComponent := ''c'', c_nsEnabled := False, c_aecEnabled := True, c_agcEnabled := False\<rparr>,
     be_shell = demo_shell,
     be_winsock = \<lparr>ws_socket = \<lambda>w. (True, w), ws_connect = \<lambda>_ _ w. (True, w), ws_select = \<lambda>w. (True, w),
       ws_recv = \<lambda>n w. (Inr (replicate n 7), w)\<rparr>,
     be_clock = \<lambda>w. (5, w)\<rparr>"

lemma char_7: "char_of (55 :: nat) = CHR ''7''"
  by code_simp

lemma demo_texts:
  "to_string 7 = ''7''"
  "devices_in (CHR ''L'' # CHR 0x0A # CHR ''S'' # CHR 0x09 # ''device'') = [''S'']"
  "\<not> hasAdbError ''''" "\<not> hasAdbError ''S tcp:7 localabstract:a''"
  by (simp_all add: char_7 to_string_def decimal.simps devices_in_def getlines_def device_line_def has_text_def
      List.map_filter_def hasAdbError_def toLower_def sublist_Cons_right lower_char_def)

lemma demo_lists: "lists_forward ''S'' 7 ''localabstract:a'' ''S tcp:7 localabstract:a''"
  by (simp add: lists_forward_def getlines_def has_text_def sublist_Cons_right demo_texts(1))

lemma demo_answers:
  "adb_init demo_shell '''' '''' () = (True, ''S'', ())"
  "setupAudioSource demo_shell ''S'' ''c'' ''a'' 7 False True False () = (True, ())"
  by (simp_all add: adb_init_def isADBExists_def getDevices_def demo_shell_def demo_texts has_text_def setupAudioSource_def
      startApp_def adb_cmd_def createForward_def removeForward_def verifyForward_def demo_lists)

lemma demo_recv: "recvExact (be_winsock demo_bridge) BLOCK_SIZE () = (Inr (replicate 960 7), ())"
  by (subst recvExact.simps) (simp add: demo_bridge_def BLOCK_SIZE_def recvExact.simps)


end
