(* ===== verification/Wasapi_Render.thy ===== *)
theory Wasapi_Render
  imports Audio_Bridge
begin

text \<open>
  \<open>WASAPIOutput::renderThread\<close> of \<open>src/wasapi_output.cpp\<close>: one wait for the device and one block of
  output. The block comes from the ring, passes the DSP pipeline, is resampled to the rate of the device by
  linear interpolation and written to the first two channels as floats or as 16-bit integers. The program
  uses \<open>float\<close> (\<open>'a\<close>) and \<open>double\<close> (\<open>'d\<close>); their conversions are a parameter. The buffer of
  the device is a list of the cells the thread writes, with whatever contents it has; writes are checked.
  The calls of WASAPI, the priming of the buffer with silence and the timing estimates are left out.
\<close>

record ('a, 'd) conv =
  of_i16 :: "16 word \<Rightarrow> 'a"
  dbl :: "'a \<Rightarrow> 'd"
  flt :: "'d \<Rightarrow> 'a"
  dbl_nat :: "nat \<Rightarrow> 'd"
  trunc_u32 :: "'d \<Rightarrow> nat"
  trunc_i16 :: "'d \<Rightarrow> 16 word"

record device =
  deviceSampleRate :: nat
  deviceChannels :: nat
  deviceBits :: nat

definition FRAMES_PER_BLOCK :: nat where "FRAMES_PER_BLOCK = 480"

definition outFrames :: "device \<Rightarrow> nat" where
  "outFrames D = FRAMES_PER_BLOCK * deviceSampleRate D div 48000"

definition outBlockSize :: "device \<Rightarrow> nat" where
  "outBlockSize D = outFrames D * (deviceChannels D * (deviceBits D div 8))"

text \<open>The bytes of a block are little-endian 16-bit samples.\<close>

fun mono_samples :: "byte list \<Rightarrow> 16 word list" where
  "mono_samples (lo # hi # bs) = (ucast lo OR push_bit 8 (ucast hi)) # mono_samples bs"
| "mono_samples bs = []"

section \<open>Resampling\<close>

definition resample_f ::
  "('a, 'd::{one,plus,minus,times}) conv \<Rightarrow> 'd \<Rightarrow> 'a list \<Rightarrow> nat \<Rightarrow> 'a::zero option" where
  "resample_f C ratio buf i =
     (let srcPos = dbl_nat C i * ratio; idx = trunc_u32 C srcPos; frac = srcPos - dbl_nat C idx
      in if idx + 1 < FRAMES_PER_BLOCK then do {
           x \<leftarrow> rd buf (int idx);
           y \<leftarrow> rd buf (int (idx + 1));
           Some (flt C ((1 - frac) * dbl C x + frac * dbl C y))
         }
         else if idx < FRAMES_PER_BLOCK then rd buf (int idx)
         else Some 0)"

definition resample_d ::
  "('a, 'd::{zero,one,plus,minus,times}) conv \<Rightarrow> 'd \<Rightarrow> 'a list \<Rightarrow> nat \<Rightarrow> 'd option" where
  "resample_d C ratio buf i =
     (let srcPos = dbl_nat C i * ratio; idx = trunc_u32 C srcPos; frac = srcPos - dbl_nat C idx
      in if idx + 1 < FRAMES_PER_BLOCK then do {
           x \<leftarrow> rd buf (int idx);
           y \<leftarrow> rd buf (int (idx + 1));
           Some ((1 - frac) * dbl C x + frac * dbl C y)
         }
         else if idx < FRAMES_PER_BLOCK then map_option (dbl C) (rd buf (int idx))
         else Some 0)"

definition to_i16 ::
  "('a, 'd::{one,times,uminus,ord,scaleR}) conv \<Rightarrow> 'a \<Rightarrow> 'd \<Rightarrow> 16 word" where
  "to_i16 C gain s =
     (let s = s * (dbl C gain * lit 32767);
          s = (if s < - lit 32768 then - lit 32768 else if lit 32767 < s then lit 32767 else s)
      in trunc_i16 C s)"

section \<open>Writing\<close>

definition write_frame :: "nat \<Rightarrow> nat \<Rightarrow> 'b \<Rightarrow> 'b list \<Rightarrow> 'b list option" where
  "write_frame channels i v out = do {
     out \<leftarrow> wr out (int (i * channels)) v;
     if 1 < channels then wr out (int (i * channels + 1)) v else Some out
   }"

definition write_frames :: "nat \<Rightarrow> (nat \<Rightarrow> 'b option) \<Rightarrow> nat \<Rightarrow> 'b list \<Rightarrow> 'b list option" where
  "write_frames channels f n out = ofold (\<lambda>i out. do { v \<leftarrow> f i; write_frame channels i v out }) [0..<n] out"

datatype 'a device_buffer = Floats "'a list" | Ints "16 word list"

text \<open>The cells of the buffer that \<open>GetBuffer\<close> hands out for one block.\<close>

definition buffer_fits :: "device \<Rightarrow> 'a device_buffer \<Rightarrow> bool" where
  "buffer_fits D out \<longleftrightarrow> (case out of
     Floats xs \<Rightarrow> deviceBits D = 32 \<and> length xs * 4 = outBlockSize D
   | Ints xs \<Rightarrow> deviceBits D \<noteq> 32 \<and> length xs = outBlockSize D div 2)"

definition write_block ::
  "('a, 'd::{zero,one,plus,minus,uminus,times,ord,scaleR}) conv \<Rightarrow> device \<Rightarrow> 'd \<Rightarrow> 'a \<Rightarrow> 'a list \<Rightarrow> 'a::{zero,times} device_buffer \<Rightarrow>
   'a device_buffer option" where
  "write_block C D ratio gain buf out = (case out of
     Floats xs \<Rightarrow> map_option Floats
       (write_frames (deviceChannels D) (\<lambda>i. map_option (\<lambda>s. s * gain) (resample_f C ratio buf i)) (outFrames D) xs)
   | Ints xs \<Rightarrow> map_option Ints
       (write_frames (deviceChannels D) (\<lambda>i. map_option (to_i16 C gain) (resample_d C ratio buf i)) (outFrames D) xs))"

definition silence :: "'a::zero device_buffer \<Rightarrow> 'a device_buffer" where
  "silence out = (case out of Floats xs \<Rightarrow> Floats (replicate (length xs) 0) | Ints xs \<Rightarrow> Ints (replicate (length xs) 0))"

section \<open>One block\<close>

record 'a render =
  r_ring :: spsc_ring
  r_pipeline :: "'a pipeline"
  r_app :: "'a AppState"
  r_underruns :: u32
  r_idleSilenceBlocks :: u32
  r_renderStallScore :: nat

text \<open>The wait for the device: \<open>signalled\<close> within two seconds or not.\<close>

definition render_wait :: "bool \<Rightarrow> 'a render \<Rightarrow> 'a render" where
  "render_wait signalled r =
     (if \<not> signalled then (if r_renderStallScore r < 3 then r\<lparr>r_renderStallScore := r_renderStallScore r + 1\<rparr> else r)
      else r\<lparr>r_renderStallScore := 0\<rparr>)"

definition render_block ::
  "('a, 'd::{zero,one,plus,minus,uminus,times,ord,scaleR}) conv \<Rightarrow> device \<Rightarrow> 'd \<Rightarrow> 'a pipe_env \<Rightarrow> nat \<Rightarrow> nat \<Rightarrow> 'a device_buffer \<Rightarrow>
   'a::{zero,one,plus,minus,uminus,times,inverse,ord,scaleR} render \<Rightarrow>
   ('a device_buffer \<times> 'a render) option" where
  "render_block C D ratio E n1 n2 out r =
     (let gain = g_gain (r_app r)
      in case rb_pop (r_ring r) BLOCK_SIZE of
           (Some bytes, q) \<Rightarrow> do {
             let floatBuf = map (\<lambda>x. of_i16 C x * inverse (lit 32768)) (mono_samples bytes);
             (src, floatBuf, p, g) \<leftarrow> process E n1 n2 floatBuf (lit 48000) (r_pipeline r, r_app r);
             out \<leftarrow> write_block C D ratio gain floatBuf out;
             Some (out, r\<lparr>r_ring := q, r_pipeline := p, r_app := g\<rparr>)
           }
         | (None, q) \<Rightarrow>
             (let expectAudio = (\<not> g_demandMode (r_app r) \<or> g_micRequested (r_app r)); r = r\<lparr>r_ring := q\<rparr>
              in Some (silence out,
                   if expectAudio then r\<lparr>r_underruns := r_underruns r + 1\<rparr>
                   else r\<lparr>r_idleSilenceBlocks := r_idleSilenceBlocks r + 1\<rparr>)))"

section \<open>Safety\<close>

lemma resample_in_bounds:
  assumes "length buf = 480"
  shows "\<exists>s. resample_f C ratio buf i = Some s" "\<exists>s. resample_d C ratio buf i = Some s"
  using assms by (auto simp: resample_f_def resample_d_def rd_def FRAMES_PER_BLOCK_def Let_def)

lemma write_frame_safe:
  assumes "(i + 1) * c \<le> length out" "0 < c"
  shows "\<exists>out'. write_frame c i v out = Some out' \<and> length out' = length out"
proof -
  have "i * c < length out" "1 < c \<longrightarrow> i * c + 1 < length out" using assms by (auto simp: algebra_simps)
  then have w: "wr out (int (i * c)) v = Some (out[i * c := v])"
    "1 < c \<longrightarrow> wr (out[i * c := v]) (int (i * c + 1)) v = Some (out[i * c := v, i * c + 1 := v])"
    using wr_nat [of "i * c" out v] wr_nat [of "i * c + 1" "out[i * c := v]" v] by auto
  show ?thesis unfolding write_frame_def w(1) bind.simps using w(2) by auto
qed

lemma write_frames_safe:
  assumes "n * c \<le> length out" "0 < c" "\<And>i. \<exists>v. f i = Some v"
  shows "\<exists>out'. write_frames c f n out = Some out' \<and> length out' = length out"
  using assms(1)
proof (induction n)
  case (Suc n)
  then obtain o1 where o1: "write_frames c f n out = Some o1" "length o1 = length out" by auto
  obtain v where v: "f n = Some v" using assms(3) by blast
  have "(n + 1) * c \<le> length o1" using Suc.prems o1(2) by simp
  from write_frame_safe [OF this assms(2), of v] show ?case
    using o1 v by (auto simp: write_frames_def ofold_append)
qed (simp add: write_frames_def)

text \<open>Every format of at least 16 bits per sample has room for what is written.\<close>

lemma write_block_safe:
  assumes "length buf = 480" "buffer_fits D out" "16 \<le> deviceBits D" "0 < deviceChannels D"
  shows "\<exists>out'. write_block C D ratio gain buf out = Some out'"
proof (cases out)
  case (Floats xs)
  then have "outFrames D * deviceChannels D \<le> length xs" using assms(2) by (auto simp: buffer_fits_def outBlockSize_def)
  from write_frames_safe [OF this assms(4), of "\<lambda>i. map_option (\<lambda>s. s * gain) (resample_f C ratio buf i)"] show ?thesis
    using resample_in_bounds(1) [OF assms(1), of C ratio] Floats by (fastforce simp: write_block_def)
next
  case (Ints xs)
  have "2 \<le> deviceBits D div 8" using assms(3) by simp
  then have "outFrames D * deviceChannels D * 2 \<le> outBlockSize D" unfolding outBlockSize_def
    by (metis mult.assoc mult_le_mono2)
  then have "outFrames D * deviceChannels D \<le> length xs" using assms(2) Ints by (auto simp: buffer_fits_def)
  from write_frames_safe [OF this assms(4), of "\<lambda>i. map_option (to_i16 C gain) (resample_d C ratio buf i)"] show ?thesis
    using resample_in_bounds(2) [OF assms(1), of C ratio] Ints by (fastforce simp: write_block_def)
qed

lemma mono_samples_length: "length (mono_samples bs) = length bs div 2"
  by (induction bs rule: mono_samples.induct) auto

text \<open>On a device of 48000 Hz, in exact arithmetic, resampling is the identity.\<close>

lemma resample_identity:
  assumes "\<And>n. dbl_nat C n = real n" "\<And>n. trunc_u32 C (real n) = n" "\<And>x. flt C (dbl C x) = x" "i < 480" "length buf = 480"
  shows "resample_f C 1 buf i = Some (buf ! i :: 'a::zero)"
  using assms by (auto simp: resample_f_def rd_def FRAMES_PER_BLOCK_def)

end
