(* ===== verification/Spec2Isabelle.thy ===== *)
theory Spec2Isabelle
  imports Ring_Concurrency Tagged_Block_Queue Mic_Usage_Monitor Dpdfnet_Epochs Dsp_Watchdog Wasapi_Render
begin

text \<open>
  VoxMic: a Windows program that plays the microphone stream of an Android phone into a virtual audio cable.

  The program. The phone sends blocks of 480 samples (10 ms) through a forwarded \<open>adb\<close> port. The bridge
  thread (\<open>main.cpp\<close>) keeps the device, the forward and the socket alive and puts the blocks into a byte
  ring (\<open>ring_buffer.h\<close>), when an application listens (\<open>mic_usage_monitor.cpp\<close>, \<open>mic_session_state.h\<close>)
  or the user does not want that condition. The WASAPI render thread (\<open>wasapi_output.cpp\<close>) takes
  blocks out of the ring, sends them through the DSP pipeline (\<open>dsp/pipeline.h\<close>) and writes them to the
  device. The pipeline removes noise with one of two denoisers: RNNoise (\<open>dsp/rnnoise\<close>, computed in
  the render thread) or DPDFNet (\<open>dsp/dpdfnet_processor.cpp\<close>, a native library driven by a worker
  thread, with a queue of blocks tagged with their stream epoch in each direction). An equaliser
  (\<open>biquad.h\<close>), a compressor and a limiter follow. Settings come from an ini file (\<open>config.cpp\<close>) and
  reach the other threads through the atomics of \<open>app_state.h\<close>.

  The theories, bottom up.

  \<^item> \<open>VM_Prelude\<close>: checked memory access, C division, loops that may fail, circular arrays.
    \<open>C_Strings\<close>: the string functions of C and C++.
  \<^item> \<open>Bounded_Fifo\<close>: the contract of a bounded queue, a locale. \<open>Ring_Buffer\<close> and \<open>Tagged_Block_Queue\<close>
    interpret it for the two queues of the program; \<open>Ring_Concurrency\<close> runs the ring's two threads
    interleaved at the accesses of its two positions.
  \<^item> \<open>Mic_Session_State\<close>, \<open>Mic_Usage_Monitor\<close>: which recording sessions are active, and the debounced
    request for the microphone with its grace period.
  \<^item> \<open>Rnn_Arch\<close>, \<open>Rnn_Weights\<close> (parser of the model file), \<open>Rnn_Nnet\<close> (kernels, layers, one frame of the
    network), \<open>Rnn_Pitch\<close> (pitch analysis and linear prediction), \<open>Rnn_Fft\<close> (planning and the mixed-radix
    transform) with \<open>Rnn_Fft_Safe\<close>, \<open>Rnn_Tables\<close> (static tables), \<open>Rnn_Denoise\<close> (the suppressor) with
    \<open>Rnn_Denoise_Safe\<close> and \<open>Rnn_Denoise_Exact\<close>.
  \<^item> \<open>App_State\<close>: shared state and the error type. \<open>Dsp_Biquad\<close>, \<open>Dpdfnet_Processor\<close>, \<open>Dsp_Pipeline\<close>:
    the pipeline and its second denoiser. \<open>Dpdfnet_Epochs\<close> interleaves the render thread with the worker,
    \<open>Dsp_Watchdog\<close> bounds what the pipeline may do to the sound.
  \<^item> \<open>App_Config\<close>: the configuration and its way to the DSP. \<open>Adb_Control\<close>, \<open>Socket_Client\<close> and
    \<open>Audio_Bridge\<close>: the bridge thread and what it talks to. \<open>Wasapi_Render\<close>: one block of output, from the
    ring through the pipeline to the buffer of the device.

  State. A C structure or C++ class is a record with the source's fields; an operation is a function on the
  record under the source's name (a prefix avoids clashes: \<open>rb_\<close>, \<open>tq_\<close>, \<open>g_\<close>, \<open>m_\<close>, \<open>b_\<close>, \<open>r_\<close>, \<open>c_\<close>).
  Atomics are fields. Where threads meet, the model is a step relation with one access of shared state per step
  (\<open>Ring_Concurrency\<close>, \<open>Dpdfnet_Epochs\<close>); the bridge and the pipeline are functions of whole rounds, between
  which the other threads act. An access outside an array, a branch the C code leaves undefined and a call on a
  missing object are \<open>None\<close>; error codes are values of a sum or a number, as in the source.

  Numbers. Machine integers are words where they may wrap (epochs, counters, ticks) and \<open>nat\<close> or \<open>int\<close>
  where the theories say why they cannot. Floating-point code is polymorphic in classes that have operations
  and no laws, so memory safety, termination and equivalence of loops hold of IEEE arithmetic as well;
  statements about values (transforms, prediction, limiter) are about exact arithmetic over \<open>real\<close> or
  \<open>complex\<close> and say so.

  What the properties show.

  \<^item> Queues: first in first out and exactly a bounded list, also when the two threads of the ring interleave;
    blocks keep their tags.
  \<^item> Monitor: the request goes on with any activity, a pulse between two looks included, goes off only after
    the full grace period, and does go off; one reconciliation agrees with what Windows reports.
  \<^item> Model file: parsing any bytes is safe, accepted layers have the room their dimensions say, files written
    record by record are read back; what the check of sparse indices misses.
  \<^item> Network, pitch, transform, suppressor: unrolled kernels equal their plain loops, everything stays in
    bounds, gains lie in the unit interval, the transform is the discrete Fourier transform, allocation
    either fails or leaves a plan that inverts itself, analysis and synthesis reconstruct the input, and
    any sequence of calls keeps the state's invariant.
  \<^item> DPDFNet and pipeline: loading is all or nothing; no audio crosses a stream reset under any
    interleaving; silence is bounded by the watchdog whatever the worker does; the limiter's exact bounds.
  \<^item> Configuration and bridge: a loaded configuration is well formed and is what the DSP sees; the bridge's
    backlog, counters, flags, status and retries, and that only wanted audio is forwarded.

  Bounds and fuel. The factorisation \<open>kf_factor\<close> is a total recursion (its table is finite); the property about
  it covers sizes up to 8747, those of the transform name their plans, and the program uses 960. \<open>collect\<close> (the loop that
  empties the output queue) has fuel \<open>QUEUE_CAPACITY\<close>, enough because the queue holds no more blocks and the
  model's render thread is its only consumer in that loop; \<open>processBlock\<close> is proved to return. The worker's
  loop and the bridge's loops are steps; how many steps of the worker fall between two accesses of the render
  thread is an argument that every property quantifies over. \<open>recvExact\<close> is a total recursion on the bytes
  still missing.

  Not modelled, and why. The native library, Winsock, WASAPI, the profile functions, processes and
  the C mathematical functions are parameters, with what is used of them as named hypotheses. The weights of the
  built-in model and \<open>init_rnnoise\<close> are not in the repository and are parameters. The twiddle factors and the
  cosine table of \<open>rnnoise_tables.c\<close> are arguments. The vector kernels \<open>vec_avx.h\<close> and \<open>vec_neon.h\<close> are
  alternatives, chosen at compile time, to the portable ones that are modelled. Log output,
  timing averages, sleeping and test hooks have no effect on the modelled state. The settings window, tray icon
  painting, layout, device enumeration, file paths and the autostart entry are calls of Win32 without logic of
  their own; the Android application is another program. Within one round of the bridge its ring operations are
  not interleaved with those of the render thread (the bridge trims the ring with the consumer's operations,
  which the ring's own contract does not allow concurrently).
\<close>

end
